(* ===== verification/Prelude.thy ===== *)
theory Prelude
  imports Main "HOL-Library.Word"
begin

text \<open>
  The shared layer of the development: Go's fixed-width integers, results of fallible
  calls, the byte readers of package \<^verbatim>\<open>io\<close> and the big-endian integer
  encodings of package \<^verbatim>\<open>encoding/binary\<close>, with the lemmas about them
  that every component uses. Two collections carry the component proofs:
  \<open>res_simps\<close> (results and their sequencing) and \<open>codec_simps\<close> (readers and
  integer encodings).
\<close>

named_theorems res_simps \<open>results and sequencing of fallible calls\<close>
named_theorems codec_simps \<open>byte readers and integer encodings\<close>

subsection \<open>Go's types\<close>

type_synonym u8 = "8 word"
type_synonym u16 = "16 word"
type_synonym u32 = "32 word"
type_synonym u64 = "64 word"
type_synonym bytes = "8 word list"

subsection \<open>Results\<close>

text \<open>A Go call returning \<open>(value, error)\<close> is a value of \<open>'e + 'a\<close>; \<open>bindR\<close>
  is \<open>if err != nil { return err }\<close> followed by the rest of the function.\<close>

definition bindR :: "'e + 'a \<Rightarrow> ('a \<Rightarrow> 'e + 'b) \<Rightarrow> 'e + 'b" where
  "bindR m f = (case m of Inl e \<Rightarrow> Inl e | Inr x \<Rightarrow> f x)"

definition mapErr :: "('e \<Rightarrow> 'f) \<Rightarrow> 'e + 'a \<Rightarrow> 'f + 'a" where
  "mapErr g m = (case m of Inl e \<Rightarrow> Inl (g e) | Inr x \<Rightarrow> Inr x)"

lemma bindR_simps [simp, res_simps]:
  "bindR (Inl e) f = Inl e"
  "bindR (Inr x) f = f x"
  by (simp_all add: bindR_def)

lemma mapErr_simps [simp, res_simps]:
  "mapErr g (Inl e) = Inl (g e)"
  "mapErr g (Inr x) = Inr x"
  by (simp_all add: mapErr_def)

lemma bindR_Inr_iff [res_simps]: "bindR m f = Inr y \<longleftrightarrow> (\<exists>x. m = Inr x \<and> f x = Inr y)"
  by (cases m) simp_all

lemma bindR_Inl_iff [res_simps]:
  "bindR m f = Inl e \<longleftrightarrow> m = Inl e \<or> (\<exists>x. m = Inr x \<and> f x = Inl e)"
  by (cases m) auto

lemma mapErr_Inr_iff [simp, res_simps]: "mapErr g m = Inr y \<longleftrightarrow> m = Inr y"
  by (cases m) simp_all

lemma bindR_InrE [elim]:
  assumes "bindR m f = Inr y"
  obtains x where "m = Inr x" and "f x = Inr y"
  using assms by (auto simp: bindR_Inr_iff)

lemma not_isl_obtain:
  assumes "\<not> isl m"
  obtains x where "m = Inr x"
  using assms by (cases m) simp_all

subsection \<open>Readers\<close>

text \<open>An \<open>io.Reader\<close> over a byte slice is the list of bytes left. \<open>io.ReadFull\<close>
  reads exactly \<open>n\<close> bytes: no byte read is \<open>EOF\<close>, some but not all is
  \<open>ErrUnexpectedEOF\<close>, and a read of no bytes always succeeds.\<close>

datatype io_error = EOF | ErrUnexpectedEOF

definition ReadFull :: "nat \<Rightarrow> bytes \<Rightarrow> io_error + (bytes \<times> bytes)" where
  "ReadFull n r =
     (if n \<le> length r then Inr (take n r, drop n r)
      else if r = [] then Inl EOF else Inl ErrUnexpectedEOF)"

lemma ReadFull_append [simp, codec_simps]:
  "length bs = n \<Longrightarrow> ReadFull n (bs @ rest) = Inr (bs, rest)"
  by (simp add: ReadFull_def)

lemma ReadFull_Cons [simp, codec_simps]: "ReadFull (Suc 0) (b # rest) = Inr ([b], rest)"
  by (simp add: ReadFull_def)

lemma ReadFull_InrD:
  "ReadFull n r = Inr (bs, rest) \<Longrightarrow> r = bs @ rest \<and> length bs = n"
  by (auto simp: ReadFull_def split: if_splits)

lemma ReadFull_Inr_iff [codec_simps]:
  "ReadFull n r = Inr (bs, rest) \<longleftrightarrow> r = bs @ rest \<and> length bs = n"
  by (auto dest: ReadFull_InrD)

subsection \<open>Big-endian integers\<close>

text \<open>\<open>be_bytes n v\<close> is what \<open>binary.BigEndian.PutUint\<close> stores in \<open>n\<close> bytes,
  \<open>be_val\<close> what \<open>binary.BigEndian.Uint\<close> reads back.\<close>

fun be_bytes :: "nat \<Rightarrow> nat \<Rightarrow> bytes" where
  "be_bytes 0 v = []"
| "be_bytes (Suc n) v = be_bytes n (v div 256) @ [word_of_nat v]"

definition be_val :: "bytes \<Rightarrow> nat" where
  "be_val bs = foldl (\<lambda>acc b. acc * 256 + unat b) 0 bs"

lemma be_val_Nil [simp, codec_simps]: "be_val [] = 0"
  by (simp add: be_val_def)

lemma be_val_snoc [simp, codec_simps]: "be_val (bs @ [b]) = be_val bs * 256 + unat b"
  by (simp add: be_val_def)

lemma be_val_zeros: "be_val (replicate k 0) = 0"
  by (induction k) (simp_all add: be_val_def)

lemma be_val_pad: "be_val (replicate k 0 @ bs) = be_val bs"
  by (induction bs rule: rev_induct) (simp_all add: be_val_zeros flip: append_assoc)

lemma length_be_bytes [simp, codec_simps]: "length (be_bytes n v) = n"
  by (induction n arbitrary: v) simp_all

lemma unat_word_of_nat_u8: "unat (word_of_nat v :: u8) = v mod 256"
  by (simp add: unat_of_nat)

lemma be_val_be_bytes [codec_simps]: "be_val (be_bytes n v) = v mod 256 ^ n"
proof (induction n arbitrary: v)
  case 0
  then show ?case by simp
next
  case (Suc n)
  have "be_val (be_bytes (Suc n) v) = (v div 256 mod 256 ^ n) * 256 + v mod 256"
    by (simp add: Suc.IH unat_word_of_nat_u8)
  also have "\<dots> = v mod 256 ^ Suc n"
    by (simp add: mod_mult2_eq mult.commute)
  finally show ?case .
qed

lemma be_val_be_bytes_id [simp, codec_simps]:
  "v < 256 ^ n \<Longrightarrow> be_val (be_bytes n v) = v"
  by (simp add: be_val_be_bytes)

lemma unat_u8_less [simp]: "unat (b :: u8) < 256"
  using unsigned_less [of b] by simp

lemma be_val_less: "be_val bs < 256 ^ length bs"
proof (induction bs rule: rev_induct)
  case Nil
  then show ?case by simp
next
  case (snoc b bs)
  have "be_val bs * 256 + unat b < (be_val bs + 1) * 256"
    using unat_u8_less [of b] by simp
  also have "\<dots> \<le> 256 ^ length bs * 256"
    using snoc.IH by (intro mult_right_mono) simp_all
  finally show ?case by simp
qed

lemma u8_256: "(256 :: u8) = 0"
  by simp

lemma be_bytes_be_val [simp, codec_simps]: "be_bytes (length bs) (be_val bs) = bs"
proof (induction bs rule: rev_induct)
  case Nil
  then show ?case by simp
next
  case (snoc b bs)
  have "(word_of_nat (be_val bs * 256 + unat b) :: u8) = b"
    by (simp add: u8_256)
  with snoc.IH show ?case by simp
qed

lemma be_bytes_be_val_id: "length bs = n \<Longrightarrow> be_bytes n (be_val bs) = bs"
  by (metis be_bytes_be_val)

lemma word_of_nat_be_val:
  assumes "length buf = n" and "LENGTH('a) = 8 * n"
  shows "be_bytes n (unat (word_of_nat (be_val buf) :: 'a :: len word)) = buf"
proof -
  have "be_val buf < 2 ^ LENGTH('a)" using be_val_less [of buf] assms by (simp add: power_mult)
  then show ?thesis using assms by (simp add: unat_of_nat be_bytes_be_val_id)
qed

lemma map_nth_take: "n \<le> length xs \<Longrightarrow> map (\<lambda>i. f (xs ! i)) [0..<n] = map f (take n xs)"
  by (rule nth_equalityI) simp_all

subsection \<open>Words as numbers\<close>

lemma unat_less_u16: "unat (w :: u16) < 65536"
  using unsigned_less [of w] by simp

lemma unat_less_u32: "unat (w :: u32) < 4294967296"
  using unsigned_less [of w] by simp

lemma unat_less_u64: "unat (w :: u64) < 18446744073709551616"
  using unsigned_less [of w] by simp

lemmas unat_less_width = unat_u8_less unat_less_u16 unat_less_u32 unat_less_u64

lemma unat_ucast: "unat (ucast (v :: 'a :: len word) :: 'b :: len word) = unat v mod 2 ^ LENGTH('b)"
  by (simp add: unsigned_ucast_eq take_bit_eq_mod)

lemma unat_injD: "unat v = unat w \<Longrightarrow> v = w"
  by (rule word_unat_eq_iff [THEN iffD2])

lemma sum_list_filter_split:
  fixes f :: "'a \<Rightarrow> 'b :: ab_group_add"
  shows "(\<Sum>x\<leftarrow>xs. f x) = (\<Sum>x\<leftarrow>filter P xs. f x) + (\<Sum>x\<leftarrow>filter (\<lambda>x. \<not> P x) xs. f x)"
  by (induction xs) (simp_all add: algebra_simps)

end
