(* ===== verification/Tlv.thy ===== *)
theory Tlv
  imports Prelude
begin

unbundle bit_operations_syntax

text \<open>
  Package \<^verbatim>\<open>tlv\<close>, the value codecs: variable-length integers
  (\<^verbatim>\<open>varint.go\<close>), truncated integers (\<^verbatim>\<open>truncated.go\<close>) and the primitive
  encoders and decoders (\<^verbatim>\<open>primitive.go\<close>). The dynamic type behind
  \<open>interface{}\<close> is the datatype \<open>value\<close>; writing to an \<open>io.Writer\<close> is returning the
  bytes written, and reading from an \<open>io.Reader\<close> returns the bytes left. The scratch
  buffer \<open>*[8]byte\<close> carries no state between calls and is not a parameter. The encoding
  of public keys is \<^verbatim>\<open>secp256k1\<close>'s: \<open>SerializeCompressed\<close> and \<open>ParsePubKey\<close>
  are the parameters \<open>serPub\<close> and \<open>parsePub\<close>.
\<close>

subsection \<open>Values and errors\<close>

datatype 'pk tlv_value =
    is_VUint8: VUint8 u8
  | is_VUint16: VUint16 u16
  | is_VUint32: VUint32 u32
  | is_VUint64: VUint64 u64
  | is_VBytes32: VBytes32 bytes
  | is_VBytes33: VBytes33 bytes
  | is_VBytes64: VBytes64 bytes
  | is_VPubKey: VPubKey 'pk
  | is_VVarBytes: VVarBytes bytes
  | is_VOther: VOther

datatype tlv_error =
    ErrIO io_error
  | ErrVarIntNotCanonical
  | ErrTUintNotMinimal
  | ErrTypeForEncoding string
  | ErrTypeForDecoding string u64 u64
  | ErrParsePubKey
  | ErrStreamNotCanonical
  | ErrRecordTooLarge
  | PanicNilFunc
  | PanicUnknownPrimitive
  | OutOfFuel

abbreviation readFull :: "nat \<Rightarrow> bytes \<Rightarrow> tlv_error + (bytes \<times> bytes)" where
  "readFull n r \<equiv> mapErr ErrIO (ReadFull n r)"

text \<open>\<open>case err == io.EOF: return io.ErrUnexpectedEOF; case err != nil: return err\<close>\<close>

definition noEOF :: "tlv_error + 'a \<Rightarrow> tlv_error + 'a" where
  "noEOF m = mapErr (\<lambda>e. if e = ErrIO EOF then ErrIO ErrUnexpectedEOF else e) m"

lemma noEOF_simps [simp, res_simps]:
  "noEOF (Inr x) = Inr x"
  "noEOF m = Inr x \<longleftrightarrow> m = Inr x"
  by (simp_all add: noEOF_def)

subsection \<open>Variable-length integers\<close>

definition ReadVarInt :: "bytes \<Rightarrow> tlv_error + (u64 \<times> bytes)" where
  "ReadVarInt r =
     bindR (readFull 1 r) (\<lambda>(b, r1).
       let discriminant = b ! 0 in
       if discriminant < 0xfd then Inr (ucast discriminant, r1)
       else if discriminant = 0xfd then
         bindR (noEOF (readFull 2 r1)) (\<lambda>(buf, r2).
           let rv = word_of_nat (be_val buf) in
           if rv < 0xfd then Inl ErrVarIntNotCanonical else Inr (rv, r2))
       else if discriminant = 0xfe then
         bindR (noEOF (readFull 4 r1)) (\<lambda>(buf, r2).
           let rv = word_of_nat (be_val buf) in
           if rv \<le> 0xffff then Inl ErrVarIntNotCanonical else Inr (rv, r2))
       else
         bindR (noEOF (readFull 8 r1)) (\<lambda>(buf, r2).
           let rv = word_of_nat (be_val buf) in
           if rv \<le> 0xffffffff then Inl ErrVarIntNotCanonical else Inr (rv, r2)))"

definition WriteVarInt :: "u64 \<Rightarrow> bytes" where
  "WriteVarInt val =
     (if val < 0xfd then [ucast val]
      else if val \<le> 0xffff then 0xfd # be_bytes 2 (unat (ucast val :: u16))
      else if val \<le> 0xffffffff then 0xfe # be_bytes 4 (unat (ucast val :: u32))
      else 0xff # be_bytes 8 (unat val))"

subsection \<open>Truncated integers\<close>

definition numLeadingZeroBytes16 :: "u16 \<Rightarrow> u64" where
  "numLeadingZeroBytes16 v =
     (if v = 0 then 2
      else if v AND 0xff00 = 0 then 1
      else 0)"

definition SizeTUint16 :: "u16 \<Rightarrow> u64" where
  "SizeTUint16 v = 2 - numLeadingZeroBytes16 v"

definition ETUint16T :: "u16 \<Rightarrow> bytes" where
  "ETUint16T val = drop (unat (numLeadingZeroBytes16 val)) (be_bytes 2 (unat val))"

definition ETUint16 :: "'pk tlv_value \<Rightarrow> tlv_error + bytes" where
  "ETUint16 val =
     (case val of
        VUint16 t \<Rightarrow> Inr (drop (unat (numLeadingZeroBytes16 t)) (be_bytes 2 (unat t)))
      | _ \<Rightarrow> Inl (ErrTypeForEncoding ''uint16''))"

definition DTUint16 :: "bytes \<Rightarrow> 'pk tlv_value \<Rightarrow> u64 \<Rightarrow> tlv_error + ('pk tlv_value \<times> bytes)" where
  "DTUint16 r val l =
     (case val of
        VUint16 _ \<Rightarrow>
          if l \<le> 2 then
            bindR (readFull (unat l) r) (\<lambda>(buf, r1).
              let t = word_of_nat (be_val (replicate (2 - unat l) 0 @ buf)) in
              if 2 - numLeadingZeroBytes16 t \<noteq> l then Inl ErrTUintNotMinimal
              else Inr (VUint16 t, r1))
          else Inl (ErrTypeForDecoding ''uint16'' l 2)
      | _ \<Rightarrow> Inl (ErrTypeForDecoding ''uint16'' l 2))"

definition numLeadingZeroBytes32 :: "u32 \<Rightarrow> u64" where
  "numLeadingZeroBytes32 v =
     (if v = 0 then 4
      else if v AND 0xffffff00 = 0 then 3
      else if v AND 0xffff0000 = 0 then 2
      else if v AND 0xff000000 = 0 then 1
      else 0)"

definition SizeTUint32 :: "u32 \<Rightarrow> u64" where
  "SizeTUint32 v = 4 - numLeadingZeroBytes32 v"

definition ETUint32T :: "u32 \<Rightarrow> bytes" where
  "ETUint32T val = drop (unat (numLeadingZeroBytes32 val)) (be_bytes 4 (unat val))"

definition ETUint32 :: "'pk tlv_value \<Rightarrow> tlv_error + bytes" where
  "ETUint32 val =
     (case val of
        VUint32 t \<Rightarrow> Inr (drop (unat (numLeadingZeroBytes32 t)) (be_bytes 4 (unat t)))
      | _ \<Rightarrow> Inl (ErrTypeForEncoding ''uint32''))"

definition DTUint32 :: "bytes \<Rightarrow> 'pk tlv_value \<Rightarrow> u64 \<Rightarrow> tlv_error + ('pk tlv_value \<times> bytes)" where
  "DTUint32 r val l =
     (case val of
        VUint32 _ \<Rightarrow>
          if l \<le> 4 then
            bindR (readFull (unat l) r) (\<lambda>(buf, r1).
              let t = word_of_nat (be_val (replicate (4 - unat l) 0 @ buf)) in
              if 4 - numLeadingZeroBytes32 t \<noteq> l then Inl ErrTUintNotMinimal
              else Inr (VUint32 t, r1))
          else Inl (ErrTypeForDecoding ''uint32'' l 4)
      | _ \<Rightarrow> Inl (ErrTypeForDecoding ''uint32'' l 4))"

definition numLeadingZeroBytes64 :: "u64 \<Rightarrow> u64" where
  "numLeadingZeroBytes64 v =
     (if v = 0 then 8
      else if v AND 0xffffffffffffff00 = 0 then 7
      else if v AND 0xffffffffffff0000 = 0 then 6
      else if v AND 0xffffffffff000000 = 0 then 5
      else if v AND 0xffffffff00000000 = 0 then 4
      else if v AND 0xffffff0000000000 = 0 then 3
      else if v AND 0xffff000000000000 = 0 then 2
      else if v AND 0xff00000000000000 = 0 then 1
      else 0)"

definition SizeTUint64 :: "u64 \<Rightarrow> u64" where
  "SizeTUint64 v = 8 - numLeadingZeroBytes64 v"

definition ETUint64T :: "u64 \<Rightarrow> bytes" where
  "ETUint64T val = drop (unat (numLeadingZeroBytes64 val)) (be_bytes 8 (unat val))"

definition ETUint64 :: "'pk tlv_value \<Rightarrow> tlv_error + bytes" where
  "ETUint64 val =
     (case val of
        VUint64 t \<Rightarrow> Inr (drop (unat (numLeadingZeroBytes64 t)) (be_bytes 8 (unat t)))
      | _ \<Rightarrow> Inl (ErrTypeForEncoding ''uint64''))"

definition DTUint64 :: "bytes \<Rightarrow> 'pk tlv_value \<Rightarrow> u64 \<Rightarrow> tlv_error + ('pk tlv_value \<times> bytes)" where
  "DTUint64 r val l =
     (case val of
        VUint64 _ \<Rightarrow>
          if l \<le> 8 then
            bindR (readFull (unat l) r) (\<lambda>(buf, r1).
              let t = word_of_nat (be_val (replicate (8 - unat l) 0 @ buf)) in
              if 8 - numLeadingZeroBytes64 t \<noteq> l then Inl ErrTUintNotMinimal
              else Inr (VUint64 t, r1))
          else Inl (ErrTypeForDecoding ''uint64'' l 8)
      | _ \<Rightarrow> Inl (ErrTypeForDecoding ''uint64'' l 8))"

subsection \<open>Primitive encoders\<close>

definition EUint8T :: "u8 \<Rightarrow> bytes" where
  "EUint8T val = [val]"

definition EUint8 :: "'pk tlv_value \<Rightarrow> tlv_error + bytes" where
  "EUint8 val =
     (case val of VUint8 i \<Rightarrow> Inr [i] | _ \<Rightarrow> Inl (ErrTypeForEncoding ''uint8''))"

definition EUint16T :: "u16 \<Rightarrow> bytes" where
  "EUint16T val = be_bytes 2 (unat val)"

definition EUint16 :: "'pk tlv_value \<Rightarrow> tlv_error + bytes" where
  "EUint16 val =
     (case val of VUint16 i \<Rightarrow> Inr (be_bytes 2 (unat i)) | _ \<Rightarrow> Inl (ErrTypeForEncoding ''uint16''))"

definition EUint32T :: "u32 \<Rightarrow> bytes" where
  "EUint32T val = be_bytes 4 (unat val)"

definition EUint32 :: "'pk tlv_value \<Rightarrow> tlv_error + bytes" where
  "EUint32 val =
     (case val of VUint32 i \<Rightarrow> Inr (be_bytes 4 (unat i)) | _ \<Rightarrow> Inl (ErrTypeForEncoding ''uint32''))"

definition EUint64T :: "u64 \<Rightarrow> bytes" where
  "EUint64T val = be_bytes 8 (unat val)"

definition EUint64 :: "'pk tlv_value \<Rightarrow> tlv_error + bytes" where
  "EUint64 val =
     (case val of VUint64 i \<Rightarrow> Inr (be_bytes 8 (unat i)) | _ \<Rightarrow> Inl (ErrTypeForEncoding ''uint64''))"

definition EBytes32 :: "'pk tlv_value \<Rightarrow> tlv_error + bytes" where
  "EBytes32 val =
     (case val of VBytes32 b \<Rightarrow> Inr b | _ \<Rightarrow> Inl (ErrTypeForEncoding ''[32]byte''))"

definition EBytes33 :: "'pk tlv_value \<Rightarrow> tlv_error + bytes" where
  "EBytes33 val =
     (case val of VBytes33 b \<Rightarrow> Inr b | _ \<Rightarrow> Inl (ErrTypeForEncoding ''[33]byte''))"

definition EBytes64 :: "'pk tlv_value \<Rightarrow> tlv_error + bytes" where
  "EBytes64 val =
     (case val of VBytes64 b \<Rightarrow> Inr b | _ \<Rightarrow> Inl (ErrTypeForEncoding ''[64]byte''))"

definition EPubKey :: "('pk \<Rightarrow> bytes) \<Rightarrow> 'pk tlv_value \<Rightarrow> tlv_error + bytes" where
  "EPubKey serPub val =
     (case val of VPubKey pk \<Rightarrow> Inr (serPub pk)
      | _ \<Rightarrow> Inl (ErrTypeForEncoding ''*secp256k1.PublicKey''))"

definition EVarBytes :: "'pk tlv_value \<Rightarrow> tlv_error + bytes" where
  "EVarBytes val =
     (case val of VVarBytes b \<Rightarrow> Inr b | _ \<Rightarrow> Inl (ErrTypeForEncoding ''[]byte''))"

subsection \<open>Primitive decoders\<close>

definition DUint8 :: "bytes \<Rightarrow> 'pk tlv_value \<Rightarrow> u64 \<Rightarrow> tlv_error + ('pk tlv_value \<times> bytes)" where
  "DUint8 r val l =
     (case val of
        VUint8 _ \<Rightarrow>
          if l = 1 then bindR (readFull 1 r) (\<lambda>(buf, r1). Inr (VUint8 (buf ! 0), r1))
          else Inl (ErrTypeForDecoding ''uint8'' l 1)
      | _ \<Rightarrow> Inl (ErrTypeForDecoding ''uint8'' l 1))"

definition DUint16 :: "bytes \<Rightarrow> 'pk tlv_value \<Rightarrow> u64 \<Rightarrow> tlv_error + ('pk tlv_value \<times> bytes)" where
  "DUint16 r val l =
     (case val of
        VUint16 _ \<Rightarrow>
          if l = 2 then bindR (readFull 2 r) (\<lambda>(buf, r1). Inr (VUint16 (word_of_nat (be_val buf)), r1))
          else Inl (ErrTypeForDecoding ''uint16'' l 2)
      | _ \<Rightarrow> Inl (ErrTypeForDecoding ''uint16'' l 2))"

definition DUint32 :: "bytes \<Rightarrow> 'pk tlv_value \<Rightarrow> u64 \<Rightarrow> tlv_error + ('pk tlv_value \<times> bytes)" where
  "DUint32 r val l =
     (case val of
        VUint32 _ \<Rightarrow>
          if l = 4 then bindR (readFull 4 r) (\<lambda>(buf, r1). Inr (VUint32 (word_of_nat (be_val buf)), r1))
          else Inl (ErrTypeForDecoding ''uint32'' l 4)
      | _ \<Rightarrow> Inl (ErrTypeForDecoding ''uint32'' l 4))"

definition DUint64 :: "bytes \<Rightarrow> 'pk tlv_value \<Rightarrow> u64 \<Rightarrow> tlv_error + ('pk tlv_value \<times> bytes)" where
  "DUint64 r val l =
     (case val of
        VUint64 _ \<Rightarrow>
          if l = 8 then bindR (readFull 8 r) (\<lambda>(buf, r1). Inr (VUint64 (word_of_nat (be_val buf)), r1))
          else Inl (ErrTypeForDecoding ''uint64'' l 8)
      | _ \<Rightarrow> Inl (ErrTypeForDecoding ''uint64'' l 8))"

definition DBytes32 :: "bytes \<Rightarrow> 'pk tlv_value \<Rightarrow> u64 \<Rightarrow> tlv_error + ('pk tlv_value \<times> bytes)" where
  "DBytes32 r val l =
     (case val of
        VBytes32 _ \<Rightarrow>
          if l = 32 then bindR (readFull 32 r) (\<lambda>(b, r1). Inr (VBytes32 b, r1))
          else Inl (ErrTypeForDecoding ''[32]byte'' l 32)
      | _ \<Rightarrow> Inl (ErrTypeForDecoding ''[32]byte'' l 32))"

text \<open>Unlike its siblings, \<open>DBytes33\<close> does not look at the length it is given.\<close>

definition DBytes33 :: "bytes \<Rightarrow> 'pk tlv_value \<Rightarrow> u64 \<Rightarrow> tlv_error + ('pk tlv_value \<times> bytes)" where
  "DBytes33 r val l =
     (case val of
        VBytes33 _ \<Rightarrow> bindR (readFull 33 r) (\<lambda>(b, r1). Inr (VBytes33 b, r1))
      | _ \<Rightarrow> Inl (ErrTypeForDecoding ''[33]byte'' l 33))"

definition DBytes64 :: "bytes \<Rightarrow> 'pk tlv_value \<Rightarrow> u64 \<Rightarrow> tlv_error + ('pk tlv_value \<times> bytes)" where
  "DBytes64 r val l =
     (case val of
        VBytes64 _ \<Rightarrow>
          if l = 64 then bindR (readFull 64 r) (\<lambda>(b, r1). Inr (VBytes64 b, r1))
          else Inl (ErrTypeForDecoding ''[64]byte'' l 64)
      | _ \<Rightarrow> Inl (ErrTypeForDecoding ''[64]byte'' l 64))"

definition DPubKey :: "(bytes \<Rightarrow> 'pk option) \<Rightarrow> bytes \<Rightarrow> 'pk tlv_value \<Rightarrow> u64 \<Rightarrow> tlv_error + ('pk tlv_value \<times> bytes)" where
  "DPubKey parsePub r val l =
     (case val of
        VPubKey _ \<Rightarrow>
          if l = 33 then
            bindR (readFull 33 r) (\<lambda>(b, r1).
              case parsePub b of None \<Rightarrow> Inl ErrParsePubKey | Some p \<Rightarrow> Inr (VPubKey p, r1))
          else Inl (ErrTypeForDecoding ''*secp256k1.PublicKey'' l 33)
      | _ \<Rightarrow> Inl (ErrTypeForDecoding ''*secp256k1.PublicKey'' l 33))"

definition DVarBytes :: "bytes \<Rightarrow> 'pk tlv_value \<Rightarrow> u64 \<Rightarrow> tlv_error + ('pk tlv_value \<times> bytes)" where
  "DVarBytes r val l =
     (case val of
        VVarBytes _ \<Rightarrow> bindR (readFull (unat l) r) (\<lambda>(b, r1). Inr (VVarBytes b, r1))
      | _ \<Rightarrow> Inl (ErrTypeForDecoding ''[]byte'' l l))"


subsection \<open>Variable-length integers: round trip and canonicity\<close>

lemma word_of_be_val:
  "length buf \<le> 8 \<Longrightarrow> unat (word_of_nat (be_val buf) :: u64) = be_val buf"
proof -
  assume "length buf \<le> 8"
  then have "(256 :: nat) ^ length buf \<le> 256 ^ 8" by (intro power_increasing) simp_all
  then have "be_val buf < 2 ^ 64" using be_val_less [of buf] by simp
  then show ?thesis by (simp add: unat_of_nat)
qed

lemma le_unat_u64: "(v :: u64) \<le> w \<longleftrightarrow> unat v \<le> unat w" "v < w \<longleftrightarrow> unat v < unat w"
  by (simp_all add: word_le_nat_alt word_less_nat_alt)

lemma ReadVarInt_1: "unat b < 253 \<Longrightarrow> ReadVarInt (b # r) = Inr (ucast b, r)"
  by (simp add: ReadVarInt_def word_less_nat_alt)

lemma ReadVarInt_n:
  assumes "d = 0xfd \<and> n = 2 \<or> d = 0xfe \<and> n = 4 \<or> d = 0xff \<and> n = 8" and "length buf = n"
  shows "ReadVarInt (d # buf @ r) =
    (if be_val buf < (if n = 2 then 253 else if n = 4 then 65536 else 4294967296)
     then Inl ErrVarIntNotCanonical else Inr (word_of_nat (be_val buf), r))"
  using assms word_of_be_val [of buf]
  by (auto simp: ReadVarInt_def le_unat_u64 not_le not_less less_Suc_eq_le Let_def)

lemma ReadVarInt_Write: "ReadVarInt (WriteVarInt v @ rest) = Inr (v, rest)"
proof -
  have u16: "unat (ucast v :: u16) = unat v" if "unat v \<le> 65535"
    using that by (simp add: unat_ucast)
  have u32: "unat (ucast v :: u32) = unat v" if "unat v \<le> 4294967295"
    using that by (simp add: unat_ucast)
  consider "unat v < 253" | "253 \<le> unat v" "unat v \<le> 65535"
    | "65536 \<le> unat v" "unat v \<le> 4294967295" | "4294967296 \<le> unat v" by linarith
  then show ?thesis
  proof cases
    case 1
    then have "unat (ucast v :: u8) = unat v" by (simp add: unat_ucast)
    moreover have "ucast (ucast v :: u8) = v"
      using calculation 1 by (intro unat_injD) (simp add: unat_ucast)
    ultimately show ?thesis
      using 1 by (simp add: WriteVarInt_def le_unat_u64 ReadVarInt_1)
  next
    case 2
    then show ?thesis
      using u16 ReadVarInt_n [where d = "0xfd" and n = 2 and buf = "be_bytes 2 (unat v)" and r = rest]
      by (simp add: WriteVarInt_def le_unat_u64)
  next
    case 3
    then show ?thesis
      using u32 ReadVarInt_n [where d = "0xfe" and n = 4 and buf = "be_bytes 4 (unat v)" and r = rest]
      by (simp add: WriteVarInt_def le_unat_u64)
  next
    case 4
    then show ?thesis
      using unat_less_u64 [of v] ReadVarInt_n [where d = "0xff" and n = 8 and buf = "be_bytes 8 (unat v)" and r = rest]
      by (simp add: WriteVarInt_def le_unat_u64)
  qed
qed

lemma u8_ge_253: "\<not> (b :: u8) < 0xfd \<Longrightarrow> b = 0xfd \<or> b = 0xfe \<or> b = 0xff"
proof -
  assume "\<not> b < 0xfd"
  then have "\<not> unat b < 253" by (simp add: word_less_nat_alt)
  moreover have "unat b < 256" by (rule unat_u8_less)
  ultimately have "unat b = 253 \<or> unat b = 254 \<or> unat b = 255" by linarith
  then show ?thesis
    using unat_injD [of b "0xfd"] unat_injD [of b "0xfe"] unat_injD [of b "0xff"] by auto
qed

lemma ReadVarInt_canonical:
  assumes "ReadVarInt r = Inr (v, rest)"
  shows "r = WriteVarInt v @ rest"
proof -
  obtain b r1 where r: "r = b # r1"
    using assms by (cases r) (auto simp: ReadVarInt_def ReadFull_def)
  show ?thesis
  proof (cases "b < 0xfd")
    case True
    then have ub: "unat b < 253" by (simp add: word_less_nat_alt)
    with assms have "v = ucast b" and "rest = r1" by (simp_all add: r ReadVarInt_1)
    moreover have "unat (ucast b :: u64) = unat b"
      using ub by (simp add: unat_ucast)
    moreover have "ucast (ucast b :: u64) = b"
      using ub by (intro unat_injD) (simp add: unat_ucast)
    ultimately show ?thesis using ub r by (simp add: WriteVarInt_def le_unat_u64)
  next
    case False
    from u8_ge_253 [OF False] obtain n where n: "b = 0xfd \<and> n = 2 \<or> b = 0xfe \<and> n = 4 \<or> b = 0xff \<and> n = (8::nat)"
      by blast
    have "\<exists>buf r2. length buf = n \<and> r1 = buf @ r2"
      using assms n by (auto simp: r ReadVarInt_def Let_def res_simps codec_simps split: if_splits)
    then obtain buf r2 where buf: "length buf = n" and r1: "r1 = buf @ r2" by blast
    have u: "unat (word_of_nat (be_val buf) :: u64) = be_val buf"
      using buf n by (intro word_of_be_val) auto
    have lt: "be_val buf < 256 ^ n" using be_val_less [of buf] buf by simp
    from assms have bound: "\<not> be_val buf < (if n = 2 then 253 else if n = 4 then 65536 else 4294967296)"
      and v: "v = word_of_nat (be_val buf)" and "rest = r2"
      using ReadVarInt_n [OF n buf, of r2] by (auto simp: r r1 split: if_splits)
    have "be_bytes n (be_val buf) = buf" using buf by (rule be_bytes_be_val_id)
    then show ?thesis
      using n bound lt u \<open>rest = r2\<close>
      by (auto simp: r r1 v WriteVarInt_def le_unat_u64 unat_ucast)
  qed
qed

lemma WriteVarInt_neq_Nil [simp]: "WriteVarInt v \<noteq> []"
  by (simp add: WriteVarInt_def)

lemma ReadVarInt_EOF: "ReadVarInt r = Inl (ErrIO EOF) \<longleftrightarrow> r = []"
  by (cases r) (auto simp: ReadVarInt_def ReadFull_def noEOF_def bindR_def mapErr_def Let_def
      split: sum.splits if_splits prod.splits)

lemma ReadVarInt_shorter: "ReadVarInt r = Inr (v, rest) \<Longrightarrow> length rest < length r"
  by (auto dest!: ReadVarInt_canonical)

subsection \<open>Truncated integers\<close>

text \<open>\<open>minlen v\<close> is the number of bytes of \<open>v\<close> without leading zeros.\<close>

fun minlen :: "nat \<Rightarrow> nat" where
  "minlen v = (if v = 0 then 0 else Suc (minlen (v div 256)))"

declare minlen.simps [simp del]

lemma minlen_le_iff: "minlen v \<le> k \<longleftrightarrow> v < 256 ^ k"
proof (induction k arbitrary: v)
  case 0
  then show ?case by (simp add: minlen.simps [of v])
next
  case (Suc k)
  have "v < 256 ^ Suc k \<longleftrightarrow> v div 256 < 256 ^ k"
    by (simp add: div_less_iff_less_mult mult.commute)
  then show ?case using Suc.IH [of "v div 256"] by (simp add: minlen.simps [of v])
qed

lemma minlen_less: "v < 256 ^ minlen v"
  using minlen_le_iff [of v "minlen v"] by simp

lemma be_bytes_0: "be_bytes n 0 = replicate n 0"
  by (induction n) (simp_all add: replicate_append_same)

lemma be_bytes_pad: "k \<le> n \<Longrightarrow> v < 256 ^ k \<Longrightarrow> be_bytes n v = replicate (n - k) 0 @ be_bytes k v"
proof (induction k arbitrary: n v)
  case 0
  then show ?case by (simp add: be_bytes_0)
next
  case (Suc k)
  then obtain m where n: "n = Suc m" by (cases n) simp_all
  have "v div 256 < 256 ^ k" using Suc.prems by (simp add: div_less_iff_less_mult mult.commute)
  then show ?case using Suc.IH [of m "v div 256"] Suc.prems n by simp
qed


lemma and_high_zero_iff:
  "v AND NOT (mask k) = 0 \<longleftrightarrow> unat (v :: 'a :: len word) < 2 ^ k"
proof -
  have "unat (v AND NOT (mask k)) = push_bit k (drop_bit k (unat v))"
    by (rule bit_eqI)
      (auto simp: bit_unsigned_iff bit_and_iff bit_not_iff bit_mask_iff
        bit_push_bit_iff bit_drop_bit_eq dest: bit_imp_le_length)
  then have "v AND NOT (mask k) = 0 \<longleftrightarrow> unat v div 2 ^ k = 0"
    by (simp add: push_bit_eq_mult drop_bit_eq_div unat_eq_0 [symmetric])
  then show ?thesis by (simp add: div_eq_0_iff)
qed

locale tuint =
  fixes n :: nat
    and nlz :: "'a :: len word \<Rightarrow> u64"
  assumes width: "LENGTH('a) = 8 * n"
    and small: "n \<le> 8"
    and nlz: "unat (nlz v) = n - minlen (unat v)"
begin

lemma minlen_le: "minlen (unat (v :: 'a word)) \<le> n"
  using unsigned_less [of v] by (simp add: minlen_le_iff width power_mult)

lemma size_eq: "unat (word_of_nat n - nlz v) = minlen (unat v)"
proof -
  have n: "unat (word_of_nat n :: u64) = n" using small by (simp add: unat_of_nat)
  have "unat (nlz v) \<le> unat (word_of_nat n :: u64)" unfolding n nlz by simp
  then have "unat (word_of_nat n - nlz v) = n - (n - minlen (unat v))"
    by (simp add: unat_sub_if_size n nlz)
  then show ?thesis using minlen_le [of v] by simp
qed

lemma enc_eq: "drop (unat (nlz v)) (be_bytes n (unat v)) = be_bytes (minlen (unat v)) (unat v)"
  using be_bytes_pad [OF minlen_le [of v] minlen_less] by (simp add: nlz)

lemma dec_val:
  assumes "length buf \<le> n"
  shows "unat (word_of_nat (be_val (replicate k 0 @ buf)) :: 'a word) = be_val buf"
proof -
  have "(256 :: nat) ^ length buf \<le> 256 ^ n" using assms by (intro power_increasing) simp_all
  then have "be_val buf < 2 ^ LENGTH('a)"
    using less_le_trans [OF be_val_less] by (simp add: width power_mult)
  then show ?thesis by (simp add: be_val_pad unat_of_nat)
qed

lemma dec_enc:
  "word_of_nat (be_val (replicate k 0 @ be_bytes (minlen (unat v)) (unat v))) = (v :: 'a word)"
  by (rule unat_injD) (simp add: dec_val minlen_le minlen_less)

lemma size_dec:
  assumes "length buf = unat l" and "unat l \<le> n"
  shows "word_of_nat n - nlz (word_of_nat (be_val (replicate k 0 @ buf))) = l \<longleftrightarrow>
    be_bytes (minlen (be_val buf)) (be_val buf) = buf"
proof -
  have "word_of_nat n - nlz (word_of_nat (be_val (replicate k 0 @ buf))) = l \<longleftrightarrow>
      minlen (be_val buf) = length buf"
    using size_eq [of "word_of_nat (be_val (replicate k 0 @ buf))"] assms
    by (simp add: word_unat_eq_iff dec_val)
  also have "\<dots> \<longleftrightarrow> be_bytes (minlen (be_val buf)) (be_val buf) = buf"
    by (metis be_bytes_be_val length_be_bytes)
  finally show ?thesis .
qed

lemma dec_exact:
  assumes "word_of_nat n - nlz (word_of_nat (be_val (replicate k 0 @ buf))) = l"
    and "length buf = unat l" and "unat l \<le> n"
  shows "drop (unat (nlz (word_of_nat (be_val (replicate k 0 @ buf)))))
      (be_bytes n (unat (word_of_nat (be_val (replicate k 0 @ buf)) :: 'a word))) = buf"
  unfolding enc_eq using assms size_dec [OF assms(2,3), of k] by (simp add: dec_val)

end

text \<open>The source's mask constants select everything but the low \<open>k\<close> bytes.\<close>

lemma mask_minlen:
  assumes "c = NOT (mask (8 * k))"
  shows "v AND c = 0 \<longleftrightarrow> minlen (unat (v :: 'a :: len word)) \<le> k"
  by (simp add: assms and_high_zero_iff minlen_le_iff power_mult)

lemma zero_minlen: "v = 0 \<longleftrightarrow> minlen (unat (v :: 'a :: len word)) \<le> 0"
  unfolding minlen_le_iff by (simp add: unat_eq_zero)

lemma masks16: "(0xff00 :: u16) = NOT (mask (8 * 1))"
  by (simp add: mask_eq_exp_minus_1)

lemma masks32:
  "(0xffffff00 :: u32) = NOT (mask (8 * 1))"
  "(0xffff0000 :: u32) = NOT (mask (8 * 2))"
  "(0xff000000 :: u32) = NOT (mask (8 * 3))"
  by (simp_all add: mask_eq_exp_minus_1)

lemma masks64:
  "(0xffffffffffffff00 :: u64) = NOT (mask (8 * 1))"
  "(0xffffffffffff0000 :: u64) = NOT (mask (8 * 2))"
  "(0xffffffffff000000 :: u64) = NOT (mask (8 * 3))"
  "(0xffffffff00000000 :: u64) = NOT (mask (8 * 4))"
  "(0xffffff0000000000 :: u64) = NOT (mask (8 * 5))"
  "(0xffff000000000000 :: u64) = NOT (mask (8 * 6))"
  "(0xff00000000000000 :: u64) = NOT (mask (8 * 7))"
  by (simp_all add: mask_eq_exp_minus_1)

interpretation tu16: tuint 2 numLeadingZeroBytes16
proof
  fix v :: u16
  let ?m = "minlen (unat v)"
  have "?m \<le> 2" unfolding minlen_le_iff using unat_less_u16 [of v] by simp
  then have "?m = 0 \<or> ?m = 1 \<or> ?m = 2" by arith
  then show "unat (numLeadingZeroBytes16 v) = 2 - ?m"
    unfolding numLeadingZeroBytes16_def zero_minlen [of v] mask_minlen [OF masks16]
    by (elim disjE) simp_all
qed simp_all

interpretation tu32: tuint 4 numLeadingZeroBytes32
proof
  fix v :: u32
  let ?m = "minlen (unat v)"
  have "?m \<le> 4" unfolding minlen_le_iff using unat_less_u32 [of v] by simp
  then have "?m = 0 \<or> ?m = 1 \<or> ?m = 2 \<or> ?m = 3 \<or> ?m = 4" by arith
  then show "unat (numLeadingZeroBytes32 v) = 4 - ?m"
    unfolding numLeadingZeroBytes32_def zero_minlen [of v] mask_minlen [OF masks32(1)]
      mask_minlen [OF masks32(2)] mask_minlen [OF masks32(3)]
    by (elim disjE) simp_all
qed simp_all

interpretation tu64: tuint 8 numLeadingZeroBytes64
proof
  fix v :: u64
  let ?m = "minlen (unat v)"
  have "?m \<le> 8" unfolding minlen_le_iff using unat_less_u64 [of v] by simp
  then have "?m = 0 \<or> ?m = 1 \<or> ?m = 2 \<or> ?m = 3 \<or> ?m = 4 \<or> ?m = 5 \<or> ?m = 6 \<or> ?m = 7 \<or> ?m = 8"
    by arith
  then show "unat (numLeadingZeroBytes64 v) = 8 - ?m"
    unfolding numLeadingZeroBytes64_def zero_minlen [of v] mask_minlen [OF masks64(1)]
      mask_minlen [OF masks64(2)] mask_minlen [OF masks64(3)] mask_minlen [OF masks64(4)]
      mask_minlen [OF masks64(5)] mask_minlen [OF masks64(6)] mask_minlen [OF masks64(7)]
    by (elim disjE) simp_all
qed simp_all

subsection \<open>The contract of a value codec\<close>

text \<open>An encoder, a decoder and a size function fit together when, on the values the codec is
  for, the size is the length of the encoding and the decoder undoes the encoder; the codec
  is exact when the decoder accepts nothing but encodings.\<close>

locale tlv_codec =
  fixes enc :: "'a tlv_value \<Rightarrow> tlv_error + bytes"
    and dec :: "bytes \<Rightarrow> 'a tlv_value \<Rightarrow> u64 \<Rightarrow> tlv_error + ('a tlv_value \<times> bytes)"
    and sz :: "'a tlv_value \<Rightarrow> u64"
    and ok :: "'a tlv_value \<Rightarrow> bool"
  assumes enc_ok: "ok v \<Longrightarrow> \<exists>bs. enc v = Inr bs \<and> length bs = unat (sz v)"
    and dec_enc: "ok v \<Longrightarrow> ok w \<Longrightarrow> enc v = Inr bs \<Longrightarrow> dec (bs @ rest) w (sz v) = Inr (v, rest)"
begin

lemma enc_prefix_free:
  assumes "ok v" and "ok w" and "sz v = sz w" and "enc v = Inr bs" and "enc w = Inr cs"
    and "bs @ r = cs @ s"
  shows "v = w \<and> r = s"
proof -
  have "dec (bs @ r) v (sz v) = Inr (v, r)" by (rule dec_enc [OF assms(1,1,4)])
  moreover have "dec (cs @ s) v (sz w) = Inr (w, s)" by (rule dec_enc [OF assms(2,1,5)])
  ultimately have "(Inr (v, r) :: tlv_error + 'a tlv_value \<times> bytes) = Inr (w, s)"
    unfolding assms(3,6) by (rule trans [OF sym])
  then show ?thesis by simp
qed

end

locale exact_tlv_codec = tlv_codec +
  assumes dec_exact: "ok w \<Longrightarrow> dec r w l = Inr (v, rest) \<Longrightarrow>
    ok v \<and> l = sz v \<and> (\<exists>bs. enc v = Inr bs \<and> r = bs @ rest)"
begin

lemma dec_consumes:
  assumes "ok w" and "dec r w l = Inr (v, rest)"
  shows "\<exists>bs. r = bs @ rest \<and> length bs = unat l"
proof -
  obtain bs where "ok v" "l = sz v" "enc v = Inr bs" "r = bs @ rest"
    using dec_exact [OF assms] by blast
  then show ?thesis using enc_ok [of v] by auto
qed

lemma dec_iff:
  assumes "ok w"
  shows "dec r w l = Inr (v, rest) \<longleftrightarrow>
    ok v \<and> l = sz v \<and> (\<exists>bs. enc v = Inr bs \<and> r = bs @ rest)"
  using assms dec_exact dec_enc by blast

end


subsection \<open>The primitive codecs meet it\<close>

fun sizeVal :: "'pk tlv_value \<Rightarrow> u64" where
  "sizeVal (VUint8 _) = 1"
| "sizeVal (VUint16 _) = 2"
| "sizeVal (VUint32 _) = 4"
| "sizeVal (VUint64 _) = 8"
| "sizeVal (VBytes32 _) = 32"
| "sizeVal (VBytes33 _) = 33"
| "sizeVal (VBytes64 _) = 64"
| "sizeVal (VPubKey _) = 33"
| "sizeVal (VVarBytes b) = word_of_nat (length b)"
| "sizeVal VOther = 0"

fun sizeTrunc :: "'pk tlv_value \<Rightarrow> u64" where
  "sizeTrunc (VUint16 t) = SizeTUint16 t"
| "sizeTrunc (VUint32 t) = SizeTUint32 t"
| "sizeTrunc (VUint64 t) = SizeTUint64 t"
| "sizeTrunc _ = 0"

text \<open>A value of one of Go's array types has the array's length; a slice's length fits 64 bits.\<close>

fun wfVal :: "'pk tlv_value \<Rightarrow> bool" where
  "wfVal (VBytes32 b) = (length b = 32)"
| "wfVal (VBytes33 b) = (length b = 33)"
| "wfVal (VBytes64 b) = (length b = 64)"
| "wfVal (VVarBytes b) = (length b < 2 ^ 64)"
| "wfVal _ = True"

lemma nth_0_singleton: "length bs = Suc 0 \<Longrightarrow> [bs ! 0] = bs"
  by (cases bs) simp_all

lemmas prim_defs =
  EUint8_def EUint16_def EUint32_def EUint64_def EBytes32_def EBytes33_def EBytes64_def
  EPubKey_def EVarBytes_def DUint8_def DUint16_def DUint32_def DUint64_def DBytes32_def
  DBytes33_def DBytes64_def DPubKey_def DVarBytes_def

lemmas trunc_defs =
  ETUint16_def ETUint32_def ETUint64_def DTUint16_def DTUint32_def DTUint64_def

lemmas is_defs =
  is_VUint8_def is_VUint16_def is_VUint32_def is_VUint64_def is_VBytes32_def is_VBytes33_def
  is_VBytes64_def is_VPubKey_def is_VVarBytes_def

interpretation u8: exact_tlv_codec EUint8 DUint8 sizeVal "\<lambda>v. is_VUint8 v \<and> wfVal v"
  by unfold_locales
    (auto simp: prim_defs is_defs nth_0_singleton res_simps ReadFull_Inr_iff split: if_splits)

interpretation u16: exact_tlv_codec EUint16 DUint16 sizeVal "\<lambda>v. is_VUint16 v \<and> wfVal v"
  by unfold_locales
    (auto simp: prim_defs is_defs unat_less_u16 word_of_nat_be_val res_simps ReadFull_Inr_iff
      split: if_splits)


interpretation u32: exact_tlv_codec EUint32 DUint32 sizeVal "\<lambda>v. is_VUint32 v \<and> wfVal v"
  by unfold_locales
    (auto simp: prim_defs is_defs unat_less_u32 word_of_nat_be_val res_simps ReadFull_Inr_iff
      split: if_splits)

interpretation u64: exact_tlv_codec EUint64 DUint64 sizeVal "\<lambda>v. is_VUint64 v \<and> wfVal v"
  by unfold_locales
    (auto simp: prim_defs is_defs unat_less_u64 word_of_nat_be_val res_simps ReadFull_Inr_iff
      split: if_splits)

interpretation bytes32: exact_tlv_codec EBytes32 DBytes32 sizeVal "\<lambda>v. is_VBytes32 v \<and> wfVal v"
  by unfold_locales
    (auto simp: prim_defs is_defs res_simps ReadFull_Inr_iff split: if_splits)

interpretation bytes64: exact_tlv_codec EBytes64 DBytes64 sizeVal "\<lambda>v. is_VBytes64 v \<and> wfVal v"
  by unfold_locales
    (auto simp: prim_defs is_defs res_simps ReadFull_Inr_iff split: if_splits)

interpretation bytes33: tlv_codec EBytes33 DBytes33 sizeVal "\<lambda>v. is_VBytes33 v \<and> wfVal v"
  by unfold_locales
    (auto simp: prim_defs is_defs res_simps ReadFull_Inr_iff split: if_splits)

lemma unat_length: "length (bs :: bytes) < 2 ^ 64 \<Longrightarrow> unat (word_of_nat (length bs) :: u64) = length bs"
  by (simp add: unat_of_nat)

lemma length_eq_unat: "length (bs :: bytes) = unat (l :: u64) \<Longrightarrow> length bs < 2 ^ 64 \<and> l = word_of_nat (length bs)"
  using unat_less_u64 [of l] by simp

interpretation varbytes: exact_tlv_codec EVarBytes DVarBytes sizeVal "\<lambda>v. is_VVarBytes v \<and> wfVal v"
  by unfold_locales
    (auto simp: prim_defs is_defs res_simps ReadFull_Inr_iff unat_length dest!: length_eq_unat)

text \<open>Public keys, for any serialization into 33 bytes that the parser inverts.\<close>

lemma pubkey_codec:
  assumes "\<And>p. length (serPub p) = 33 \<and> parsePub (serPub p) = Some p"
  shows "tlv_codec (EPubKey serPub) (DPubKey parsePub) sizeVal (\<lambda>v. is_VPubKey v \<and> wfVal v)"
  by unfold_locales (use assms in \<open>auto simp: prim_defs is_defs res_simps\<close>)

lemma size_trunc:
  "unat (SizeTUint16 a) = minlen (unat a)"
  "unat (SizeTUint32 b) = minlen (unat b)"
  "unat (SizeTUint64 c) = minlen (unat c)"
  using tu16.size_eq [of a] tu32.size_eq [of b] tu64.size_eq [of c]
  by (simp_all add: SizeTUint16_def SizeTUint32_def SizeTUint64_def)

lemma size_trunc_le:
  "SizeTUint16 a \<le> 2" "SizeTUint32 b \<le> 4" "SizeTUint64 c \<le> 8"
  using tu16.minlen_le [of a] tu32.minlen_le [of b] tu64.minlen_le [of c]
  by (simp_all add: le_unat_u64 size_trunc)


interpretation t16: exact_tlv_codec ETUint16 DTUint16 sizeTrunc "\<lambda>v. is_VUint16 v"
proof
  fix v w :: "'a tlv_value" and r bs rest :: bytes and l :: u64
  show "is_VUint16 v \<Longrightarrow> \<exists>bs. ETUint16 v = Inr bs \<and> length bs = unat (sizeTrunc v)"
    by (auto simp: trunc_defs is_defs tu16.enc_eq size_trunc)
  show "is_VUint16 v \<Longrightarrow> is_VUint16 w \<Longrightarrow> ETUint16 v = Inr bs \<Longrightarrow>
      DTUint16 (bs @ rest) w (sizeTrunc v) = Inr (v, rest)"
    by (auto simp: trunc_defs is_defs tu16.enc_eq size_trunc size_trunc_le tu16.dec_enc
        SizeTUint16_def [symmetric])
  show "is_VUint16 w \<Longrightarrow> DTUint16 r w l = Inr (v, rest) \<Longrightarrow>
      is_VUint16 v \<and> l = sizeTrunc v \<and> (\<exists>bs. ETUint16 v = Inr bs \<and> r = bs @ rest)"
    using tu16.dec_exact [of _ _ l]
    by (auto simp: trunc_defs is_defs res_simps ReadFull_Inr_iff Let_def SizeTUint16_def
        le_unat_u64 split: if_splits)
qed

interpretation t32: exact_tlv_codec ETUint32 DTUint32 sizeTrunc "\<lambda>v. is_VUint32 v"
proof
  fix v w :: "'a tlv_value" and r bs rest :: bytes and l :: u64
  show "is_VUint32 v \<Longrightarrow> \<exists>bs. ETUint32 v = Inr bs \<and> length bs = unat (sizeTrunc v)"
    by (auto simp: trunc_defs is_defs tu32.enc_eq size_trunc)
  show "is_VUint32 v \<Longrightarrow> is_VUint32 w \<Longrightarrow> ETUint32 v = Inr bs \<Longrightarrow>
      DTUint32 (bs @ rest) w (sizeTrunc v) = Inr (v, rest)"
    by (auto simp: trunc_defs is_defs tu32.enc_eq size_trunc size_trunc_le tu32.dec_enc
        SizeTUint32_def [symmetric])
  show "is_VUint32 w \<Longrightarrow> DTUint32 r w l = Inr (v, rest) \<Longrightarrow>
      is_VUint32 v \<and> l = sizeTrunc v \<and> (\<exists>bs. ETUint32 v = Inr bs \<and> r = bs @ rest)"
    using tu32.dec_exact [of _ _ l]
    by (auto simp: trunc_defs is_defs res_simps ReadFull_Inr_iff Let_def SizeTUint32_def
        le_unat_u64 split: if_splits)
qed

interpretation t64: exact_tlv_codec ETUint64 DTUint64 sizeTrunc "\<lambda>v. is_VUint64 v"
proof
  fix v w :: "'a tlv_value" and r bs rest :: bytes and l :: u64
  show "is_VUint64 v \<Longrightarrow> \<exists>bs. ETUint64 v = Inr bs \<and> length bs = unat (sizeTrunc v)"
    by (auto simp: trunc_defs is_defs tu64.enc_eq size_trunc)
  show "is_VUint64 v \<Longrightarrow> is_VUint64 w \<Longrightarrow> ETUint64 v = Inr bs \<Longrightarrow>
      DTUint64 (bs @ rest) w (sizeTrunc v) = Inr (v, rest)"
    by (auto simp: trunc_defs is_defs tu64.enc_eq size_trunc size_trunc_le tu64.dec_enc
        SizeTUint64_def [symmetric])
  show "is_VUint64 w \<Longrightarrow> DTUint64 r w l = Inr (v, rest) \<Longrightarrow>
      is_VUint64 v \<and> l = sizeTrunc v \<and> (\<exists>bs. ETUint64 v = Inr bs \<and> r = bs @ rest)"
    using tu64.dec_exact [of _ _ l]
    by (auto simp: trunc_defs is_defs res_simps ReadFull_Inr_iff Let_def SizeTUint64_def
        le_unat_u64 split: if_splits)
qed

end
