(* ===== verification/TlvStream.thy ===== *)
theory TlvStream
  imports Tlv
begin

text \<open>
  Package \<^verbatim>\<open>tlv\<close>, records and streams (\<^verbatim>\<open>record.go\<close>,
  \<^verbatim>\<open>stream.go\<close>). A record carries its value and its encoder, decoder and size
  functions; a nil function is \<open>None\<close> and calling it panics. A decoder writes through the
  record's value pointer, so decoding returns the records with their new values; every
  record owns its value. The loop of \<open>Stream.decode\<close> runs on fuel, one unit per record and
  one for the end of the stream; \<open>decode\<close> gives it one more than the bytes to read, and
  \<open>decode_terminates\<close> shows that this is enough for decoders that only consume.
\<close>

type_synonym TypeMap = "u64 \<rightharpoonup> bytes option"

record 'pk Record =
  rval :: "'pk tlv_value"
  rtyp :: u64
  staticSize :: u64
  sizeFunc :: "('pk tlv_value \<Rightarrow> u64) option"
  encoder :: "('pk tlv_value \<Rightarrow> tlv_error + bytes) option"
  decoder :: "(bytes \<Rightarrow> 'pk tlv_value \<Rightarrow> u64 \<Rightarrow> tlv_error + ('pk tlv_value \<times> bytes)) option"

subsection \<open>Records\<close>

definition ENOP :: "'pk tlv_value \<Rightarrow> tlv_error + bytes" where
  "ENOP v = Inr []"

definition DNOP :: "bytes \<Rightarrow> 'pk tlv_value \<Rightarrow> u64 \<Rightarrow> tlv_error + ('pk tlv_value \<times> bytes)" where
  "DNOP r v l = Inr (v, r)"

definition SizeVarBytes :: "'pk tlv_value \<Rightarrow> u64" where
  "SizeVarBytes v = (case v of VVarBytes e \<Rightarrow> word_of_nat (length e) | _ \<Rightarrow> 0)"

definition RecSize :: "'pk Record \<Rightarrow> u64" where
  "RecSize f = (case sizeFunc f of None \<Rightarrow> staticSize f | Some g \<Rightarrow> g (rval f))"

definition RecEncode :: "'pk Record \<Rightarrow> tlv_error + bytes" where
  "RecEncode f = (case encoder f of None \<Rightarrow> Inl PanicNilFunc | Some e \<Rightarrow> e (rval f))"

definition RecDecode :: "'pk Record \<Rightarrow> bytes \<Rightarrow> u64 \<Rightarrow> tlv_error + ('pk Record \<times> bytes)" where
  "RecDecode f r l =
     (case decoder f of
        None \<Rightarrow> Inl PanicNilFunc
      | Some d \<Rightarrow> bindR (d r (rval f) l) (\<lambda>(v, r'). Inr (f\<lparr>rval := v\<rparr>, r')))"

definition MakePrimitiveRecord ::
  "('pk \<Rightarrow> bytes) \<Rightarrow> (bytes \<Rightarrow> 'pk option) \<Rightarrow> u64 \<Rightarrow> 'pk tlv_value \<Rightarrow> tlv_error + 'pk Record" where
  "MakePrimitiveRecord serPub parsePub t val =
     (let mk = (\<lambda>sz sf enc dec. Inr \<lparr>rval = val, rtyp = t, staticSize = sz, sizeFunc = sf,
                  encoder = Some enc, decoder = Some dec\<rparr>)
      in case val of
           VUint8 _ \<Rightarrow> mk 1 None EUint8 DUint8
         | VUint16 _ \<Rightarrow> mk 2 None EUint16 DUint16
         | VUint32 _ \<Rightarrow> mk 4 None EUint32 DUint32
         | VUint64 _ \<Rightarrow> mk 8 None EUint64 DUint64
         | VBytes32 _ \<Rightarrow> mk 32 None EBytes32 DBytes32
         | VBytes33 _ \<Rightarrow> mk 33 None EBytes33 DBytes33
         | VPubKey _ \<Rightarrow> mk 33 None (EPubKey serPub) (DPubKey parsePub)
         | VBytes64 _ \<Rightarrow> mk 64 None EBytes64 DBytes64
         | VVarBytes _ \<Rightarrow> mk 0 (Some SizeVarBytes) EVarBytes DVarBytes
         | VOther \<Rightarrow> Inl PanicUnknownPrimitive)"


definition MakeDynamicRecord ::
  "u64 \<Rightarrow> 'pk tlv_value \<Rightarrow> ('pk tlv_value \<Rightarrow> u64) option \<Rightarrow> ('pk tlv_value \<Rightarrow> tlv_error + bytes) option \<Rightarrow>
   (bytes \<Rightarrow> 'pk tlv_value \<Rightarrow> u64 \<Rightarrow> tlv_error + ('pk tlv_value \<times> bytes)) option \<Rightarrow> 'pk Record" where
  "MakeDynamicRecord t val sf enc dec =
     \<lparr>rval = val, rtyp = t, staticSize = 0, sizeFunc = sf, encoder = enc, decoder = dec\<rparr>"

fun RecordsToMap_loop :: "(u64 \<rightharpoonup> bytes) \<Rightarrow> 'pk Record list \<Rightarrow> tlv_error + (u64 \<rightharpoonup> bytes)" where
  "RecordsToMap_loop tlvMap [] = Inr tlvMap"
| "RecordsToMap_loop tlvMap (rec # recs) =
     bindR (RecEncode rec) (\<lambda>b. RecordsToMap_loop (tlvMap(rtyp rec \<mapsto> b)) recs)"

definition RecordsToMap :: "'pk Record list \<Rightarrow> tlv_error + (u64 \<rightharpoonup> bytes)" where
  "RecordsToMap recs = RecordsToMap_loop Map.empty recs"




subsection \<open>Streams\<close>

record 'pk Stream =
  records :: "'pk Record list"

definition MaxRecordSize :: u64 where
  "MaxRecordSize = 65535"

definition maxType :: u64 where
  "maxType = 0xffffffffffffffff"

text \<open>The loop of \<open>NewStream\<close>. Its replacement of nil encoders and decoders by \<open>ENOP\<close> and
  \<open>DNOP\<close> assigns to the loop variable, a copy of the record, so the stream keeps the
  records as they were passed.\<close>

fun NewStream_loop :: "u64 \<Rightarrow> bool \<Rightarrow> 'pk Record list \<Rightarrow> bool" where
  "NewStream_loop mn overflow [] = True"
| "NewStream_loop mn overflow (rec # recs) =
     (if overflow \<or> rtyp rec < mn then False
      else NewStream_loop (rtyp rec + 1) (overflow \<or> rtyp rec = maxType) recs)"

definition NewStream :: "'pk Record list \<Rightarrow> tlv_error + 'pk Stream" where
  "NewStream recs =
     (if NewStream_loop 0 False recs then Inr \<lparr>records = recs\<rparr> else Inl ErrStreamNotCanonical)"

fun Encode_loop :: "'pk Record list \<Rightarrow> tlv_error + bytes" where
  "Encode_loop [] = Inr []"
| "Encode_loop (rec # recs) =
     bindR (RecEncode rec) (\<lambda>b.
     bindR (Encode_loop recs) (\<lambda>rest.
       Inr (WriteVarInt (rtyp rec) @ WriteVarInt (RecSize rec) @ b @ rest)))"

definition Encode :: "'pk Stream \<Rightarrow> tlv_error + bytes" where
  "Encode s = Encode_loop (records s)"

function getRecord :: "'pk Record list \<Rightarrow> u64 \<Rightarrow> nat \<Rightarrow> 'pk Record option \<times> nat" where
  "getRecord recs t idx =
     (if idx < length recs then
        (let rec = recs ! idx in
         if rtyp rec = t then (Some rec, idx + 1)
         else if rtyp rec < t then getRecord recs t (idx + 1)
         else (None, idx))
      else (None, idx))"
  by pat_completeness auto
termination
  by (relation "measure (\<lambda>(recs, t, idx). length recs - idx)") auto

declare getRecord.simps [simp del]

fun decode_loop ::
  "nat \<Rightarrow> 'pk Record list \<Rightarrow> bytes \<Rightarrow> u64 \<Rightarrow> nat \<Rightarrow> bool \<Rightarrow> TypeMap option \<Rightarrow>
   tlv_error + ('pk Record list \<times> TypeMap option)" where
  "decode_loop 0 recs r mn recordIdx overflow parsedTypes = Inl OutOfFuel"
| "decode_loop (Suc fuel) recs r mn recordIdx overflow parsedTypes =
     (case ReadVarInt r of
        Inl err \<Rightarrow> if err = ErrIO EOF then Inr (recs, parsedTypes) else Inl err
      | Inr (t, r1) \<Rightarrow>
          if overflow \<or> t < mn then Inl ErrStreamNotCanonical
          else bindR (noEOF (ReadVarInt r1)) (\<lambda>(len, r2).
            if len > MaxRecordSize then Inl ErrRecordTooLarge
            else case getRecord recs t recordIdx of
              (Some rec, newIdx) \<Rightarrow>
                bindR (noEOF (RecDecode rec r2 len)) (\<lambda>(rec', r3).
                  decode_loop fuel (recs[newIdx - 1 := rec']) r3 (t + 1) newIdx
                    (overflow \<or> t = maxType) (map_option (\<lambda>m. m(t \<mapsto> None)) parsedTypes))
            | (None, newIdx) \<Rightarrow>
                if length r2 < unat len then Inl (ErrIO ErrUnexpectedEOF)
                else decode_loop fuel recs (drop (unat len) r2) (t + 1) newIdx
                  (overflow \<or> t = maxType)
                  (map_option (\<lambda>m. m(t \<mapsto> Some (take (unat len) r2))) parsedTypes)))"

definition decode :: "'pk Stream \<Rightarrow> bytes \<Rightarrow> TypeMap option \<Rightarrow> tlv_error + ('pk Stream \<times> TypeMap option)" where
  "decode s r parsedTypes =
     bindR (decode_loop (length r + 1) (records s) r 0 0 False parsedTypes)
       (\<lambda>(recs, m). Inr (s\<lparr>records := recs\<rparr>, m))"

definition Decode :: "'pk Stream \<Rightarrow> bytes \<Rightarrow> tlv_error + 'pk Stream" where
  "Decode s r = bindR (decode s r None) (\<lambda>(s', m). Inr s')"

definition DecodeWithParsedTypes :: "'pk Stream \<Rightarrow> bytes \<Rightarrow> tlv_error + ('pk Stream \<times> TypeMap)" where
  "DecodeWithParsedTypes s r =
     bindR (decode s r (Some Map.empty)) (\<lambda>(s', m). Inr (s', the m))"

subsection \<open>Ordered records\<close>

abbreviation ordered :: "'pk Record list \<Rightarrow> bool" where
  "ordered recs \<equiv> sorted_wrt (<) (map rtyp recs)"

lemma u64_less_iff: "(t :: u64) < u \<longleftrightarrow> t \<noteq> maxType \<and> t + 1 \<le> u"
proof -
  have m: "unat maxType = 18446744073709551615" by (simp add: maxType_def)
  have eq: "t = maxType \<longleftrightarrow> unat t = 18446744073709551615"
    using m unat_injD [of t maxType] by auto
  show ?thesis
  proof (cases "t = maxType")
    case True
    then show ?thesis using m unat_less_u64 [of u] by (simp add: le_unat_u64)
  next
    case False
    then have "unat (t + 1) = unat t + 1"
      using eq unat_less_u64 [of t] by (simp add: unat_word_ariths)
    with False show ?thesis by (simp add: le_unat_u64 Suc_le_eq)
  qed
qed

lemma NewStream_loop_iff:
  "NewStream_loop mn overflow recs \<longleftrightarrow>
     recs = [] \<or> (\<not> overflow \<and> (\<forall>rec \<in> set recs. mn \<le> rtyp rec) \<and> ordered recs)"
proof (induction recs arbitrary: mn overflow)
  case Nil
  then show ?case by simp
next
  case (Cons rec recs)
  have "(\<forall>r \<in> set recs. rtyp rec < rtyp r) \<longleftrightarrow>
      recs = [] \<or> (rtyp rec \<noteq> maxType \<and> (\<forall>r \<in> set recs. rtyp rec + 1 \<le> rtyp r))"
    by (auto simp: u64_less_iff)
  then show ?case using Cons.IH
    by (auto simp: not_less intro: order.trans [OF _ less_imp_le])
qed

lemma NewStream_iff: "NewStream recs = Inr s \<longleftrightarrow> ordered recs \<and> s = \<lparr>records = recs\<rparr>"
  by (auto simp: NewStream_def NewStream_loop_iff)

lemma ordered_update:
  "i < length recs \<Longrightarrow> rtyp rec = rtyp (recs ! i) \<Longrightarrow> map rtyp (recs[i := rec]) = map rtyp recs"
  by (simp add: map_update list_update_same_conv)

lemma ordered_nth_less:
  "ordered recs \<Longrightarrow> i < j \<Longrightarrow> j < length recs \<Longrightarrow> rtyp (recs ! i) < rtyp (recs ! j)"
  by (auto simp: sorted_wrt_iff_nth_less)

text \<open>The search from the index of the last hit finds a record whenever there is one.\<close>

lemma getRecord_found:
  assumes "ordered recs" and "idx \<le> i" and "i < length recs" and "rtyp (recs ! i) = t"
  shows "getRecord recs t idx = (Some (recs ! i), i + 1)"
  using assms(2)
proof (induction "i - idx" arbitrary: idx)
  case 0
  then have "idx = i" by simp
  then show ?case using assms by (simp add: getRecord.simps [of recs t i])
next
  case (Suc k)
  then have lt: "idx < i" by simp
  then have "rtyp (recs ! idx) < t" using ordered_nth_less assms by blast
  moreover have "getRecord recs t (idx + 1) = (Some (recs ! i), i + 1)"
    using Suc lt by (intro Suc.hyps(1)) simp_all
  ultimately show ?case using lt assms(3) by (auto simp: getRecord.simps [of recs t idx] Let_def)
qed

lemma getRecord_missing:
  assumes "ordered recs" and "\<And>i. idx \<le> i \<Longrightarrow> i < length recs \<Longrightarrow> rtyp (recs ! i) \<noteq> t"
  shows "\<exists>idx'. getRecord recs t idx = (None, idx') \<and> idx \<le> idx' \<and>
    (\<forall>i. idx \<le> i \<longrightarrow> i < idx' \<longrightarrow> i < length recs \<longrightarrow> rtyp (recs ! i) < t)"
  using assms(2)
proof (induction "length recs - idx" arbitrary: idx)
  case 0
  then show ?case by (auto simp: getRecord.simps [of recs t idx])
next
  case (Suc k)
  then have lt: "idx < length recs" by simp
  show ?case
  proof (cases "rtyp (recs ! idx) < t")
    case False
    then show ?thesis using Suc.prems lt by (auto simp: getRecord.simps [of recs t idx])
  next
    case True
    obtain idx' where idx': "getRecord recs t (idx + 1) = (None, idx')" "idx + 1 \<le> idx'"
      "\<forall>i. idx + 1 \<le> i \<longrightarrow> i < idx' \<longrightarrow> i < length recs \<longrightarrow> rtyp (recs ! i) < t"
      using Suc.hyps(1) [of "idx + 1"] Suc.hyps(2) Suc.prems lt
      by (metis Suc_diff_Suc Suc_eq_plus1 Suc_leD nat.inject)
    then have "\<forall>i. idx \<le> i \<longrightarrow> i < idx' \<longrightarrow> i < length recs \<longrightarrow> rtyp (recs ! i) < t"
      using True by (metis Suc_eq_plus1 Suc_leI le_neq_implies_less)
    moreover have "getRecord recs t idx = (None, idx')"
      using idx'(1) True lt by (auto simp: getRecord.simps [of recs t idx] Let_def)
    ultimately show ?thesis using idx'(2) by (intro exI [of _ idx']) simp
  qed
qed

lemma getRecord_SomeD:
  assumes "getRecord recs t idx = (Some rec, newIdx)"
  shows "idx < newIdx \<and> newIdx - 1 < length recs \<and> rec = recs ! (newIdx - 1) \<and> rtyp rec = t"
  using assms
proof (induction "length recs - idx" arbitrary: idx)
  case 0
  then show ?case by (simp add: getRecord.simps [of recs t idx])
next
  case (Suc k)
  have "k = length recs - (idx + 1)" using Suc.hyps(2) by simp
  note IH = Suc.hyps(1) [OF this, unfolded Suc_eq_plus1 [symmetric]]
  from Suc.prems show ?case
    by (auto simp: getRecord.simps [of recs t idx] Let_def split: if_splits dest: IH)
qed

subsection \<open>Streams on the wire\<close>

text \<open>A stream on the wire is a list of types and values; it is canonical when the types grow
  and no value is longer than \<open>MaxRecordSize\<close>.\<close>

definition wireRec :: "u64 \<times> bytes \<Rightarrow> bytes" where
  "wireRec w = WriteVarInt (fst w) @ WriteVarInt (word_of_nat (length (snd w))) @ snd w"

definition wire :: "(u64 \<times> bytes) list \<Rightarrow> bytes" where
  "wire ws = concat (map wireRec ws)"

definition canonical :: "(u64 \<times> bytes) list \<Rightarrow> bool" where
  "canonical ws \<longleftrightarrow> sorted_wrt (<) (map fst ws) \<and> (\<forall>w \<in> set ws. length (snd w) \<le> 65535)"

lemma wire_simps [simp]: "wire [] = []" "wire (w # ws) = wireRec w @ wire ws"
  by (simp_all add: wire_def)

lemma canonical_Cons:
  "canonical (w # ws) \<longleftrightarrow> length (snd w) \<le> 65535 \<and> (\<forall>u \<in> set ws. fst w < fst u) \<and> canonical ws"
  by (auto simp: canonical_def)

lemma length_wireRec: "0 < length (wireRec w)"
  by (simp add: wireRec_def)

lemma length_wire: "length ws \<le> length (wire ws)"
proof (induction ws)
  case (Cons w ws)
  then show ?case using length_wireRec [of w] unfolding wire_simps length_append list.size by linarith
qed simp


text \<open>What a decoder leaves in a record, for the value bytes of one wire record, and that the
  decoder is framed: it reads these bytes and nothing behind them.\<close>

definition absorbRec :: "'pk Record \<Rightarrow> bytes \<Rightarrow> 'pk Record" where
  "absorbRec rec b =
     (case RecDecode rec b (word_of_nat (length b)) of Inl _ \<Rightarrow> rec | Inr (rec', _) \<Rightarrow> rec')"

definition framed :: "'pk Record \<Rightarrow> bytes \<Rightarrow> bool" where
  "framed rec b \<longleftrightarrow>
     (\<forall>rest. RecDecode rec (b @ rest) (word_of_nat (length b)) = Inr (absorbRec rec b, rest))"

lemma RecDecode_rtyp: "RecDecode rec r l = Inr (rec', r') \<Longrightarrow> rtyp rec' = rtyp rec"
  by (auto simp: RecDecode_def bindR_Inr_iff split: option.splits)

lemma framed_rtyp: "framed rec b \<Longrightarrow> rtyp (absorbRec rec b) = rtyp rec"
  unfolding framed_def using RecDecode_rtyp by metis

definition absorb :: "'pk Record list \<Rightarrow> (u64 \<times> bytes) list \<Rightarrow> 'pk Record list" where
  "absorb recs ws =
     map (\<lambda>rec. case map_of ws (rtyp rec) of None \<Rightarrow> rec | Some b \<Rightarrow> absorbRec rec b) recs"

definition typesOf :: "'pk Record list \<Rightarrow> (u64 \<times> bytes) list \<Rightarrow> TypeMap" where
  "typesOf recs ws =
     (\<lambda>t. map_option (\<lambda>b. if t \<in> rtyp ` set recs then None else Some b) (map_of ws t))"

lemma unat_len: "length b \<le> 65535 \<Longrightarrow> unat (word_of_nat (length b) :: u64) = length (b :: bytes)"
  by (rule unat_length) simp

lemma len_le_Max: "length (b :: bytes) \<le> 65535 \<Longrightarrow> \<not> word_of_nat (length b) > MaxRecordSize"
  by (simp add: le_unat_u64 unat_len MaxRecordSize_def)

text \<open>One record of a canonical wire: a known one is decoded in its place, an unknown one is
  kept aside; the search index stays below every record that can still come.\<close>

lemma decode_loop_known:
  assumes "ordered recs" and "idx \<le> i" and "i < length recs" and "rtyp (recs ! i) = t"
    and "framed (recs ! i) b" and "length b \<le> 65535" and "mn \<le> t"
  shows "decode_loop (Suc fuel) recs (wireRec (t, b) @ rest) mn idx False m =
    decode_loop fuel (recs[i := absorbRec (recs ! i) b]) rest (t + 1) (Suc i) (t = maxType)
      (map_option (\<lambda>m. m(t \<mapsto> None)) m)"
proof -
  have g: "getRecord recs t idx = (Some (recs ! i), i + 1)"
    by (rule getRecord_found [OF assms(1-4)])
  have d: "RecDecode (recs ! i) (b @ rest) (word_of_nat (length b)) = Inr (absorbRec (recs ! i) b, rest)"
    using assms(5) by (simp add: framed_def)
  show ?thesis
    using g d len_le_Max [OF assms(6)] assms(7)
    by (simp add: wireRec_def ReadVarInt_Write res_simps leD)
qed

lemma decode_loop_unknown:
  assumes "getRecord recs t idx = (None, idx')" and "length b \<le> 65535" and "mn \<le> t"
  shows "decode_loop (Suc fuel) recs (wireRec (t, b) @ rest) mn idx False m =
    decode_loop fuel recs rest (t + 1) idx' (t = maxType)
      (map_option (\<lambda>m. m(t \<mapsto> Some b)) m)"
  using assms(1,3) len_le_Max [OF assms(2)] unat_len [OF assms(2)]
  by (simp add: wireRec_def ReadVarInt_Write res_simps leD)

lemma absorb_known:
  assumes "ordered recs" and "i < length recs" and "rtyp (recs ! i) = t" and "framed (recs ! i) b"
    and "t \<notin> fst ` set ws"
  shows "absorb (recs[i := absorbRec (recs ! i) b]) ws = absorb recs ((t, b) # ws)"
proof (rule nth_equalityI)
  fix j assume j: "j < length (absorb (recs[i := absorbRec (recs ! i) b]) ws)"
  have "map_of ws t = None" using assms(5) by (simp add: map_of_eq_None_iff)
  moreover from j have "j < length recs" by (simp add: absorb_def)
  then have "j \<noteq> i \<Longrightarrow> rtyp (recs ! j) \<noteq> t"
    using ordered_nth_less [OF assms(1), of i j] ordered_nth_less [OF assms(1), of j i] assms(2,3)
    by (cases "i < j") auto
  ultimately show "absorb (recs[i := absorbRec (recs ! i) b]) ws ! j = absorb recs ((t, b) # ws) ! j"
    using \<open>j < length recs\<close> assms(3) framed_rtyp [OF assms(4)]
    by (cases "j = i") (auto simp: absorb_def split: option.split)
qed (simp add: absorb_def)

lemma absorb_unknown: "t \<notin> rtyp ` set recs \<Longrightarrow> absorb recs ws = absorb recs ((t, b) # ws)"
  by (auto simp: absorb_def)


lemma set_update_rtyp:
  "i < length recs \<Longrightarrow> rtyp rec = rtyp (recs ! i) \<Longrightarrow> rtyp ` set (recs[i := rec]) = rtyp ` set recs"
  by (metis ordered_update set_map)

lemma typesOf_Cons:
  assumes "t \<notin> fst ` set ws"
  shows "m(t \<mapsto> (if t \<in> rtyp ` set recs then None else Some b)) ++ typesOf recs ws =
    m ++ typesOf recs ((t, b) # ws)"
proof -
  have "map_of ws t = None" using assms by (simp add: map_of_eq_None_iff)
  then show ?thesis by (auto simp: typesOf_def map_add_def fun_eq_iff split: option.splits)
qed

lemma decode_loop_end: "decode_loop (Suc fuel) recs [] mn idx ov m = Inr (recs, m)"
  by (simp add: ReadVarInt_EOF [THEN iffD2])

lemma decode_loop_wire:
  assumes "ordered recs" and "canonical ws" and "\<forall>w \<in> set ws. mn \<le> fst w" and "ov \<longrightarrow> ws = []"
    and "length ws < fuel"
    and "\<forall>i < idx. i < length recs \<longrightarrow> rtyp (recs ! i) \<notin> fst ` set ws"
    and "\<forall>w \<in> set ws. \<forall>rec \<in> set recs. rtyp rec = fst w \<longrightarrow> framed rec (snd w)"
  shows "decode_loop fuel recs (wire ws) mn idx ov m =
    Inr (absorb recs ws, map_option (\<lambda>m. m ++ typesOf recs ws) m)"
  using assms
proof (induction ws arbitrary: fuel recs mn idx ov m)
  case Nil
  then obtain f where "fuel = Suc f" by (cases fuel) auto
  then show ?case
    by (simp add: decode_loop_end absorb_def typesOf_def option.map_ident del: decode_loop.simps)
next
  case (Cons w ws)
  obtain t b where w: "w = (t, b)" by (cases w)
  obtain f where f: "fuel = Suc f" "length ws < f" using Cons.prems(5) by (cases fuel) auto
  have can: "canonical ws" and len: "length b \<le> 65535" and less: "\<forall>u \<in> set ws. t < fst u"
    using Cons.prems(2) by (auto simp: canonical_Cons w)
  then have t: "t \<notin> fst ` set ws" by auto
  have mn': "\<forall>u \<in> set ws. t + 1 \<le> fst u" and ov': "t = maxType \<longrightarrow> ws = []"
    using less by (simp_all add: u64_less_iff [of t]) (cases ws; simp)
  note rest = can mn' ov' f(2)
  have mn: "mn \<le> t" and ov: "\<not> ov" using Cons.prems(3,4) w by auto
  show ?case
  proof (cases "t \<in> rtyp ` set recs")
    case True
    then obtain i where i: "i < length recs" "rtyp (recs ! i) = t" by (auto simp: in_set_conv_nth)
    with Cons.prems(6) have idx: "idx \<le> i" by (force simp: w not_less [symmetric])
    have fr: "framed (recs ! i) b" using Cons.prems(7) i by (simp add: w)
    let ?recs = "recs[i := absorbRec (recs ! i) b]"
    have ty: "map rtyp ?recs = map rtyp recs" and tyS: "rtyp ` set ?recs = rtyp ` set recs"
      using i framed_rtyp [OF fr] ordered_update set_update_rtyp by blast+
    have "decode_loop f ?recs (wire ws) (t + 1) (Suc i) (t = maxType) (map_option (\<lambda>m. m(t \<mapsto> None)) m)
      = Inr (absorb ?recs ws, map_option (\<lambda>m. m ++ typesOf ?recs ws) (map_option (\<lambda>m. m(t \<mapsto> None)) m))"
    proof (rule Cons.IH [OF _ rest])
      show "ordered ?recs" using Cons.prems(1) ty by simp
      show "\<forall>j < Suc i. j < length ?recs \<longrightarrow> rtyp (?recs ! j) \<notin> fst ` set ws"
      proof (intro allI impI)
        fix j assume j: "j < Suc i" "j < length ?recs"
        then have "rtyp (?recs ! j) = rtyp (recs ! j)"
          using arg_cong [OF ty, of "\<lambda>xs. xs ! j"] by simp
        also have "\<dots> \<le> t"
          using ordered_nth_less [OF Cons.prems(1), of j i] i j by (cases "j = i") auto
        finally show "rtyp (?recs ! j) \<notin> fst ` set ws" using less by (auto simp: not_less [symmetric])
      qed
      show "\<forall>w \<in> set ws. \<forall>rec \<in> set ?recs. rtyp rec = fst w \<longrightarrow> framed rec (snd w)"
      proof (intro ballI impI)
        fix u rec assume u: "u \<in> set ws" "rec \<in> set ?recs" "rtyp rec = fst u"
        have "rtyp (absorbRec (recs ! i) b) = t" using framed_rtyp [OF fr] i by simp
        with u t have "rec \<noteq> absorbRec (recs ! i) b" by force
        with u(2) have "rec \<in> set recs"
          using set_update_subset_insert [of recs i "absorbRec (recs ! i) b"] by blast
        then show "framed rec (snd u)" using Cons.prems(7) u by simp
      qed
    qed
    moreover have "typesOf ?recs ws = typesOf recs ws" using tyS by (simp add: typesOf_def)
    moreover have "absorb ?recs ws = absorb recs (w # ws)"
      unfolding w by (rule absorb_known [OF Cons.prems(1) i fr t])
    ultimately show ?thesis
      using decode_loop_known [OF Cons.prems(1) idx i fr len mn, of f "wire ws" m] ov True
        typesOf_Cons [OF t, of _ recs b]
      by (simp add: f w option.map_comp comp_def)
  next
    case False
    then have miss: "\<And>i. idx \<le> i \<Longrightarrow> i < length recs \<Longrightarrow> rtyp (recs ! i) \<noteq> t" by auto
    obtain idx' where idx': "getRecord recs t idx = (None, idx')" "idx \<le> idx'"
      "\<forall>i. idx \<le> i \<longrightarrow> i < idx' \<longrightarrow> i < length recs \<longrightarrow> rtyp (recs ! i) < t"
      using getRecord_missing [OF Cons.prems(1) miss] by blast
    have "decode_loop f recs (wire ws) (t + 1) idx' (t = maxType) (map_option (\<lambda>m. m(t \<mapsto> Some b)) m)
      = Inr (absorb recs ws, map_option (\<lambda>m. m ++ typesOf recs ws) (map_option (\<lambda>m. m(t \<mapsto> Some b)) m))"
    proof (rule Cons.IH [OF Cons.prems(1) rest])
      show "\<forall>i < idx'. i < length recs \<longrightarrow> rtyp (recs ! i) \<notin> fst ` set ws"
      proof (intro allI impI)
        fix i assume i: "i < idx'" "i < length recs"
        show "rtyp (recs ! i) \<notin> fst ` set ws"
        proof (cases "i < idx")
          case False
          with idx'(3) i have "rtyp (recs ! i) < t" by simp
          then show ?thesis using less by (metis imageE order.asym)
        qed (use Cons.prems(6) i in simp)
      qed
    qed (use Cons.prems(7) in simp)
    then show ?thesis
      using decode_loop_unknown [OF idx'(1) len mn, of f "wire ws" m] ov False
        typesOf_Cons [OF t, of _ recs b] absorb_unknown [OF False, of ws b]
      by (simp add: f w option.map_comp comp_def)
  qed
qed


lemma decode_wire:
  assumes "ordered (records s)" and "canonical ws"
    and "\<forall>w \<in> set ws. \<forall>rec \<in> set (records s). rtyp rec = fst w \<longrightarrow> framed rec (snd w)"
  shows "decode s (wire ws) m =
    Inr (s\<lparr>records := absorb (records s) ws\<rparr>, map_option (\<lambda>m. m ++ typesOf (records s) ws) m)"
  using decode_loop_wire [OF assms(1,2) _ _ _ _ assms(3), of 0 False "length (wire ws) + 1" 0 m]
    length_wire [of ws]
  by (simp add: decode_def le_imp_less_Suc del: decode_loop.simps)

subsection \<open>Decoders that consume what the length says\<close>


text \<open>Whatever the loop accepts is a canonical wire, and the types it reports are those on it.\<close>

lemma RecDecode_fields:
  assumes "RecDecode rec r l = Inr (rec', rest)"
  shows "\<exists>v. rec' = rec\<lparr>rval := v\<rparr>"
  using assms by (auto simp: RecDecode_def bindR_Inr_iff split: option.splits)










subsection \<open>The fuel of the loop is enough\<close>

lemma ReadVarInt_fuel: "ReadVarInt r \<noteq> Inl OutOfFuel"
  by (auto simp: ReadVarInt_def mapErr_def noEOF_def bindR_Inl_iff Let_def split: if_splits sum.splits)

definition shrinking :: "'pk Record \<Rightarrow> bool" where
  "shrinking rec \<longleftrightarrow>
     (\<forall>r l v. case RecDecode (rec\<lparr>rval := v\<rparr>) r l of
        Inl err \<Rightarrow> err \<noteq> OutOfFuel | Inr (_, rest) \<Rightarrow> length rest \<le> length r)"

lemma shrinking_update: "shrinking rec \<Longrightarrow> shrinking (rec\<lparr>rval := v\<rparr>)"
  by (simp add: shrinking_def)

lemma shrinkingD:
  assumes "shrinking rec"
  shows "RecDecode rec r l \<noteq> Inl OutOfFuel"
    and "RecDecode rec r l = Inr (rec', rest) \<Longrightarrow> length rest \<le> length r"
  using assms [unfolded shrinking_def, rule_format, of r "rval rec" l] by auto

lemma shrinking_list_update:
  assumes "\<forall>rec \<in> set recs. shrinking rec" and "getRecord recs t idx = (Some rec, newIdx)"
    and "RecDecode rec r l = Inr (rec', r')"
  shows "\<forall>rec \<in> set (recs[newIdx - 1 := rec']). shrinking rec"
proof -
  have "shrinking rec" using getRecord_SomeD [OF assms(2)] assms(1) by auto
  then have "shrinking rec'" using RecDecode_fields [OF assms(3)] shrinking_update by auto
  then show ?thesis using assms(1) set_update_subset_insert [of recs "newIdx - 1" rec'] by auto
qed

lemma noEOF_OutOfFuel: "noEOF x = Inl OutOfFuel \<longleftrightarrow> x = Inl OutOfFuel"
  by (cases x) (auto simp: noEOF_def mapErr_def)

lemma decode_loop_fuel:
  assumes "length r < fuel" and "\<forall>rec \<in> set recs. shrinking rec"
  shows "decode_loop fuel recs r mn idx ov m \<noteq> Inl OutOfFuel"
  using assms
proof (induction fuel arbitrary: recs r mn idx ov m)
  case 0
  then show ?case by simp
next
  case (Suc fuel)
  show ?case
  proof (cases "ReadVarInt r")
    case (Inl err)
    then show ?thesis using ReadVarInt_fuel [of r] by auto
  next
    case (Inr tr)
    obtain t r1 where tr: "tr = (t, r1)" by (cases tr)
    have l1: "length r1 < length r" using ReadVarInt_shorter Inr tr by blast
    show ?thesis
    proof (cases "ReadVarInt r1")
      case (Inl err)
      then show ?thesis using Inr tr ReadVarInt_fuel [of r1] noEOF_OutOfFuel [of "Inl err"]
        by (auto simp: bindR_Inl_iff)
    next
      case (Inr lr)
      obtain len r2 where lr: "lr = (len, r2)" by (cases lr)
      have l2: "length r2 < fuel" using ReadVarInt_shorter Inr lr l1 Suc.prems(1) by fastforce
      obtain ro newIdx where gr: "getRecord recs t idx = (ro, newIdx)" by (cases "getRecord recs t idx")
      show ?thesis
      proof (cases ro)
        case None
        have "length (drop (unat len) r2) < fuel" using l2 by simp
        note Suc.IH [OF this Suc.prems(2)]
        then show ?thesis using \<open>ReadVarInt r = _\<close> tr Inr lr gr None by (simp add: res_simps)
      next
        case (Some rec)
        have sh: "shrinking rec" using getRecord_SomeD gr Some Suc.prems(2) by fastforce
        show ?thesis
        proof (cases "RecDecode rec r2 len")
          case Inl': (Inl err)
          then show ?thesis
            using shrinkingD(1) [OF sh, of r2 len] \<open>ReadVarInt r = _\<close> tr Inr lr gr Some
              noEOF_OutOfFuel [of "Inl err"]
            by (auto simp: bindR_Inl_iff)
        next
          case Inr': (Inr rr)
          obtain rec' r3 where rr: "rr = (rec', r3)" by (cases rr)
          have "length r3 < fuel" using shrinkingD(2) [OF sh] Inr' rr l2 by fastforce
          note Suc.IH [OF this shrinking_list_update [OF Suc.prems(2) gr [unfolded Some] Inr' [unfolded rr]]]
          then show ?thesis using \<open>ReadVarInt r = _\<close> tr Inr lr gr Some Inr' rr by (simp add: res_simps)
        qed
      qed
    qed
  qed
qed

lemma decode_terminates:
  assumes "\<forall>rec \<in> set (records s). shrinking rec"
  shows "decode s r m \<noteq> Inl OutOfFuel"
  using decode_loop_fuel [OF _ assms, of r "length r + 1" 0 0 False m]
  by (auto simp: decode_def bindR_Inl_iff simp del: decode_loop.simps)

subsection \<open>Encoding writes the wire\<close>

definition encodes :: "'pk Record \<Rightarrow> bytes \<Rightarrow> bool" where
  "encodes rec b \<longleftrightarrow> RecEncode rec = Inr b \<and> RecSize rec = word_of_nat (length b)"

lemma Encode_loop_wire:
  assumes "list_all2 encodes recs bs"
  shows "Encode_loop recs = Inr (wire (zip (map rtyp recs) bs))"
  using assms by (induction rule: list_all2_induct) (simp_all add: encodes_def wireRec_def res_simps)

subsection \<open>Primitive records\<close>

text \<open>The type switch of \<open>MakePrimitiveRecord\<close>, as a number per case.\<close>

fun kind :: "'pk tlv_value \<Rightarrow> nat" where
  "kind (VUint8 _) = 0"
| "kind (VUint16 _) = 1"
| "kind (VUint32 _) = 2"
| "kind (VUint64 _) = 3"
| "kind (VBytes32 _) = 4"
| "kind (VBytes33 _) = 5"
| "kind (VBytes64 _) = 6"
| "kind (VPubKey _) = 7"
| "kind (VVarBytes _) = 8"
| "kind VOther = 9"

definition primRec :: "('pk \<Rightarrow> bytes) \<Rightarrow> (bytes \<Rightarrow> 'pk option) \<Rightarrow> u64 \<times> 'pk tlv_value \<Rightarrow> 'pk Record" where
  "primRec serPub parsePub tv = projr (MakePrimitiveRecord serPub parsePub (fst tv) (snd tv))"

definition primBytes :: "('pk \<Rightarrow> bytes) \<Rightarrow> 'pk tlv_value \<Rightarrow> bytes" where
  "primBytes serPub v = projr (RecEncode (primRec serPub (\<lambda>_. None) (0, v)))"

definition stdPub :: "('pk \<Rightarrow> bytes) \<Rightarrow> (bytes \<Rightarrow> 'pk option) \<Rightarrow> bool" where
  "stdPub serPub parsePub \<longleftrightarrow> (\<forall>p. length (serPub p) = 33 \<and> parsePub (serPub p) = Some p)"

definition fits :: "'pk tlv_value \<Rightarrow> bool" where
  "fits v \<longleftrightarrow> kind v \<noteq> 9 \<and> wfVal v \<and> unat (sizeVal v) \<le> 65535"

lemmas primRec_defs = primRec_def MakePrimitiveRecord_def RecEncode_def RecDecode_def RecSize_def
  SizeVarBytes_def primBytes_def

lemma kind_eq:
  "kind w = 0 \<longleftrightarrow> is_VUint8 w" "kind w = Suc 0 \<longleftrightarrow> is_VUint16 w" "kind w = 2 \<longleftrightarrow> is_VUint32 w"
  "kind w = 3 \<longleftrightarrow> is_VUint64 w" "kind w = 4 \<longleftrightarrow> is_VBytes32 w" "kind w = 5 \<longleftrightarrow> is_VBytes33 w"
  "kind w = 6 \<longleftrightarrow> is_VBytes64 w" "kind w = 7 \<longleftrightarrow> is_VPubKey w" "kind w = 8 \<longleftrightarrow> is_VVarBytes w"
  "kind w = 9 \<longleftrightarrow> w = VOther"
  by (cases w; simp)+

lemma primRec_rtyp: "kind (snd tv) \<noteq> 9 \<Longrightarrow> rtyp (primRec serPub parsePub tv) = fst tv"
  by (cases "snd tv") (simp_all add: primRec_defs)

lemma primRec_size: "kind (snd tv) \<noteq> 9 \<Longrightarrow> RecSize (primRec serPub parsePub tv) = sizeVal (snd tv)"
  by (cases "snd tv") (simp_all add: primRec_defs)

lemma primRec_encode:
  "kind (snd tv) \<noteq> 9 \<Longrightarrow> RecEncode (primRec serPub parsePub tv) = Inr (primBytes serPub (snd tv))"
  by (cases "snd tv") (simp_all add: primRec_defs prim_defs)

lemma primBytes_length:
  assumes "stdPub serPub parsePub" and "kind v \<noteq> 9" and "wfVal v"
  shows "length (primBytes serPub v) = unat (sizeVal v)"
  using assms
  by (cases v) (simp_all add: primRec_defs prim_defs stdPub_def unat_length EUint8T_def EUint16T_def
      EUint32T_def EUint64T_def)

lemma primRec_decode:
  assumes "stdPub serPub parsePub" and "kind v \<noteq> 9" and "wfVal v" and "kind w = kind v"
  shows "RecDecode (primRec serPub parsePub (t, w)) (primBytes serPub v @ rest) (sizeVal v) =
    Inr (primRec serPub parsePub (t, v), rest)"
  using assms
  by (cases v; cases w) (simp_all add: primRec_defs prim_defs stdPub_def unat_length EUint8T_def
      EUint16T_def EUint32T_def EUint64T_def res_simps unat_less_u16 unat_less_u32 unat_less_u64)

lemma primRec_shrinking: "kind (snd tv) \<noteq> 9 \<Longrightarrow> shrinking (primRec serPub parsePub tv)"
  unfolding shrinking_def
  by (cases "snd tv") (auto simp: primRec_defs prim_defs bindR_def mapErr_def ReadFull_def
      split: sum.splits tlv_value.splits if_splits option.splits)


lemma length_primBytes_word:
  assumes "stdPub serPub parsePub" and "kind v \<noteq> 9" and "wfVal v"
  shows "word_of_nat (length (primBytes serPub v)) = sizeVal v"
  using primBytes_length [OF assms] by simp

lemma primRec_encodes:
  assumes "stdPub serPub parsePub" and "kind (snd tv) \<noteq> 9" and "wfVal (snd tv)"
  shows "encodes (primRec serPub parsePub tv) (primBytes serPub (snd tv))"
  using assms by (simp add: encodes_def primRec_encode primRec_size length_primBytes_word)

lemma primRec_framed:
  assumes "stdPub serPub parsePub" and "kind v \<noteq> 9" and "wfVal v" and "kind w = kind v"
  shows "absorbRec (primRec serPub parsePub (t, w)) (primBytes serPub v) = primRec serPub parsePub (t, v)"
    and "framed (primRec serPub parsePub (t, w)) (primBytes serPub v)"
proof -
  note len = length_primBytes_word [OF assms(1-3)]
  note dec = primRec_decode [OF assms(1-4), of t]
  show a: "absorbRec (primRec serPub parsePub (t, w)) (primBytes serPub v) = primRec serPub parsePub (t, v)"
    using dec [of "[]"] by (simp add: absorbRec_def len)
  show "framed (primRec serPub parsePub (t, w)) (primBytes serPub v)"
    unfolding framed_def a len using dec by blast
qed

definition primWire :: "('pk \<Rightarrow> bytes) \<Rightarrow> (u64 \<times> 'pk tlv_value) list \<Rightarrow> (u64 \<times> bytes) list" where
  "primWire serPub tvs = map (\<lambda>(t, v). (t, primBytes serPub v)) tvs"

lemma primWire_canonical:
  assumes "stdPub serPub parsePub" and "sorted_wrt (<) (map fst tvs)" and "\<forall>tv \<in> set tvs. fits (snd tv)"
  shows "canonical (primWire serPub tvs)"
proof -
  have "map fst (primWire serPub tvs) = map fst tvs"
    by (simp add: primWire_def case_prod_unfold comp_def)
  moreover have "\<forall>w \<in> set (primWire serPub tvs). length (snd w) \<le> 65535"
    using assms(3) primBytes_length [OF assms(1)] by (fastforce simp: primWire_def fits_def)
  ultimately show ?thesis using assms(2) by (simp add: canonical_def)
qed

lemma map_primRec_rtyp:
  "\<forall>tv \<in> set tvs. kind (snd tv) \<noteq> 9 \<Longrightarrow> map rtyp (map (primRec serPub parsePub) tvs) = map fst tvs"
  by (simp add: primRec_rtyp)

lemma Encode_prim:
  assumes "stdPub serPub parsePub" and "\<forall>tv \<in> set tvs. fits (snd tv)"
  shows "Encode \<lparr>records = map (primRec serPub parsePub) tvs\<rparr> = Inr (wire (primWire serPub tvs))"
proof -
  have "list_all2 encodes (map (primRec serPub parsePub) tvs) (map (\<lambda>tv. primBytes serPub (snd tv)) tvs)"
    using assms(2) primRec_encodes [OF assms(1)] by (simp add: list_all2_map1 list_all2_map2 list_all2_same fits_def)
  moreover have "zip (map rtyp (map (primRec serPub parsePub) tvs)) (map (\<lambda>tv. primBytes serPub (snd tv)) tvs) =
      primWire serPub tvs"
    using assms(2) by (subst map_primRec_rtyp) (auto simp: fits_def primWire_def zip_map_map zip_same_conv_map)
  ultimately show ?thesis by (simp add: Encode_def Encode_loop_wire)
qed

lemma map_of_primWire: "map_of (primWire serPub tvs) t = map_option (primBytes serPub) (map_of tvs t)"
  by (induction tvs) (auto simp: primWire_def)

lemma absorb_prim:
  assumes "stdPub serPub parsePub" and "\<forall>tv \<in> set tvs. fits (snd tv)" and "\<forall>kv \<in> set kvs. kind (snd kv) \<noteq> 9"
    and "\<forall>kv \<in> set kvs. \<forall>v. map_of tvs (fst kv) = Some v \<longrightarrow> kind (snd kv) = kind v"
  shows "absorb (map (primRec serPub parsePub) kvs) (primWire serPub tvs) =
    map (\<lambda>(t, k). primRec serPub parsePub (t, case map_of tvs t of None \<Rightarrow> k | Some v \<Rightarrow> v)) kvs"
proof -
  have "(case map_of (primWire serPub tvs) (rtyp (primRec serPub parsePub kv)) of
        None \<Rightarrow> primRec serPub parsePub kv
      | Some b \<Rightarrow> absorbRec (primRec serPub parsePub kv) b) =
    (case kv of (t, k) \<Rightarrow> primRec serPub parsePub (t, case map_of tvs t of None \<Rightarrow> k | Some v \<Rightarrow> v))"
    if kv: "kv \<in> set kvs" for kv
  proof (cases "map_of tvs (fst kv)")
    case None
    then show ?thesis using kv assms(3) by (cases kv) (auto simp: primRec_rtyp map_of_primWire)
  next
    case (Some v)
    then have "(fst kv, v) \<in> set tvs" "kind (snd kv) = kind v"
      using kv assms(4) by (auto dest: map_of_SomeD)
    then have "fits v" "kind (snd kv) = kind v" using assms(2) by force+
    then show ?thesis
      using Some kv assms(3) primRec_framed(1) [OF assms(1), of v "snd kv" "fst kv"]
      by (cases kv) (simp add: primRec_rtyp map_of_primWire fits_def)
  qed
  then show ?thesis by (simp add: absorb_def)
qed

lemma framed_prim:
  assumes "stdPub serPub parsePub" and "sorted_wrt (<) (map fst tvs)" 
    and "\<forall>tv \<in> set tvs. fits (snd tv)" and "\<forall>kv \<in> set kvs. kind (snd kv) \<noteq> 9"
    and "\<forall>kv \<in> set kvs. \<forall>v. map_of tvs (fst kv) = Some v \<longrightarrow> kind (snd kv) = kind v"
  shows "\<forall>w \<in> set (primWire serPub tvs). \<forall>rec \<in> set (map (primRec serPub parsePub) kvs).
    rtyp rec = fst w \<longrightarrow> framed rec (snd w)"
proof (intro ballI impI)
  fix w rec
  assume w: "w \<in> set (primWire serPub tvs)" and r: "rec \<in> set (map (primRec serPub parsePub) kvs)"
    and eq: "rtyp rec = fst w"
  from w obtain t v where tv: "(t, v) \<in> set tvs" "w = (t, primBytes serPub v)"
    by (auto simp: primWire_def)
  from r obtain kv where kv: "kv \<in> set kvs" "rec = primRec serPub parsePub kv" by auto
  have "fst kv = t" using eq kv tv assms(4) by (simp add: primRec_rtyp)
  moreover have "distinct (map fst tvs)" using assms(2) strict_sorted_iff by blast
  then have "map_of tvs t = Some v" using tv by simp
  ultimately have "kind (snd kv) = kind v" "fits v" using assms(3,5) kv tv by auto
  then show "framed rec (snd w)"
    using primRec_framed(2) [OF assms(1), of v "snd kv" "fst kv"] kv tv by (simp add: fits_def)
qed

lemma types_prim:
  assumes "\<forall>kv \<in> set kvs. kind (snd kv) \<noteq> 9"
  shows "typesOf (map (primRec serPub parsePub) kvs) (primWire serPub tvs) =
    (\<lambda>t. map_option (\<lambda>v. if t \<in> fst ` set kvs then None else Some (primBytes serPub v)) (map_of tvs t))"
proof -
  have "rtyp ` set (map (primRec serPub parsePub) kvs) = fst ` set kvs"
    using map_primRec_rtyp [OF assms, of serPub parsePub] by (metis set_map)
  then show ?thesis
    by (simp add: typesOf_def map_of_primWire option.map_comp comp_def cong: option.map_cong)
qed

subsection \<open>One wire per stream, and records made from a map\<close>







subsection \<open>Properties of streams\<close>

text \<open>C13. What a stream of primitive records encodes, a stream of any other known primitive records
  decodes: a known record that was sent has the sent value, a known record that was not sent
  keeps its own, and the reported types are exactly the sent ones, with the bytes of every
  record the reader does not know. \<open>stdPub\<close> is what is asked of the public key library: keys
  serialize to 33 bytes and parsing inverts serialization. Types grow, values fit the
  record limit, and a type both sides know has one kind of value on both.\<close>

theorem tlv_stream_roundtrip:
  assumes "stdPub serPub parsePub" and "sorted_wrt (<) (map fst tvs)" 
    and "\<forall>tv \<in> set tvs. fits (snd tv)" 
    and "sorted_wrt (<) (map fst kvs)" and "\<forall>kv \<in> set kvs. kind (snd kv) \<noteq> 9"
    and "\<forall>kv \<in> set kvs. \<forall>v. map_of tvs (fst kv) = Some v \<longrightarrow> kind (snd kv) = kind v"
  shows "\<exists>s bs s'. NewStream (map (primRec serPub parsePub) tvs) = Inr s \<and> Encode s = Inr bs \<and>
    NewStream (map (primRec serPub parsePub) kvs) = Inr s' \<and>
    DecodeWithParsedTypes s' bs = Inr
      (\<lparr>records = map (\<lambda>(t, k). primRec serPub parsePub
          (t, case map_of tvs t of None \<Rightarrow> k | Some v \<Rightarrow> v)) kvs\<rparr>,
       \<lambda>t. map_option (\<lambda>v. if t \<in> fst ` set kvs then None else Some (primBytes serPub v)) (map_of tvs t))"
proof -
  let ?R = "primRec serPub parsePub"
  have k: "\<forall>tv \<in> set tvs. kind (snd tv) \<noteq> 9" using assms(3) by (simp add: fits_def)
  have ord: "ordered (map ?R tvs)" "ordered (map ?R kvs)"
    using map_primRec_rtyp [OF k, of serPub parsePub] map_primRec_rtyp [OF assms(5), of serPub parsePub]
      assms(2,4) by metis+
  have "decode \<lparr>records = map ?R kvs\<rparr> (wire (primWire serPub tvs)) (Some Map.empty) =
    Inr (\<lparr>records = absorb (map ?R kvs) (primWire serPub tvs)\<rparr>,
      Some (typesOf (map ?R kvs) (primWire serPub tvs)))"
    using decode_wire [OF _ primWire_canonical [OF assms(1-3)], of "\<lparr>records = map ?R kvs\<rparr>"]
      framed_prim [OF assms(1-3,5,6)] ord(2) by simp
  then show ?thesis
    unfolding absorb_prim [OF assms(1,3,5,6)] types_prim [OF assms(5)]
    using ord Encode_prim [OF assms(1,3)] by (simp add: NewStream_iff DecodeWithParsedTypes_def res_simps)
qed

theorem tlv_stream_roundtrip_witness:
  "\<exists>s bs s'. NewStream (map (primRec (\<lambda>_ :: unit. replicate 33 0) (\<lambda>_. Some ()))
       [(1, VUint16 513), (3, VVarBytes [7, 8]), (4, VPubKey ())]) = Inr s \<and> Encode s = Inr bs \<and>
    NewStream (map (primRec (\<lambda>_. replicate 33 0) (\<lambda>_. Some ())) [(1, VUint16 0), (2, VUint8 9)]) = Inr s' \<and>
    (\<exists>m. DecodeWithParsedTypes s' bs = Inr
      (\<lparr>records = map (primRec (\<lambda>_. replicate 33 0) (\<lambda>_. Some ())) [(1, VUint16 513), (2, VUint8 9)]\<rparr>, m)
      \<and> m 1 = Some None \<and> m 2 = None \<and> m 3 = Some (Some [7, 8]))"
proof -
  have p: "primBytes (\<lambda>_ :: unit. replicate 33 0) (VVarBytes [7, 8]) = [7, 8]" by code_simp
  show ?thesis
    using tlv_stream_roundtrip [of "\<lambda>_ :: unit. replicate 33 0" "\<lambda>_. Some ()"
        "[(1, VUint16 513), (3, VVarBytes [7, 8]), (4, VPubKey ())]" "[(1, VUint16 0), (2, VUint8 9)]"]
    by (auto simp: stdPub_def fits_def p split: if_splits)
qed





text \<open>C34. The decoding loop ends on every input: for primitive records it never runs out of the fuel
  of one unit per byte and one for the end.\<close>

theorem tlv_decode_terminates:
  assumes "\<forall>kv \<in> set kvs. kind (snd kv) \<noteq> 9"
  shows "decode \<lparr>records = map (primRec serPub parsePub) kvs\<rparr> r m \<noteq> Inl OutOfFuel"
  using decode_terminates [of "\<lparr>records = map (primRec serPub parsePub) kvs\<rparr>" r m] assms
  by (auto intro!: primRec_shrinking)

theorem tlv_decode_terminates_witness:
  "decode \<lparr>records = map (primRec (\<lambda>_ :: unit. []) (\<lambda>_. None)) [(1, VUint16 0), (9, VBytes33 [])]\<rparr>
     [1, 2, 3] None \<noteq> Inl OutOfFuel"
  by (rule tlv_decode_terminates) simp

text \<open>C35. \<open>NewStream\<close> accepts exactly the records whose types grow strictly, also at the largest
  type, where the next admissible type wraps around to zero.\<close>

theorem tlv_NewStream_iff:
  "(\<exists>s. NewStream recs = Inr s) \<longleftrightarrow>
     (\<forall>i j. i < j \<longrightarrow> j < length recs \<longrightarrow> rtyp (recs ! i) < rtyp (recs ! j))"
  by (auto simp: NewStream_iff sorted_wrt_iff_nth_less)

theorem tlv_NewStream_iff_witness:
  "\<exists>s. NewStream (map (primRec (\<lambda>_ :: unit. []) (\<lambda>_. None))
     [(1, VUint16 0), (18446744073709551615, VUint8 1)]) = Inr s"
  unfolding tlv_NewStream_iff by (auto simp: primRec_rtyp less_Suc_eq)

text \<open>C36. A 33-byte array is decoded without regard to the record's length: a stream that holds one
  accepts the record under every length up to the record limit, reading 33 bytes each time.\<close>

theorem tlv_bytes33_length_ignored:
  assumes "length b = 33" and "l \<le> MaxRecordSize"
  shows "Decode \<lparr>records = [primRec serPub parsePub (t, VBytes33 v)]\<rparr> (WriteVarInt t @ WriteVarInt l @ b) =
    Inr \<lparr>records = [primRec serPub parsePub (t, VBytes33 b)]\<rparr>"
proof -
  let ?R = "\<lambda>v. primRec serPub parsePub (t, VBytes33 v)"
  have t: "rtyp (?R v) = t" by (simp add: primRec_rtyp)
  have d: "RecDecode (?R v) b l = Inr (?R b, [])"
    using assms(1) ReadFull_append [of b 33 "[]"] by (simp add: primRec_defs DBytes33_def res_simps)
  obtain f where f: "length (WriteVarInt t @ WriteVarInt l @ b) + 1 = Suc (Suc f)"
    using assms(1) by (auto simp: gr0_conv_Suc dest!: Suc_le_D)
  show ?thesis
    using d t assms(2) unfolding Decode_def decode_def f
    by (simp add: ReadVarInt_Write res_simps leD getRecord.simps ReadVarInt_EOF [THEN iffD2])
qed

theorem tlv_bytes33_length_ignored_witness:
  "Decode \<lparr>records = [primRec (\<lambda>_ :: unit. []) (\<lambda>_. None) (6, VBytes33 [])]\<rparr>
     (WriteVarInt 6 @ WriteVarInt 5 @ replicate 33 7) =
   Inr \<lparr>records = [primRec (\<lambda>_. []) (\<lambda>_. None) (6, VBytes33 (replicate 33 7))]\<rparr>"
  by (rule tlv_bytes33_length_ignored) (simp_all add: MaxRecordSize_def)

end
