(* ===== verification/Sizes.thy ===== *)
theory Sizes
  imports Prelude
begin

text \<open>
  Package \<^verbatim>\<open>input\<close>, transaction sizes: the constants and the estimator of
  \<^verbatim>\<open>size.go\<close>, the size bounds of the witness types of \<^verbatim>\<open>witnessgen.go\<close>, and
  the estimate that \<open>BreachArbiter.createSweepTx\<close> makes for a justice transaction. Go
  declares the constants in any order; here a constant follows those it uses. Sizes are
  \<open>int\<close>: the sums stay far below 64 bits. The wire library's \<open>VarIntSerializeSize\<close> is a
  parameter, \<open>wireVarInt\<close> states what its documentation promises.
\<close>

subsection \<open>Constants\<close>

definition offByOneCompatDecrement :: int where
  "offByOneCompatDecrement = - 1"

definition baseTxSize :: int where
  "baseTxSize = 4 + 4 + 4"

definition InputSize :: int where
  "InputSize = 32 + 4 + 1 + 4 + 8 + 4 + 4"

definition OutputSize :: int where
  "OutputSize = 8 + 2"

definition P2PKHPkScriptSize :: int where
  "P2PKHPkScriptSize = 1 + 1 + 1 + 20 + 1 + 1"

definition P2PKHOutputSize :: int where
  "P2PKHOutputSize = OutputSize + 1 + P2PKHPkScriptSize"

definition P2SHPkScriptSize :: int where
  "P2SHPkScriptSize = 1 + 1 + 20 + 1"

definition P2SHOutputSize :: int where
  "P2SHOutputSize = OutputSize + 1 + P2SHPkScriptSize"

definition P2UnknownScriptOutputSize :: int where
  "P2UnknownScriptOutputSize = P2PKHOutputSize"

definition P2PKHSigScriptSize :: int where
  "P2PKHSigScriptSize = 1 + 73 + 1 + 33"

definition multiSig2Of2RedeemScriptSize :: int where
  "multiSig2Of2RedeemScriptSize = 1 + 1 + 33 + 1 + 33 + 1 + 1"

definition toLocalRedeemScriptSize :: int where
  "toLocalRedeemScriptSize = 1 + 1 + 33 + 1 + 1 + 5 + 1 + 1 + 1 + 33 + 1 + 1"

definition acceptedHtlcRedeemScriptSize :: int where
  "acceptedHtlcRedeemScriptSize = 3 * 1 + 20 + 5 * 1 + 33 + 9 * 1 + 20 + 4 * 1 + 33 + 5 * 1 + 5 +
     5 * 1 + offByOneCompatDecrement"

definition offeredHtlcRedeemScriptSize :: int where
  "offeredHtlcRedeemScriptSize = 3 * 1 + 20 + 5 * 1 + 33 + 10 * 1 + 33 + 6 * 1 + 20 + 4 * 1"

definition AnchorRedeemScriptSize :: int where
  "AnchorRedeemScriptSize = 1 + 33 + 6 * 1"

definition FundingOutputSigScriptSize :: int where
  "FundingOutputSigScriptSize = 1 + 73 + 1 + 73 + 1 + multiSig2Of2RedeemScriptSize"

definition ToLocalTimeoutSigScriptSize :: int where
  "ToLocalTimeoutSigScriptSize = 1 + 73 + 1 + 1 + 1 + toLocalRedeemScriptSize"

definition ToLocalPenaltySigScriptSize :: int where
  "ToLocalPenaltySigScriptSize = 1 + 73 + 1 + 1 + 1 + toLocalRedeemScriptSize"

definition ToRemoteConfirmedRedeemScriptSize :: int where
  "ToRemoteConfirmedRedeemScriptSize = 1 + 33 + 1 + 1 + 1"

definition ToRemoteConfirmedWitnessSize :: int where
  "ToRemoteConfirmedWitnessSize = 1 + 73 + 1 + ToRemoteConfirmedRedeemScriptSize"

definition AcceptedHtlcTimeoutSigScriptSize :: int where
  "AcceptedHtlcTimeoutSigScriptSize = 1 + 73 + 1 + 1 + 1 + acceptedHtlcRedeemScriptSize"

definition htlcConfirmedScriptOverhead :: int where
  "htlcConfirmedScriptOverhead = 3"

definition AcceptedHtlcTimeoutSigScriptSizeConfirmed :: int where
  "AcceptedHtlcTimeoutSigScriptSizeConfirmed = AcceptedHtlcTimeoutSigScriptSize +
     htlcConfirmedScriptOverhead"

definition AcceptedHtlcSuccessSigScriptSize :: int where
  "AcceptedHtlcSuccessSigScriptSize = 1 + 73 + 1 + 73 + 1 + 32 + 1 + 1 +
     acceptedHtlcRedeemScriptSize"

definition AcceptedHtlcSuccessSigScriptSizeConfirmed :: int where
  "AcceptedHtlcSuccessSigScriptSizeConfirmed = AcceptedHtlcSuccessSigScriptSize +
     htlcConfirmedScriptOverhead"

definition AcceptedHtlcPenaltySigScriptSize :: int where
  "AcceptedHtlcPenaltySigScriptSize = 1 + 73 + 1 + 33 + 1 + 1 + acceptedHtlcRedeemScriptSize"

definition AcceptedHtlcPenaltySigScriptSizeConfirmed :: int where
  "AcceptedHtlcPenaltySigScriptSizeConfirmed = AcceptedHtlcPenaltySigScriptSize +
     htlcConfirmedScriptOverhead"

definition OfferedHtlcTimeoutSigScriptSize :: int where
  "OfferedHtlcTimeoutSigScriptSize = 1 + 73 + 1 + 73 + 1 + 1 + 1 + offeredHtlcRedeemScriptSize"

definition OfferedHtlcTimeoutSigScriptSizeConfirmed :: int where
  "OfferedHtlcTimeoutSigScriptSizeConfirmed = OfferedHtlcTimeoutSigScriptSize +
     htlcConfirmedScriptOverhead"

definition OfferedHtlcSuccessSigScriptSize :: int where
  "OfferedHtlcSuccessSigScriptSize = 1 + 73 + 1 + 32 + 1 + 1 + offeredHtlcRedeemScriptSize"

definition OfferedHtlcSuccessSigScriptSizeConfirmed :: int where
  "OfferedHtlcSuccessSigScriptSizeConfirmed = OfferedHtlcSuccessSigScriptSize +
     htlcConfirmedScriptOverhead"

definition OfferedHtlcPenaltySigScriptSize :: int where
  "OfferedHtlcPenaltySigScriptSize = 1 + 73 + 1 + 33 + 1 + 1 + offeredHtlcRedeemScriptSize"

definition OfferedHtlcPenaltySigScriptSizeConfirmed :: int where
  "OfferedHtlcPenaltySigScriptSizeConfirmed = OfferedHtlcPenaltySigScriptSize +
     htlcConfirmedScriptOverhead"

definition AnchorSigScriptSize :: int where
  "AnchorSigScriptSize = 1 + 73 + 1 + AnchorRedeemScriptSize"

definition AnchorAnyoneSigScriptSize :: int where
  "AnchorAnyoneSigScriptSize = 1 + 1 + AnchorRedeemScriptSize"

definition HTLCOutputSize :: int where
  "HTLCOutputSize = OutputSize + 1 + P2SHPkScriptSize"

definition CommitmentTxSize :: int where
  "CommitmentTxSize = baseTxSize + 1 + InputSize + 3 + OutputSize + 1 + P2PKHPkScriptSize +
     OutputSize + 1 + P2SHPkScriptSize + 1 + 1 + FundingOutputSigScriptSize +
     offByOneCompatDecrement"

definition CommitmentWithAnchorsTxSize :: int where
  "CommitmentWithAnchorsTxSize = CommitmentTxSize + 2 * OutputSize + 2 * 1 + 2 * P2SHPkScriptSize"

definition HTLCTimeoutTxSize :: int where
  "HTLCTimeoutTxSize = baseTxSize + 1 + InputSize + 1 + OutputSize + 1 + P2SHPkScriptSize + 1 +
     3 + OfferedHtlcTimeoutSigScriptSize + offByOneCompatDecrement"

definition HTLCTimeoutConfirmedTxSize :: int where
  "HTLCTimeoutConfirmedTxSize = HTLCTimeoutTxSize + htlcConfirmedScriptOverhead"

definition HTLCSuccessTxSize :: int where
  "HTLCSuccessTxSize = baseTxSize + 1 + InputSize + 1 + OutputSize + 1 + P2PKHPkScriptSize + 1 +
     3 + AcceptedHtlcSuccessSigScriptSize + offByOneCompatDecrement"

definition HTLCSuccessConfirmedTxSize :: int where
  "HTLCSuccessConfirmedTxSize = HTLCSuccessTxSize + htlcConfirmedScriptOverhead"

definition LeaseRedeemScriptSizeOverhead :: int where
  "LeaseRedeemScriptSizeOverhead = 1 + 4 + 1 + 1"

definition MaxHTLCNumber :: int where
  "MaxHTLCNumber = 300"

lemmas size_defs =
  offByOneCompatDecrement_def baseTxSize_def InputSize_def OutputSize_def P2PKHPkScriptSize_def
  P2PKHOutputSize_def P2SHPkScriptSize_def P2SHOutputSize_def P2UnknownScriptOutputSize_def
  P2PKHSigScriptSize_def multiSig2Of2RedeemScriptSize_def toLocalRedeemScriptSize_def
  acceptedHtlcRedeemScriptSize_def offeredHtlcRedeemScriptSize_def AnchorRedeemScriptSize_def
  FundingOutputSigScriptSize_def ToLocalTimeoutSigScriptSize_def ToLocalPenaltySigScriptSize_def
  ToRemoteConfirmedRedeemScriptSize_def ToRemoteConfirmedWitnessSize_def
  AcceptedHtlcTimeoutSigScriptSize_def htlcConfirmedScriptOverhead_def
  AcceptedHtlcTimeoutSigScriptSizeConfirmed_def AcceptedHtlcSuccessSigScriptSize_def
  AcceptedHtlcSuccessSigScriptSizeConfirmed_def AcceptedHtlcPenaltySigScriptSize_def
  AcceptedHtlcPenaltySigScriptSizeConfirmed_def OfferedHtlcTimeoutSigScriptSize_def
  OfferedHtlcTimeoutSigScriptSizeConfirmed_def OfferedHtlcSuccessSigScriptSize_def
  OfferedHtlcSuccessSigScriptSizeConfirmed_def OfferedHtlcPenaltySigScriptSize_def
  OfferedHtlcPenaltySigScriptSizeConfirmed_def AnchorSigScriptSize_def
  AnchorAnyoneSigScriptSize_def HTLCOutputSize_def CommitmentTxSize_def
  CommitmentWithAnchorsTxSize_def HTLCTimeoutTxSize_def HTLCTimeoutConfirmedTxSize_def
  HTLCSuccessTxSize_def HTLCSuccessConfirmedTxSize_def LeaseRedeemScriptSizeOverhead_def
  MaxHTLCNumber_def

definition EstimateCommitmentTxSize :: "int \<Rightarrow> int" where
  "EstimateCommitmentTxSize count =
     (let htlcsSize = count * HTLCOutputSize in CommitmentTxSize + htlcsSize)"

subsection \<open>The estimator\<close>

record TxSizeEstimator =
  inputCount :: u32
  outputCount :: u32
  est_InputSize :: int
  est_OutputSize :: int

definition zeroEstimator :: TxSizeEstimator where
  "zeroEstimator = \<lparr>inputCount = 0, outputCount = 0, est_InputSize = 0, est_OutputSize = 0\<rparr>"

definition AddP2PKHInput :: "TxSizeEstimator \<Rightarrow> TxSizeEstimator" where
  "AddP2PKHInput twe =
     twe\<lparr>est_InputSize := est_InputSize twe + (InputSize + 1 + P2PKHSigScriptSize),
         inputCount := inputCount twe + 1\<rparr>"

definition AddCustomInput :: "(nat \<Rightarrow> nat) \<Rightarrow> TxSizeEstimator \<Rightarrow> int \<Rightarrow> TxSizeEstimator" where
  "AddCustomInput varIntSize twe sigScriptSize =
     (let scriptLenSerSize = int (varIntSize (nat sigScriptSize)) in
      twe\<lparr>est_InputSize := est_InputSize twe + (InputSize + scriptLenSerSize + sigScriptSize),
          inputCount := inputCount twe + 1\<rparr>)"

text \<open>The output's serialized size is the wire library's, and is passed in.\<close>

definition AddTxOutput :: "TxSizeEstimator \<Rightarrow> int \<Rightarrow> TxSizeEstimator" where
  "AddTxOutput twe serializeSize =
     twe\<lparr>est_OutputSize := est_OutputSize twe + serializeSize, outputCount := outputCount twe + 1\<rparr>"

definition AddP2PKHOutput :: "TxSizeEstimator \<Rightarrow> TxSizeEstimator" where
  "AddP2PKHOutput twe =
     twe\<lparr>est_OutputSize := est_OutputSize twe + (OutputSize + 1 + P2PKHPkScriptSize),
         outputCount := outputCount twe + 1\<rparr>"

definition AddP2SHOutput :: "TxSizeEstimator \<Rightarrow> TxSizeEstimator" where
  "AddP2SHOutput twe =
     twe\<lparr>est_OutputSize := est_OutputSize twe + (OutputSize + 1 + P2SHPkScriptSize),
         outputCount := outputCount twe + 1\<rparr>"

definition Size :: "(nat \<Rightarrow> nat) \<Rightarrow> TxSizeEstimator \<Rightarrow> int" where
  "Size varIntSize twe =
     baseTxSize + int (varIntSize (unat (inputCount twe))) + est_InputSize twe +
     int (varIntSize (unat (outputCount twe))) + est_OutputSize twe +
     int (varIntSize (unat (inputCount twe)))"

subsection \<open>Witness types\<close>

datatype StandardWitnessType =
    CommitmentTimeLock
  | CommitmentNoDelay
  | CommitmentRevoke
  | HtlcOfferedRevoke
  | HtlcAcceptedRevoke
  | HtlcOfferedTimeoutSecondLevel
  | HtlcAcceptedSuccessSecondLevel
  | HtlcOfferedRemoteTimeout
  | HtlcAcceptedRemoteSuccess
  | HtlcSecondLevelRevoke
  | WitnessKeyHash
  | NestedWitnessKeyHash
  | CommitSpendNoDelayTweakless
  | CommitmentToRemoteConfirmed
  | CommitmentAnchor
  | HtlcOfferedTimeoutSecondLevelInputConfirmed
  | HtlcAcceptedSuccessSecondLevelInputConfirmed
  | LeaseCommitmentTimeLock
  | LeaseCommitmentToRemoteConfirmed
  | LeaseHtlcOfferedTimeoutSecondLevel
  | LeaseHtlcAcceptedSuccessSecondLevel
  | PublicKeyHash
  | OtherWitnessType u16

datatype size_error = ErrUnexpectedWitnessType StandardWitnessType | ErrNestedP2SH

fun SizeUpperBound :: "StandardWitnessType \<Rightarrow> size_error + (int \<times> bool)" where
  "SizeUpperBound CommitSpendNoDelayTweakless = Inr (P2PKHSigScriptSize, False)"
| "SizeUpperBound WitnessKeyHash = Inr (P2PKHSigScriptSize, False)"
| "SizeUpperBound CommitmentNoDelay = Inr (P2PKHSigScriptSize, False)"
| "SizeUpperBound CommitmentTimeLock = Inr (ToLocalTimeoutSigScriptSize, False)"
| "SizeUpperBound LeaseCommitmentTimeLock =
     Inr (ToLocalTimeoutSigScriptSize + LeaseRedeemScriptSizeOverhead, False)"
| "SizeUpperBound CommitmentToRemoteConfirmed = Inr (ToRemoteConfirmedWitnessSize, False)"
| "SizeUpperBound LeaseCommitmentToRemoteConfirmed =
     Inr (ToRemoteConfirmedWitnessSize + LeaseRedeemScriptSizeOverhead, False)"
| "SizeUpperBound CommitmentAnchor = Inr (AnchorSigScriptSize, False)"
| "SizeUpperBound HtlcOfferedTimeoutSecondLevel = Inr (ToLocalTimeoutSigScriptSize, False)"
| "SizeUpperBound LeaseHtlcOfferedTimeoutSecondLevel =
     Inr (ToLocalTimeoutSigScriptSize + LeaseRedeemScriptSizeOverhead, False)"
| "SizeUpperBound HtlcOfferedTimeoutSecondLevelInputConfirmed =
     Inr (OfferedHtlcTimeoutSigScriptSizeConfirmed, False)"
| "SizeUpperBound HtlcAcceptedSuccessSecondLevel = Inr (ToLocalTimeoutSigScriptSize, False)"
| "SizeUpperBound LeaseHtlcAcceptedSuccessSecondLevel =
     Inr (ToLocalTimeoutSigScriptSize + LeaseRedeemScriptSizeOverhead, False)"
| "SizeUpperBound HtlcAcceptedSuccessSecondLevelInputConfirmed =
     Inr (AcceptedHtlcSuccessSigScriptSizeConfirmed, False)"
| "SizeUpperBound HtlcOfferedRemoteTimeout = Inr (AcceptedHtlcTimeoutSigScriptSize, False)"
| "SizeUpperBound HtlcAcceptedRemoteSuccess = Inr (OfferedHtlcSuccessSigScriptSize, False)"
| "SizeUpperBound CommitmentRevoke = Inr (ToLocalPenaltySigScriptSize, False)"
| "SizeUpperBound HtlcOfferedRevoke = Inr (OfferedHtlcPenaltySigScriptSize, False)"
| "SizeUpperBound HtlcAcceptedRevoke = Inr (AcceptedHtlcPenaltySigScriptSize, False)"
| "SizeUpperBound HtlcSecondLevelRevoke = Inr (ToLocalPenaltySigScriptSize, False)"
| "SizeUpperBound PublicKeyHash = Inr (P2PKHSigScriptSize, False)"
| "SizeUpperBound wt = Inl (ErrUnexpectedWitnessType wt)"

definition AddSizeEstimation ::
  "(nat \<Rightarrow> nat) \<Rightarrow> StandardWitnessType \<Rightarrow> TxSizeEstimator \<Rightarrow> size_error + TxSizeEstimator" where
  "AddSizeEstimation varIntSize wt e =
     bindR (SizeUpperBound wt) (\<lambda>(sz, isNestedP2SH).
       if isNestedP2SH then Inl ErrNestedP2SH else Inr (AddCustomInput varIntSize e sz))"

text \<open>The estimate of a justice transaction: inputs whose witness type has no bound are left
  out of the transaction.\<close>

fun addBreachedInputs ::
  "(nat \<Rightarrow> nat) \<Rightarrow> TxSizeEstimator \<Rightarrow> StandardWitnessType list \<Rightarrow> TxSizeEstimator \<times> StandardWitnessType list" where
  "addBreachedInputs varIntSize e [] = (e, [])"
| "addBreachedInputs varIntSize e (wt # wts) =
     (case SizeUpperBound wt of
        Inl _ \<Rightarrow> addBreachedInputs varIntSize e wts
      | Inr (sz, _) \<Rightarrow>
          (let (e', spendable) = addBreachedInputs varIntSize (AddCustomInput varIntSize e sz) wts
           in (e', wt # spendable)))"

definition createSweepTxSize :: "(nat \<Rightarrow> nat) \<Rightarrow> StandardWitnessType list \<Rightarrow> (int \<times> StandardWitnessType list) option" where
  "createSweepTxSize varIntSize inputs =
     (if inputs = [] then None
      else let (e, spendable) = addBreachedInputs varIntSize (AddP2PKHOutput zeroEstimator) inputs
           in Some (Size varIntSize e, spendable))"

subsection \<open>What the estimator adds up\<close>

definition wireVarInt :: "(nat \<Rightarrow> nat) \<Rightarrow> bool" where
  "wireVarInt varIntSize \<longleftrightarrow>
     (\<forall>n. varIntSize n = (if n < 253 then 1 else if n \<le> 65535 then 3 else if n \<le> 4294967295 then 5 else 9))"

definition stdVarInt :: "nat \<Rightarrow> nat" where
  "stdVarInt n = (if n < 253 then 1 else if n \<le> 65535 then 3 else if n \<le> 4294967295 then 5 else 9)"

lemma wireVarInt_std: "wireVarInt stdVarInt"
  by (simp add: wireVarInt_def stdVarInt_def)

definition bound :: "StandardWitnessType \<Rightarrow> int" where
  "bound wt = (case SizeUpperBound wt of Inl _ \<Rightarrow> 0 | Inr (sz, _) \<Rightarrow> sz)"

definition bounded :: "StandardWitnessType \<Rightarrow> bool" where
  "bounded wt \<longleftrightarrow> \<not> isl (SizeUpperBound wt)"

lemma addBreachedInputs_eq:
  "addBreachedInputs v e wts =
     (e\<lparr>est_InputSize := est_InputSize e +
          (\<Sum>wt \<leftarrow> filter bounded wts. InputSize + int (v (nat (bound wt))) + bound wt),
        inputCount := inputCount e + word_of_nat (length (filter bounded wts))\<rparr>,
      filter bounded wts)"
proof (induction wts arbitrary: e)
  case Nil
  then show ?case by simp
next
  case (Cons wt wts)
  then show ?case
    by (cases "SizeUpperBound wt") (auto simp: bounded_def bound_def AddCustomInput_def Let_def algebra_simps)
qed

text \<open>Every input's signature script is below 253 bytes except for the second-level ones.\<close>

lemma bound_le: "bounded wt \<Longrightarrow> 0 \<le> bound wt \<and> bound wt \<le> 327"
  by (cases wt) (simp_all add: bounded_def bound_def size_defs)

lemma sum_list_le_const: "(\<And>x. x \<in> set xs \<Longrightarrow> f x \<le> (c :: int)) \<Longrightarrow> (\<Sum>x \<leftarrow> xs. f x) \<le> c * int (length xs)"
  by (induction xs) (auto simp: algebra_simps intro: add_mono)

definition justiceType :: "StandardWitnessType \<Rightarrow> bool" where
  "justiceType wt \<longleftrightarrow> wt \<in> {HtlcOfferedRevoke, HtlcAcceptedRevoke, HtlcSecondLevelRevoke, CommitmentRevoke,
     CommitmentNoDelay, CommitSpendNoDelayTweakless, CommitmentToRemoteConfirmed,
     LeaseCommitmentToRemoteConfirmed}"

lemma justice_bound: "justiceType wt \<Longrightarrow> bounded wt \<and> 0 \<le> bound wt \<and> bound wt \<le> 251"
  by (auto simp: justiceType_def bounded_def bound_def size_defs)

text \<open>C37. A justice transaction that sweeps the penalty outputs of a commitment with at most
  \<open>MaxHTLCNumber\<close> HTLCs, the revoked balance and our own output spends all of them and is
  estimated within the standard size limit of 100000 bytes.\<close>

theorem justice_tx_standard:
  assumes "wireVarInt v" and "inputs \<noteq> []" and "\<forall>wt \<in> set inputs. justiceType wt"
    and "int (length inputs) \<le> MaxHTLCNumber + 2"
  shows "\<exists>sz. createSweepTxSize v inputs = Some (sz, inputs) \<and> sz \<le> 100000"
proof -
  have all: "filter bounded inputs = inputs" using assms(3) justice_bound by (simp add: filter_id_conv)
  have len: "length inputs \<le> 302" using assms(4) by (simp add: size_defs)
  have v1: "v n \<le> 3" if "n \<le> 302" for n using assms(1) that by (simp add: wireVarInt_def)
  have "(\<Sum>wt \<leftarrow> inputs. InputSize + int (v (nat (bound wt))) + bound wt) \<le> 309 * int (length inputs)"
  proof (rule sum_list_le_const)
    fix wt assume "wt \<in> set inputs"
    then have b: "0 \<le> bound wt" "bound wt \<le> 251" using assms(3) justice_bound by auto
    then have "v (nat (bound wt)) = 1" using assms(1) by (simp add: wireVarInt_def)
    with b show "InputSize + int (v (nat (bound wt))) + bound wt \<le> 309" by (simp add: InputSize_def)
  qed
  moreover have "unat (word_of_nat (length inputs) :: u32) = length inputs"
    using len by (simp add: unat_of_nat)
  ultimately show ?thesis
    using assms(2) len v1 [of "length inputs"] v1 [of 1]
    by (simp add: createSweepTxSize_def addBreachedInputs_eq all Size_def AddP2PKHOutput_def
        zeroEstimator_def size_defs)
qed

theorem justice_tx_standard_witness:
  "\<exists>sz. createSweepTxSize stdVarInt ([CommitmentRevoke, CommitmentNoDelay] @ replicate 300 HtlcAcceptedRevoke) =
     Some (sz, [CommitmentRevoke, CommitmentNoDelay] @ replicate 300 HtlcAcceptedRevoke) \<and> sz \<le> 100000"
  by (rule justice_tx_standard [OF wireVarInt_std]) (auto simp: justiceType_def size_defs)

definition commitmentEstimator :: "(nat \<Rightarrow> nat) \<Rightarrow> nat \<Rightarrow> TxSizeEstimator" where
  "commitmentEstimator v n =
     (AddP2SHOutput ^^ n) (AddP2SHOutput (AddP2PKHOutput (AddCustomInput v zeroEstimator FundingOutputSigScriptSize)))"

lemma AddP2SHOutput_pow:
  "(AddP2SHOutput ^^ n) e =
     e\<lparr>est_OutputSize := est_OutputSize e + int n * HTLCOutputSize, outputCount := outputCount e + word_of_nat n\<rparr>"
  by (induction n) (simp_all add: AddP2SHOutput_def size_defs algebra_simps)

text \<open>C38. The closed formula for the size of a commitment with \<open>n\<close> HTLC outputs is one byte above
  what the estimator gives for the transaction's parts as long as the output count fits one
  byte, and one byte below it from 251 HTLCs on: the formula is written for a three-byte
  count less the compatibility decrement.\<close>

theorem commitment_estimate:
  assumes "wireVarInt v" and "n \<le> 65533"
  shows "EstimateCommitmentTxSize (int n) =
    Size v (commitmentEstimator v n) + (if n \<le> 250 then 1 else - 1)"
proof -
  have "unat (2 + word_of_nat n :: u32) = n + 2"
    using assms(2) by (simp add: unat_word_ariths unat_of_nat)
  then show ?thesis
    using assms
    by (simp add: EstimateCommitmentTxSize_def commitmentEstimator_def AddP2SHOutput_pow Size_def
        AddP2SHOutput_def AddP2PKHOutput_def AddCustomInput_def zeroEstimator_def size_defs wireVarInt_def)
qed

theorem commitment_estimate_witness:
  "EstimateCommitmentTxSize 300 = Size stdVarInt (commitmentEstimator stdVarInt 300) - 1"
  using commitment_estimate [OF wireVarInt_std, of 300] by simp

end
