(* ===== verification/ShortChanId.thy ===== *)
theory ShortChanId
  imports Prelude
begin

text \<open>
  Package \<^verbatim>\<open>lnwire\<close>, \<^verbatim>\<open>short_channel_id.go\<close>: the identifier of a channel and its
  compact form in 64 bits.
\<close>

unbundle bit_operations_syntax

record ShortChannelID =
  BlockHeight :: u32
  TxIndex :: u32
  TxPosition :: u16

text \<open>The zero value of the struct, which is also \<^verbatim>\<open>hop.Source\<close>.\<close>

definition zeroChanID :: ShortChannelID where
  "zeroChanID = \<lparr>BlockHeight = 0, TxIndex = 0, TxPosition = 0\<rparr>"

definition NewShortChanIDFromInt :: "u64 \<Rightarrow> ShortChannelID" where
  "NewShortChanIDFromInt chanID =
     \<lparr>BlockHeight = ucast (drop_bit 40 chanID),
      TxIndex = ucast (drop_bit 16 chanID) AND 0xFFFFFF,
      TxPosition = ucast chanID\<rparr>"

definition ToUint64 :: "ShortChannelID \<Rightarrow> u64" where
  "ToUint64 c =
     (push_bit 40 (ucast (BlockHeight c)) OR push_bit 16 (ucast (TxIndex c))) OR
     ucast (TxPosition c)"

text \<open>The two 3-byte fields are kept in 32 bits; nothing checks that they fit.\<close>

definition small_id :: "ShortChannelID \<Rightarrow> bool" where
  "small_id c \<longleftrightarrow> BlockHeight c < 2 ^ 24 \<and> TxIndex c < 2 ^ 24"

lemma mask_24: "(0xFFFFFF :: 'a::len word) = mask 24"
  by (simp add: mask_eq_exp_minus_1)

lemma small_bits:
  fixes w :: u32
  shows "w < 2 ^ 24 \<longleftrightarrow> (\<forall>n \<ge> 24. \<not> bit w n)"
proof -
  have "w < 2 ^ 24 \<longleftrightarrow> take_bit 24 (uint w) = uint w"
    by (simp add: take_bit_int_eq_self_iff word_less_def)
  also have "\<dots> \<longleftrightarrow> (\<forall>n \<ge> 24. \<not> bit w n)"
  proof
    assume e: "take_bit 24 (uint w) = uint w"
    have "bit w n \<longleftrightarrow> bit (take_bit 24 (uint w)) n" for n
      unfolding e using bit_imp_le_length [of w n] by (auto simp: bit_uint_iff)
    then show "\<forall>n \<ge> 24. \<not> bit w n" by (simp add: bit_take_bit_iff)
  next
    assume "\<forall>n \<ge> 24. \<not> bit w n"
    then show "take_bit 24 (uint w) = uint w"
      by (intro bit_eqI) (auto simp: bit_take_bit_iff bit_uint_iff not_le [symmetric])
  qed
  finally show ?thesis .
qed

lemma ToUint64_NewShortChanID [simp]: "ToUint64 (NewShortChanIDFromInt v) = v"
proof (rule bit_word_eqI)
  fix n assume n: "n < LENGTH(64)"
  consider "n < 16" | "16 \<le> n" "n < 40" | "40 \<le> n" by linarith
  then show "bit (ToUint64 (NewShortChanIDFromInt v)) n \<longleftrightarrow> bit v n"
    by cases (use n in \<open>auto simp: ToUint64_def NewShortChanIDFromInt_def mask_24 bit_simps\<close>)
qed

lemma small_id_NewShortChanID [simp]: "small_id (NewShortChanIDFromInt v)"
proof -
  have "\<not> bit v (40 + n)" if "24 \<le> n" for n using bit_imp_le_length [of v "40 + n"] that by auto
  then show ?thesis unfolding small_id_def small_bits
    by (auto simp: NewShortChanIDFromInt_def mask_24 bit_simps)
qed

lemma NewShortChanID_ToUint64 [simp]:
  assumes "small_id c"
  shows "NewShortChanIDFromInt (ToUint64 c) = c"
proof -
  have b: "n < 24" if "bit (BlockHeight c) n" for n
    using assms [unfolded small_id_def small_bits] that not_less by blast
  have x: "n < 24" if "bit (TxIndex c) n" for n
    using assms [unfolded small_id_def small_bits] that not_less by blast
  have p: "n < 16" if "bit (TxPosition c) n" for n using bit_imp_le_length [OF that] by simp
  have "BlockHeight (NewShortChanIDFromInt (ToUint64 c)) = BlockHeight c"
    by (rule bit_word_eqI) (auto simp: NewShortChanIDFromInt_def ToUint64_def bit_simps dest: b x p)
  moreover have "TxIndex (NewShortChanIDFromInt (ToUint64 c)) = TxIndex c"
    by (rule bit_word_eqI) (auto simp: NewShortChanIDFromInt_def ToUint64_def mask_24 bit_simps dest: b x p)
  moreover have "TxPosition (NewShortChanIDFromInt (ToUint64 c)) = TxPosition c"
    by (rule bit_word_eqI) (auto simp: NewShortChanIDFromInt_def ToUint64_def bit_simps dest: b x p)
  ultimately show ?thesis by simp
qed

end
