(* ===== verification/UpdateLog.thy ===== *)
theory UpdateLog
  imports ShortChanId
begin

text \<open>
  Package \<^verbatim>\<open>lnwallet\<close>, \<^verbatim>\<open>channel.go\<close>: the payment descriptors and the update
  logs of a channel. A log is a linked list whose elements two indexes point into; an element
  is a number drawn from \<open>nextElem\<close>, and the list pairs every element with its descriptor.
  Descriptors are shared by pointer between a log and the views made from it: an operation
  that writes to a descriptor returns it, and its caller puts it back into the log. Left out
  of the descriptor are the fields that only transaction building writes (output indexes,
  scripts and signatures).
\<close>

subsection \<open>Payment descriptors\<close>

datatype updateType = Add | Fail | MalformedFail | Settle | FeeUpdate

record AddRef =
  ar_Height :: u64
  ar_Index :: u16

record SettleFailRef =
  sf_Source :: ShortChannelID
  sf_Height :: u64
  sf_Index :: u16

record CircuitKey =
  ck_ChanID :: ShortChannelID
  ck_HtlcID :: u64

record PaymentDescriptor =
  RHash :: bytes
  RPreimage :: bytes
  Timeout :: u32
  Amount :: u64
  LogIndex :: u64
  HtlcIndex :: u64
  ParentIndex :: u64
  SourceRef :: "AddRef option"
  DestRef :: "SettleFailRef option"
  OpenCircuitKey :: "CircuitKey option"
  ClosedCircuitKey :: "CircuitKey option"
  addCommitHeightRemote :: u64
  addCommitHeightLocal :: u64
  removeCommitHeightRemote :: u64
  removeCommitHeightLocal :: u64
  OnionBlob :: bytes
  ShaOnionBlob :: bytes
  FailReason :: bytes
  FailCode :: u16
  EntryType :: updateType
  isForwarded :: bool

text \<open>The zero value of the struct.\<close>

definition zeroPD :: PaymentDescriptor where
  "zeroPD = \<lparr>RHash = replicate 32 0, RPreimage = replicate 32 0, Timeout = 0, Amount = 0,
     LogIndex = 0, HtlcIndex = 0, ParentIndex = 0, SourceRef = None, DestRef = None,
     OpenCircuitKey = None, ClosedCircuitKey = None, addCommitHeightRemote = 0,
     addCommitHeightLocal = 0, removeCommitHeightRemote = 0, removeCommitHeightLocal = 0,
     OnionBlob = [], ShaOnionBlob = replicate 32 0, FailReason = [], FailCode = 0,
     EntryType = Add, isForwarded = False\<rparr>"

subsection \<open>Update logs\<close>

record updateLog =
  logIndex :: u64
  htlcCounter :: u64
  entries :: "(nat \<times> PaymentDescriptor) list"
  nextElem :: nat
  updateIndex :: "u64 \<rightharpoonup> nat"
  htlcIndex :: "u64 \<rightharpoonup> nat"
  modifiedHtlcs :: "u64 set"

abbreviation descriptors :: "updateLog \<Rightarrow> PaymentDescriptor list" where
  "descriptors u \<equiv> map snd (entries u)"

datatype log_error = PanicNilElement u64

definition newUpdateLog :: "u64 \<Rightarrow> u64 \<Rightarrow> updateLog" where
  "newUpdateLog index counter =
     \<lparr>logIndex = index, htlcCounter = counter, entries = [], nextElem = 0,
      updateIndex = Map.empty, htlcIndex = Map.empty, modifiedHtlcs = {}\<rparr>"

definition PushBack :: "updateLog \<Rightarrow> PaymentDescriptor \<Rightarrow> updateLog" where
  "PushBack u pd = u\<lparr>entries := entries u @ [(nextElem u, pd)], nextElem := nextElem u + 1\<rparr>"

definition Remove :: "updateLog \<Rightarrow> nat \<Rightarrow> updateLog" where
  "Remove u e = u\<lparr>entries := filter (\<lambda>x. fst x \<noteq> e) (entries u)\<rparr>"

definition restoreHtlc :: "updateLog \<Rightarrow> PaymentDescriptor \<Rightarrow> updateLog" where
  "restoreHtlc u pd =
     (if htlcIndex u (HtlcIndex pd) \<noteq> None then u
      else (PushBack u pd)\<lparr>htlcIndex := (htlcIndex u)(HtlcIndex pd \<mapsto> nextElem u)\<rparr>)"

definition appendUpdate :: "updateLog \<Rightarrow> PaymentDescriptor \<Rightarrow> updateLog" where
  "appendUpdate u pd =
     (PushBack u pd)\<lparr>updateIndex := (updateIndex u)(logIndex u \<mapsto> nextElem u),
                     logIndex := logIndex u + 1\<rparr>"

definition restoreUpdate :: "updateLog \<Rightarrow> PaymentDescriptor \<Rightarrow> updateLog" where
  "restoreUpdate u pd =
     (PushBack u pd)\<lparr>updateIndex := (updateIndex u)(LogIndex pd \<mapsto> nextElem u)\<rparr>"

definition appendHtlc :: "updateLog \<Rightarrow> PaymentDescriptor \<Rightarrow> updateLog" where
  "appendHtlc u pd =
     (PushBack u pd)\<lparr>htlcIndex := (htlcIndex u)(htlcCounter u \<mapsto> nextElem u),
                     htlcCounter := htlcCounter u + 1,
                     logIndex := logIndex u + 1\<rparr>"

definition lookupHtlc :: "updateLog \<Rightarrow> u64 \<Rightarrow> PaymentDescriptor option" where
  "lookupHtlc u i =
     (case htlcIndex u i of None \<Rightarrow> None | Some e \<Rightarrow> map_of (entries u) e)"

text \<open>Removing a missing entry passes a nil element to the list, which panics.\<close>

definition removeUpdate :: "updateLog \<Rightarrow> u64 \<Rightarrow> log_error + updateLog" where
  "removeUpdate u i =
     (case updateIndex u i of
        None \<Rightarrow> Inl (PanicNilElement i)
      | Some e \<Rightarrow> Inr ((Remove u e)\<lparr>updateIndex := (updateIndex u)(i := None)\<rparr>))"

definition removeHtlc :: "updateLog \<Rightarrow> u64 \<Rightarrow> log_error + updateLog" where
  "removeHtlc u i =
     (case htlcIndex u i of
        None \<Rightarrow> Inl (PanicNilElement i)
      | Some e \<Rightarrow> Inr ((Remove u e)\<lparr>htlcIndex := (htlcIndex u)(i := None),
                                    modifiedHtlcs := modifiedHtlcs u - {i}\<rparr>))"

definition htlcHasModification :: "updateLog \<Rightarrow> u64 \<Rightarrow> bool" where
  "htlcHasModification u i \<longleftrightarrow> i \<in> modifiedHtlcs u"

definition markHtlcModified :: "updateLog \<Rightarrow> u64 \<Rightarrow> updateLog" where
  "markHtlcModified u i = u\<lparr>modifiedHtlcs := insert i (modifiedHtlcs u)\<rparr>"

subsection \<open>Compaction\<close>

text \<open>An entry is evicted when it removes an HTLC (or is a fee update) and both chains' tails
  have reached the heights at which it did.\<close>

definition evictable :: "u64 \<Rightarrow> u64 \<Rightarrow> PaymentDescriptor \<Rightarrow> bool" where
  "evictable localChainTail remoteChainTail htlc \<longleftrightarrow>
     EntryType htlc \<noteq> Add \<and>
     \<not> (removeCommitHeightRemote htlc = 0 \<or> removeCommitHeightLocal htlc = 0) \<and>
     remoteChainTail \<ge> removeCommitHeightRemote htlc \<and>
     localChainTail \<ge> removeCommitHeightLocal htlc"

text \<open>\<open>compactLog\<close> walks over the elements log A has when it starts: it removes from log A
  no other element than the one it stands on.\<close>

fun compactLog :: "u64 \<Rightarrow> u64 \<Rightarrow> PaymentDescriptor list \<Rightarrow> updateLog \<Rightarrow> updateLog \<Rightarrow>
    log_error + (updateLog \<times> updateLog)" where
  "compactLog localChainTail remoteChainTail [] logA logB = Inr (logA, logB)"
| "compactLog localChainTail remoteChainTail (htlc # htlcs) logA logB =
     (if evictable localChainTail remoteChainTail htlc then
        (if EntryType htlc = FeeUpdate then
           bindR (removeUpdate logA (LogIndex htlc)) (\<lambda>logA'.
             compactLog localChainTail remoteChainTail htlcs logA' logB)
         else
           bindR (removeUpdate logA (LogIndex htlc)) (\<lambda>logA'.
           bindR (removeHtlc logB (ParentIndex htlc)) (\<lambda>logB'.
             compactLog localChainTail remoteChainTail htlcs logA' logB')))
      else compactLog localChainTail remoteChainTail htlcs logA logB)"

definition compactLogs :: "updateLog \<Rightarrow> updateLog \<Rightarrow> u64 \<Rightarrow> u64 \<Rightarrow> log_error + (updateLog \<times> updateLog)" where
  "compactLogs ourLog theirLog localChainTail remoteChainTail =
     bindR (compactLog localChainTail remoteChainTail (descriptors ourLog) ourLog theirLog)
       (\<lambda>(ourLog', theirLog').
     bindR (compactLog localChainTail remoteChainTail (descriptors theirLog') theirLog' ourLog')
       (\<lambda>(theirLog'', ourLog''). Inr (ourLog'', theirLog'')))"

subsection \<open>Well-formed logs\<close>

text \<open>Every element is in exactly one index, under its own number, and the counters are ahead
  of all entries.\<close>

definition isAdd :: "PaymentDescriptor \<Rightarrow> bool" where
  "isAdd pd \<longleftrightarrow> EntryType pd = Add"

definition isRmv :: "PaymentDescriptor \<Rightarrow> bool" where
  "isRmv pd \<longleftrightarrow> EntryType pd = Settle \<or> EntryType pd = Fail \<or> EntryType pd = MalformedFail"

lemma entry_kinds:
  "isRmv pd \<longleftrightarrow> \<not> isAdd pd \<and> EntryType pd \<noteq> FeeUpdate" "isAdd pd \<Longrightarrow> \<not> isRmv pd"
  by (cases "EntryType pd"; simp add: isRmv_def isAdd_def)+

definition wf_log :: "updateLog \<Rightarrow> bool" where
  "wf_log u \<longleftrightarrow>
     distinct (map fst (entries u)) \<and>
     (\<forall>x \<in> set (entries u). fst x < nextElem u \<and> LogIndex (snd x) < logIndex u \<and>
        (isAdd (snd x) \<longrightarrow> HtlcIndex (snd x) < htlcCounter u)) \<and>
     (\<forall>i e. htlcIndex u i = Some e \<longleftrightarrow>
        (\<exists>x \<in> set (entries u). fst x = e \<and> isAdd (snd x) \<and> HtlcIndex (snd x) = i)) \<and>
     (\<forall>i e. updateIndex u i = Some e \<longleftrightarrow>
        (\<exists>x \<in> set (entries u). fst x = e \<and> \<not> isAdd (snd x) \<and> LogIndex (snd x) = i))"

lemma wf_logD:
  assumes "wf_log u"
  shows "distinct (map fst (entries u))"
    and "x \<in> set (entries u) \<Longrightarrow> fst x < nextElem u"
    and "x \<in> set (entries u) \<Longrightarrow> LogIndex (snd x) < logIndex u"
    and "x \<in> set (entries u) \<Longrightarrow> isAdd (snd x) \<Longrightarrow> HtlcIndex (snd x) < htlcCounter u"
    and "htlcIndex u i = Some e \<longleftrightarrow>
        (\<exists>x \<in> set (entries u). fst x = e \<and> isAdd (snd x) \<and> HtlcIndex (snd x) = i)"
    and "updateIndex u i = Some e \<longleftrightarrow>
        (\<exists>x \<in> set (entries u). fst x = e \<and> \<not> isAdd (snd x) \<and> LogIndex (snd x) = i)"
  using assms unfolding wf_log_def by blast+

lemma wf_log_new: "wf_log (newUpdateLog i c)"
  by (simp add: wf_log_def newUpdateLog_def)

lemma entry_unique:
  assumes "wf_log u" and "x \<in> set (entries u)" and "y \<in> set (entries u)" and "fst x = fst y"
  shows "x = y"
  using wf_logD(1) [OF assms(1)] assms(2-4) by (metis distinct_map inj_on_def)

lemma add_unique:
  assumes "wf_log u" and "x \<in> set (entries u)" and "y \<in> set (entries u)"
    and "isAdd (snd x)" and "isAdd (snd y)" and "HtlcIndex (snd x) = HtlcIndex (snd y)"
  shows "x = y"
proof -
  have "htlcIndex u (HtlcIndex (snd x)) = Some (fst x)" "htlcIndex u (HtlcIndex (snd x)) = Some (fst y)"
    using assms by (auto simp: wf_logD(5) [OF assms(1)])
  then show ?thesis using entry_unique [OF assms(1-3)] by simp
qed

lemma upd_unique:
  assumes "wf_log u" and "x \<in> set (entries u)" and "y \<in> set (entries u)"
    and "\<not> isAdd (snd x)" and "\<not> isAdd (snd y)" and "LogIndex (snd x) = LogIndex (snd y)"
  shows "x = y"
proof -
  have "updateIndex u (LogIndex (snd x)) = Some (fst x)" "updateIndex u (LogIndex (snd x)) = Some (fst y)"
    using assms by (auto simp: wf_logD(6) [OF assms(1)])
  then show ?thesis using entry_unique [OF assms(1-3)] by simp
qed

lemma distinct_map_filter_unique:
  assumes "distinct (map fst xs)"
    and "\<And>x y. x \<in> set xs \<Longrightarrow> y \<in> set xs \<Longrightarrow> P (snd x) \<Longrightarrow> P (snd y) \<Longrightarrow> f (snd x) = f (snd y) \<Longrightarrow> x = y"
  shows "distinct (map f (filter P (map snd xs)))"
  using assms
proof (induction xs)
  case (Cons x xs)
  have "distinct (map f (filter P (map snd xs)))" using Cons by (intro Cons.IH) auto
  moreover have "P (snd x) \<Longrightarrow> f (snd x) \<notin> f ` {y \<in> snd ` set xs. P y}"
    using Cons.prems(1) Cons.prems(2) [of x] by force
  ultimately show ?case by auto
qed simp

lemma distinct_HtlcIndex: "wf_log u \<Longrightarrow> distinct (map HtlcIndex (filter isAdd (descriptors u)))"
  using wf_logD(1) add_unique by (intro distinct_map_filter_unique) blast+

lemma distinct_LogIndex: "wf_log u \<Longrightarrow> distinct (map LogIndex (filter (\<lambda>pd. \<not> isAdd pd) (descriptors u)))"
  using wf_logD(1) upd_unique by (intro distinct_map_filter_unique) blast+

text \<open>The index finds exactly the adds of the log.\<close>

lemma lookupHtlc_iff:
  assumes "wf_log u"
  shows "lookupHtlc u i = Some pd \<longleftrightarrow> pd \<in> set (descriptors u) \<and> isAdd pd \<and> HtlcIndex pd = i"
proof
  assume "lookupHtlc u i = Some pd"
  then obtain e where e: "htlcIndex u i = Some e" "map_of (entries u) e = Some pd"
    by (auto simp: lookupHtlc_def split: option.splits)
  obtain x where x: "x \<in> set (entries u)" "fst x = e" "isAdd (snd x)" "HtlcIndex (snd x) = i"
    using e(1) wf_logD(5) [OF assms] by blast
  have "(e, pd) \<in> set (entries u)" using e(2) by (rule map_of_SomeD)
  then have "x = (e, pd)" using entry_unique [OF assms x(1)] x(2) by simp
  then show "pd \<in> set (descriptors u) \<and> isAdd pd \<and> HtlcIndex pd = i" using x by force
next
  assume a: "pd \<in> set (descriptors u) \<and> isAdd pd \<and> HtlcIndex pd = i"
  then obtain e where e: "(e, pd) \<in> set (entries u)" by auto
  then have "htlcIndex u i = Some e" using a wf_logD(5) [OF assms] by fastforce
  then show "lookupHtlc u i = Some pd"
    using e wf_logD(1) [OF assms] by (simp add: lookupHtlc_def)
qed

lemma lookupHtlc_None:
  assumes "wf_log u"
  shows "lookupHtlc u i = None \<longleftrightarrow> (\<forall>pd \<in> set (descriptors u). isAdd pd \<longrightarrow> HtlcIndex pd \<noteq> i)"
  using lookupHtlc_iff [OF assms] by (metis not_Some_eq)

subsection \<open>Every operation keeps a log well-formed\<close>

text \<open>What an operation may rewrite in the descriptors: everything but their kind and numbers.\<close>

definition sameEntry :: "PaymentDescriptor \<Rightarrow> PaymentDescriptor \<Rightarrow> bool" where
  "sameEntry pd pd' \<longleftrightarrow>
     EntryType pd' = EntryType pd \<and> LogIndex pd' = LogIndex pd \<and> HtlcIndex pd' = HtlcIndex pd \<and>
     ParentIndex pd' = ParentIndex pd \<and> Amount pd' = Amount pd"

lemma sameEntry_refl [simp]: "sameEntry pd pd"
  by (simp add: sameEntry_def)

lemma sameEntry_kind: "sameEntry pd pd' \<Longrightarrow> isAdd pd' = isAdd pd \<and> isRmv pd' = isRmv pd"
  by (simp add: sameEntry_def isAdd_def isRmv_def)

lemma wf_log_rewrite:
  assumes "wf_log u" and "\<And>pd. sameEntry pd (f pd)"
  shows "wf_log (u\<lparr>entries := map (\<lambda>x. (fst x, f (snd x))) (entries u)\<rparr>)"
proof -
  have s: "isAdd (f pd) = isAdd pd" "LogIndex (f pd) = LogIndex pd" "HtlcIndex (f pd) = HtlcIndex pd" for pd
    using sameEntry_kind [OF assms(2) [of pd]] assms(2) [of pd] by (simp_all add: sameEntry_def)
  have "wf_log (u\<lparr>entries := map (\<lambda>x. (fst x, f (snd x))) (entries u)\<rparr>) \<longleftrightarrow> wf_log u"
    unfolding wf_log_def by (simp add: s comp_def)
  then show ?thesis using assms(1) by simp
qed

lemma less_inc:
  assumes "(x :: 'a :: len word) \<noteq> - 1"
  shows "i < x + 1 \<longleftrightarrow> i \<le> x"
proof -
  have "1 + x \<noteq> 0" using assms by (simp add: eq_neg_iff_add_eq_0 add.commute)
  then have "unat (x + 1) = Suc (unat x)" by (simp add: unatSuc add.commute)
  then show ?thesis by (simp add: word_less_nat_alt word_le_nat_alt less_Suc_eq_le)
qed


lemma wf_log_push:
  assumes "wf_log u" and "u' = u\<lparr>entries := entries u @ [(nextElem u, pd)], nextElem := nextElem u + 1,
      logIndex := logIndex u + 1, htlcCounter := hc, htlcIndex := hi, updateIndex := ui\<rparr>"
    and "LogIndex pd = logIndex u" and "logIndex u \<noteq> - 1"
    and "isAdd pd \<Longrightarrow> HtlcIndex pd < hc" and "\<And>i. i < htlcCounter u \<Longrightarrow> i < hc"
    and "hi = (if isAdd pd then (htlcIndex u)(HtlcIndex pd \<mapsto> nextElem u) else htlcIndex u)"
    and "ui = (if isAdd pd then updateIndex u else (updateIndex u)(LogIndex pd \<mapsto> nextElem u))"
    and "isAdd pd \<Longrightarrow> htlcCounter u \<le> HtlcIndex pd"
  shows "wf_log u'"
proof -
  have new: "\<And>x. x \<in> set (entries u) \<Longrightarrow> fst x \<noteq> nextElem u" using wf_logD(2) [OF assms(1)] by fastforce
  have lt: "\<And>x. x \<in> set (entries u) \<Longrightarrow> LogIndex (snd x) \<noteq> LogIndex pd"
    using wf_logD(3) [OF assms(1)] assms(3) by fastforce
  have lh: "\<And>x. x \<in> set (entries u) \<Longrightarrow> isAdd (snd x) \<Longrightarrow> isAdd pd \<Longrightarrow> HtlcIndex (snd x) \<noteq> HtlcIndex pd"
    using wf_logD(4) [OF assms(1)] assms(9) by (metis leD)
  have "nextElem u \<notin> fst ` set (entries u)" using new by (metis imageE)
  then have 1: "distinct (map fst (entries u'))" using wf_logD(1) [OF assms(1)] assms(2) by simp
  have 2: "\<forall>x \<in> set (entries u'). fst x < nextElem u' \<and> LogIndex (snd x) < logIndex u' \<and>
        (isAdd (snd x) \<longrightarrow> HtlcIndex (snd x) < htlcCounter u')"
    using wf_logD(2-4) [OF assms(1)] assms(2,3,5,6) less_inc [OF assms(4)]
    by (auto simp: less_Suc_eq intro: less_imp_le)
  have 3: "\<forall>i e. htlcIndex u' i = Some e \<longleftrightarrow>
        (\<exists>x \<in> set (entries u'). fst x = e \<and> isAdd (snd x) \<and> HtlcIndex (snd x) = i)"
    using wf_logD(5) [OF assms(1)] new lh assms(2,7) by auto
  have 4: "\<forall>i e. updateIndex u' i = Some e \<longleftrightarrow>
        (\<exists>x \<in> set (entries u'). fst x = e \<and> \<not> isAdd (snd x) \<and> LogIndex (snd x) = i)"
    using wf_logD(6) [OF assms(1)] new lt assms(2,8) by auto
  show ?thesis unfolding wf_log_def by (intro conjI 1 2 3 4)
qed

lemma wf_log_appendHtlc:
  assumes "wf_log u" and "isAdd pd" and "LogIndex pd = logIndex u" and "HtlcIndex pd = htlcCounter u"
    and "logIndex u \<noteq> - 1" and "htlcCounter u \<noteq> - 1"
  shows "wf_log (appendHtlc u pd)"
proof (rule wf_log_push [OF assms(1) _ assms(3,5)])
  show "appendHtlc u pd = u\<lparr>entries := entries u @ [(nextElem u, pd)], nextElem := nextElem u + 1,
      logIndex := logIndex u + 1, htlcCounter := htlcCounter u + 1,
      htlcIndex := (htlcIndex u)(htlcCounter u \<mapsto> nextElem u), updateIndex := updateIndex u\<rparr>"
    by (simp add: appendHtlc_def PushBack_def)
  show "HtlcIndex pd < htlcCounter u + 1" using assms(4) by (simp add: less_inc [OF assms(6)])
  show "i < htlcCounter u \<Longrightarrow> i < htlcCounter u + 1" for i
    by (simp add: less_inc [OF assms(6)] less_imp_le)
qed (use assms in simp_all)

lemma wf_log_appendUpdate:
  assumes "wf_log u" and "\<not> isAdd pd" and "LogIndex pd = logIndex u" and "logIndex u \<noteq> - 1"
  shows "wf_log (appendUpdate u pd)"
proof (rule wf_log_push [OF assms(1) _ assms(3,4)])
  show "appendUpdate u pd = u\<lparr>entries := entries u @ [(nextElem u, pd)], nextElem := nextElem u + 1,
      logIndex := logIndex u + 1, htlcCounter := htlcCounter u, htlcIndex := htlcIndex u,
      updateIndex := (updateIndex u)(LogIndex pd \<mapsto> nextElem u)\<rparr>"
    using assms(3) by (simp add: appendUpdate_def PushBack_def)
qed (use assms in simp_all)

lemma wf_log_mark: "wf_log (markHtlcModified u i) = wf_log u"
  by (simp add: wf_log_def markHtlcModified_def)

text \<open>Removal takes out the one entry the index points to.\<close>

lemma unique_filter_iff:
  assumes "\<And>x y. x \<in> S \<Longrightarrow> y \<in> S \<Longrightarrow> f x = f y \<Longrightarrow> x = y"
  shows "(\<exists>x \<in> {x \<in> S. P x}. f x = e \<and> A x) \<longleftrightarrow> (\<exists>x \<in> S. f x = e \<and> A x) \<and> (\<exists>x \<in> S. f x = e \<and> P x)"
proof
  assume "(\<exists>x \<in> S. f x = e \<and> A x) \<and> (\<exists>x \<in> S. f x = e \<and> P x)"
  then obtain x y where "x \<in> S" "f x = e" "A x" "y \<in> S" "f y = e" "P y" by blast
  moreover from this have "x = y" using assms by simp
  ultimately show "\<exists>x \<in> {x \<in> S. P x}. f x = e \<and> A x" by blast
qed blast

lemma wf_log_filter:
  assumes "wf_log u" and "entries u' = filter P (entries u)" and "nextElem u' = nextElem u"
    and "logIndex u' = logIndex u" and "htlcCounter u' = htlcCounter u"
    and "\<And>i e. htlcIndex u' i = Some e \<longleftrightarrow> htlcIndex u i = Some e \<and>
      (\<exists>x \<in> set (entries u). fst x = e \<and> P x)"
    and "\<And>i e. updateIndex u' i = Some e \<longleftrightarrow> updateIndex u i = Some e \<and>
      (\<exists>x \<in> set (entries u). fst x = e \<and> P x)"
  shows "wf_log u'"
proof -
  have 1: "distinct (map fst (entries u'))" using wf_logD(1) [OF assms(1)] assms(2) by (simp add: distinct_map_filter)
  have 2: "\<forall>x \<in> set (entries u'). fst x < nextElem u' \<and> LogIndex (snd x) < logIndex u' \<and>
        (isAdd (snd x) \<longrightarrow> HtlcIndex (snd x) < htlcCounter u')"
    using wf_logD(2-4) [OF assms(1)] assms(2-5) by auto
  have 3: "\<forall>i e. htlcIndex u' i = Some e \<longleftrightarrow>
        (\<exists>x \<in> set (entries u'). fst x = e \<and> isAdd (snd x) \<and> HtlcIndex (snd x) = i)"
    unfolding assms(6) wf_logD(5) [OF assms(1)] assms(2) set_filter
    by (simp only: unique_filter_iff [OF entry_unique [OF assms(1)]]) simp
  have 4: "\<forall>i e. updateIndex u' i = Some e \<longleftrightarrow>
        (\<exists>x \<in> set (entries u'). fst x = e \<and> \<not> isAdd (snd x) \<and> LogIndex (snd x) = i)"
    unfolding assms(7) wf_logD(6) [OF assms(1)] assms(2) set_filter
    by (simp only: unique_filter_iff [OF entry_unique [OF assms(1)]]) simp
  show ?thesis unfolding wf_log_def by (intro conjI 1 2 3 4)
qed

lemma removeHtlc_spec:
  assumes "wf_log u" and "a \<in> set (descriptors u)" and "isAdd a" and "HtlcIndex a = i"
  shows "\<exists>u'. removeHtlc u i = Inr u' \<and> wf_log u' \<and> logIndex u' = logIndex u \<and> htlcCounter u' = htlcCounter u \<and>
    entries u' = filter (\<lambda>x. \<not> (isAdd (snd x) \<and> HtlcIndex (snd x) = i)) (entries u) \<and>
    modifiedHtlcs u' = modifiedHtlcs u - {i}"
proof -
  obtain y where y: "y \<in> set (entries u)" "snd y = a" using assms(2) by auto
  then have hi: "htlcIndex u i = Some (fst y)" using assms(3,4) wf_logD(5) [OF assms(1)] by blast
  let ?u = "(Remove u (fst y))\<lparr>htlcIndex := (htlcIndex u)(i := None), modifiedHtlcs := modifiedHtlcs u - {i}\<rparr>"
  have eq: "fst x = fst y \<longleftrightarrow> isAdd (snd x) \<and> HtlcIndex (snd x) = i" if "x \<in> set (entries u)" for x
    using that y assms(3,4) entry_unique [OF assms(1)] add_unique [OF assms(1)] by metis
  have ent: "entries ?u = filter (\<lambda>x. \<not> (isAdd (snd x) \<and> HtlcIndex (snd x) = i)) (entries u)"
    by (simp add: Remove_def eq cong: filter_cong)
  have "wf_log ?u"
  proof (rule wf_log_filter [OF assms(1) ent])
    fix j e
    show "(htlcIndex ?u j = Some e) = (htlcIndex u j = Some e \<and>
        (\<exists>x\<in>set (entries u). fst x = e \<and> \<not> (isAdd (snd x) \<and> HtlcIndex (snd x) = i)))"
      using wf_logD(5) [OF assms(1), of j e] entry_unique [OF assms(1)] by auto
    show "(updateIndex ?u j = Some e) = (updateIndex u j = Some e \<and>
        (\<exists>x\<in>set (entries u). fst x = e \<and> \<not> (isAdd (snd x) \<and> HtlcIndex (snd x) = i)))"
      using wf_logD(6) [OF assms(1), of j e] by (auto simp: Remove_def)
  qed (simp_all add: Remove_def)
  then show ?thesis using ent hi by (auto simp: removeHtlc_def Remove_def)
qed

lemma removeUpdate_spec:
  assumes "wf_log u" and "a \<in> set (descriptors u)" and "\<not> isAdd a" and "LogIndex a = i"
  shows "\<exists>u'. removeUpdate u i = Inr u' \<and> wf_log u' \<and> logIndex u' = logIndex u \<and> htlcCounter u' = htlcCounter u \<and>
    entries u' = filter (\<lambda>x. \<not> (\<not> isAdd (snd x) \<and> LogIndex (snd x) = i)) (entries u) \<and>
    modifiedHtlcs u' = modifiedHtlcs u"
proof -
  obtain y where y: "y \<in> set (entries u)" "snd y = a" using assms(2) by auto
  then have ui: "updateIndex u i = Some (fst y)" using assms(3,4) wf_logD(6) [OF assms(1)] by blast
  let ?u = "(Remove u (fst y))\<lparr>updateIndex := (updateIndex u)(i := None)\<rparr>"
  have eq: "fst x = fst y \<longleftrightarrow> \<not> isAdd (snd x) \<and> LogIndex (snd x) = i" if "x \<in> set (entries u)" for x
    using that y assms(3,4) entry_unique [OF assms(1)] upd_unique [OF assms(1)] by metis
  have ent: "entries ?u = filter (\<lambda>x. \<not> (\<not> isAdd (snd x) \<and> LogIndex (snd x) = i)) (entries u)"
    by (simp add: Remove_def eq cong: filter_cong)
  have "wf_log ?u"
  proof (rule wf_log_filter [OF assms(1) ent])
    fix j e
    show "(updateIndex ?u j = Some e) = (updateIndex u j = Some e \<and>
        (\<exists>x\<in>set (entries u). fst x = e \<and> \<not> (\<not> isAdd (snd x) \<and> LogIndex (snd x) = i)))"
      using wf_logD(6) [OF assms(1), of j e] entry_unique [OF assms(1)] by auto
    show "(htlcIndex ?u j = Some e) = (htlcIndex u j = Some e \<and>
        (\<exists>x\<in>set (entries u). fst x = e \<and> \<not> (\<not> isAdd (snd x) \<and> LogIndex (snd x) = i)))"
      using wf_logD(5) [OF assms(1), of j e] by (auto simp: Remove_def)
  qed (simp_all add: Remove_def)
  then show ?thesis using ent ui by (auto simp: removeUpdate_def Remove_def)
qed

subsection \<open>What compaction removes\<close>

text \<open>A removal entry in one log has its parent, with the same amount, in the other log, where
  the parent is marked as modified; no two removal entries share a parent.\<close>

definition paired :: "updateLog \<Rightarrow> updateLog \<Rightarrow> bool" where
  "paired logA logB \<longleftrightarrow>
     (\<forall>r \<in> set (descriptors logA). isRmv r \<longrightarrow> ParentIndex r \<in> modifiedHtlcs logB \<and>
        (\<exists>a \<in> set (descriptors logB). isAdd a \<and> HtlcIndex a = ParentIndex r \<and> Amount a = Amount r)) \<and>
     distinct (map ParentIndex (filter isRmv (descriptors logA)))"

abbreviation evicted :: "u64 \<Rightarrow> u64 \<Rightarrow> PaymentDescriptor list \<Rightarrow> PaymentDescriptor set" where
  "evicted lt rt pds \<equiv> {h \<in> set pds. evictable lt rt h}"

abbreviation freed :: "u64 \<Rightarrow> u64 \<Rightarrow> PaymentDescriptor list \<Rightarrow> u64 set" where
  "freed lt rt pds \<equiv> ParentIndex ` {h \<in> set pds. evictable lt rt h \<and> isRmv h}"

lemma evictable_nonAdd: "evictable lt rt h \<Longrightarrow> \<not> isAdd h"
  by (simp add: evictable_def isAdd_def)

definition sameCounters :: "updateLog \<Rightarrow> updateLog \<Rightarrow> bool" where
  "sameCounters u u' \<longleftrightarrow> logIndex u' = logIndex u \<and> htlcCounter u' = htlcCounter u"

lemma sameCounters_trans: "sameCounters u v \<Longrightarrow> sameCounters v w \<Longrightarrow> sameCounters u w"
  by (simp add: sameCounters_def)

lemma compactLog_spec:
  assumes "wf_log A" and "wf_log B" and "set htlcs \<subseteq> set (descriptors A)"
    and "distinct (map LogIndex (filter (\<lambda>pd. \<not> isAdd pd) htlcs))"
    and "distinct (map ParentIndex (filter isRmv htlcs))"
    and "\<forall>h \<in> set htlcs. isRmv h \<longrightarrow> (\<exists>a \<in> set (descriptors B). isAdd a \<and> HtlcIndex a = ParentIndex h)"
  shows "\<exists>A' B'. compactLog lt rt htlcs A B = Inr (A', B') \<and> wf_log A' \<and> wf_log B' \<and>
    sameCounters A A' \<and> sameCounters B B' \<and>
    entries A' = filter (\<lambda>x. \<not> (\<not> isAdd (snd x) \<and> LogIndex (snd x) \<in> LogIndex ` evicted lt rt htlcs)) (entries A) \<and>
    entries B' = filter (\<lambda>x. \<not> (isAdd (snd x) \<and> HtlcIndex (snd x) \<in> freed lt rt htlcs)) (entries B) \<and>
    modifiedHtlcs A' = modifiedHtlcs A \<and> modifiedHtlcs B' = modifiedHtlcs B - freed lt rt htlcs"
  using assms
proof (induction htlcs arbitrary: A B)
  case Nil
  then show ?case by (simp add: sameCounters_def)
next
  case (Cons h hs)
  have hs: "distinct (map LogIndex (filter (\<lambda>pd. \<not> isAdd pd) hs))" "distinct (map ParentIndex (filter isRmv hs))"
    using Cons.prems(4,5) by (auto split: if_splits)
  show ?case
  proof (cases "evictable lt rt h")
    case False
    then have ev: "evicted lt rt (h # hs) = evicted lt rt hs" "freed lt rt (h # hs) = freed lt rt hs" by auto
    show ?thesis unfolding ev using Cons.IH [OF Cons.prems(1,2) _ hs] Cons.prems(3,6) False by auto
  next
    case True
    note nonadd = evictable_nonAdd [OF True]
    obtain A1 where A1: "removeUpdate A (LogIndex h) = Inr A1" "wf_log A1" "sameCounters A A1"
      "entries A1 = filter (\<lambda>x. \<not> (\<not> isAdd (snd x) \<and> LogIndex (snd x) = LogIndex h)) (entries A)"
      "modifiedHtlcs A1 = modifiedHtlcs A"
      using removeUpdate_spec [OF Cons.prems(1) _ nonadd refl] Cons.prems(3) by (auto simp: sameCounters_def)
    have ne: "LogIndex h \<notin> LogIndex ` {x \<in> set hs. \<not> isAdd x}" using Cons.prems(4) nonadd by auto
    have sub: "set hs \<subseteq> set (descriptors A1)"
    proof
      fix x assume x: "x \<in> set hs"
      then obtain e where e: "(e, x) \<in> set (entries A)" using Cons.prems(3) by auto
      moreover have "\<not> (\<not> isAdd x \<and> LogIndex x = LogIndex h)" using ne x by (metis (mono_tags, lifting) imageI mem_Collect_eq)
      ultimately have "(e, x) \<in> set (entries A1)" by (simp add: A1(4))
      then show "x \<in> set (descriptors A1)" by force
    qed
    have evA: "evicted lt rt (h # hs) = insert h (evicted lt rt hs)" using True by auto
    show ?thesis
    proof (cases "EntryType h = FeeUpdate")
      case fee: True
      then have ev: "freed lt rt (h # hs) = freed lt rt hs" by (auto simp: isRmv_def)
      obtain A' B' where r: "compactLog lt rt hs A1 B = Inr (A', B')" "wf_log A'" "wf_log B'"
        "sameCounters A1 A'" "sameCounters B B'"
        "entries A' = filter (\<lambda>x. \<not> (\<not> isAdd (snd x) \<and> LogIndex (snd x) \<in> LogIndex ` evicted lt rt hs)) (entries A1)"
        "entries B' = filter (\<lambda>x. \<not> (isAdd (snd x) \<and> HtlcIndex (snd x) \<in> freed lt rt hs)) (entries B)"
        "modifiedHtlcs A' = modifiedHtlcs A1" "modifiedHtlcs B' = modifiedHtlcs B - freed lt rt hs"
        using Cons.IH [OF A1(2) Cons.prems(2) sub hs] Cons.prems(6) by auto
      have "compactLog lt rt (h # hs) A B = Inr (A', B')" using True fee A1(1) r(1) by (simp add: res_simps)
      moreover have "entries A' = filter (\<lambda>x. \<not> (\<not> isAdd (snd x) \<and>
          LogIndex (snd x) \<in> LogIndex ` evicted lt rt (h # hs))) (entries A)"
        unfolding r(6) A1(4) evA filter_filter by (rule filter_cong) auto
      ultimately show ?thesis
        unfolding ev using r A1 sameCounters_trans [OF A1(3) r(4)] by (intro exI [of _ A'] exI [of _ B']) simp
    next
      case False
      then have rmv: "isRmv h" using nonadd by (simp add: entry_kinds)
      obtain a where a: "a \<in> set (descriptors B)" "isAdd a" "HtlcIndex a = ParentIndex h"
        using Cons.prems(6) rmv by auto
      obtain B1 where B1: "removeHtlc B (ParentIndex h) = Inr B1" "wf_log B1" "sameCounters B B1"
        "entries B1 = filter (\<lambda>x. \<not> (isAdd (snd x) \<and> HtlcIndex (snd x) = ParentIndex h)) (entries B)"
        "modifiedHtlcs B1 = modifiedHtlcs B - {ParentIndex h}"
        using removeHtlc_spec [OF Cons.prems(2) a] by (auto simp: sameCounters_def)
      have evB: "freed lt rt (h # hs) = insert (ParentIndex h) (freed lt rt hs)" using True rmv by auto
      have par: "\<forall>x \<in> set hs. isRmv x \<longrightarrow> (\<exists>a \<in> set (descriptors B1). isAdd a \<and> HtlcIndex a = ParentIndex x)"
      proof (intro ballI impI)
        fix x assume x: "x \<in> set hs" "isRmv x"
        then obtain e a where ea: "(e, a) \<in> set (entries B)" "isAdd a" "HtlcIndex a = ParentIndex x"
          using Cons.prems(6) by auto
        moreover have "ParentIndex h \<notin> ParentIndex ` {x \<in> set hs. isRmv x}"
          using Cons.prems(5) rmv by simp
        then have "ParentIndex x \<noteq> ParentIndex h" using x by (metis (mono_tags, lifting) imageI mem_Collect_eq)
        ultimately have "(e, a) \<in> set (entries B1)" by (simp add: B1(4))
        then show "\<exists>a \<in> set (descriptors B1). isAdd a \<and> HtlcIndex a = ParentIndex x" using ea by force
      qed
      obtain A' B' where r: "compactLog lt rt hs A1 B1 = Inr (A', B')" "wf_log A'" "wf_log B'"
        "sameCounters A1 A'" "sameCounters B1 B'"
        "entries A' = filter (\<lambda>x. \<not> (\<not> isAdd (snd x) \<and> LogIndex (snd x) \<in> LogIndex ` evicted lt rt hs)) (entries A1)"
        "entries B' = filter (\<lambda>x. \<not> (isAdd (snd x) \<and> HtlcIndex (snd x) \<in> freed lt rt hs)) (entries B1)"
        "modifiedHtlcs A' = modifiedHtlcs A1" "modifiedHtlcs B' = modifiedHtlcs B1 - freed lt rt hs"
        using Cons.IH [OF A1(2) B1(2) sub hs par] by blast
      have "compactLog lt rt (h # hs) A B = Inr (A', B')"
        using True False A1(1) B1(1) r(1) by (simp add: res_simps)
      moreover have "entries A' = filter (\<lambda>x. \<not> (\<not> isAdd (snd x) \<and>
          LogIndex (snd x) \<in> LogIndex ` evicted lt rt (h # hs))) (entries A)"
        unfolding r(6) A1(4) evA filter_filter by (rule filter_cong) auto
      moreover have "entries B' = filter (\<lambda>x. \<not> (isAdd (snd x) \<and> HtlcIndex (snd x) \<in> freed lt rt (h # hs))) (entries B)"
        unfolding r(7) B1(4) evB filter_filter by (rule filter_cong) auto
      moreover have "modifiedHtlcs B' = modifiedHtlcs B - freed lt rt (h # hs)"
        unfolding r(9) B1(5) evB by auto
      ultimately show ?thesis
        using r A1 sameCounters_trans [OF A1(3) r(4)] sameCounters_trans [OF B1(3) r(5)]
        by (intro exI [of _ A'] exI [of _ B']) simp
    qed
  qed
qed


lemma LogIndex_evicted_iff:
  assumes "wf_log A" and "x \<in> set (entries A)"
  shows "\<not> isAdd (snd x) \<and> LogIndex (snd x) \<in> LogIndex ` evicted lt rt (descriptors A) \<longleftrightarrow>
    evictable lt rt (snd x)"
  using assms evictable_nonAdd upd_unique [OF assms(1) _ assms(2)] by (auto simp: image_iff)

text \<open>Compacting log A against log B, when A's removal entries are paired with B's adds.\<close>

lemma compactLog_paired:
  assumes "wf_log A" and "wf_log B" and "paired A B"
  shows "\<exists>A' B'. compactLog lt rt (descriptors A) A B = Inr (A', B') \<and> wf_log A' \<and> wf_log B' \<and>
    sameCounters A A' \<and> sameCounters B B' \<and>
    entries A' = filter (\<lambda>x. \<not> evictable lt rt (snd x)) (entries A) \<and>
    entries B' = filter (\<lambda>x. \<not> (isAdd (snd x) \<and> HtlcIndex (snd x) \<in> freed lt rt (descriptors A))) (entries B) \<and>
    modifiedHtlcs A' = modifiedHtlcs A \<and> modifiedHtlcs B' = modifiedHtlcs B - freed lt rt (descriptors A)"
proof -
  have "filter (\<lambda>x. \<not> (\<not> isAdd (snd x) \<and> LogIndex (snd x) \<in> LogIndex ` evicted lt rt (descriptors A))) (entries A)
    = filter (\<lambda>x. \<not> evictable lt rt (snd x)) (entries A)"
    by (rule filter_cong) (use LogIndex_evicted_iff [OF assms(1)] in auto)
  moreover have "\<forall>h \<in> set (descriptors A). isRmv h \<longrightarrow>
      (\<exists>a \<in> set (descriptors B). isAdd a \<and> HtlcIndex a = ParentIndex h)"
    and "distinct (map ParentIndex (filter isRmv (descriptors A)))"
    using assms(3) unfolding paired_def by blast+
  ultimately show ?thesis
    using compactLog_spec [OF assms(1,2) subset_refl distinct_LogIndex [OF assms(1)], of lt rt] by simp
qed


text \<open>What both passes keep: entries that are not evicted, and adds that no evicted entry of
  the other log removes.\<close>

definition kept :: "u64 \<Rightarrow> u64 \<Rightarrow> updateLog \<Rightarrow> PaymentDescriptor \<Rightarrow> bool" where
  "kept lt rt other pd \<longleftrightarrow>
     \<not> evictable lt rt pd \<and> \<not> (isAdd pd \<and> HtlcIndex pd \<in> freed lt rt (descriptors other))"

lemma map_snd_filter: "map snd (filter (\<lambda>x. P (snd x)) xs) = filter P (map snd xs)"
  by (simp add: filter_map comp_def)

lemma paired_cong:
  assumes "paired A B"
    and "filter isRmv (descriptors A') = filter isRmv (descriptors A)"
    and "filter isAdd (descriptors B') = filter isAdd (descriptors B)" and "modifiedHtlcs B' = modifiedHtlcs B"
  shows "paired A' B'"
proof -
  have "\<And>r. r \<in> set (descriptors A') \<and> isRmv r \<longleftrightarrow> r \<in> set (descriptors A) \<and> isRmv r"
    "\<And>a. a \<in> set (descriptors B') \<and> isAdd a \<longleftrightarrow> a \<in> set (descriptors B) \<and> isAdd a"
    using arg_cong [OF assms(2), of set] arg_cong [OF assms(3), of set] by auto
  then show ?thesis using assms(1) unfolding paired_def assms(2,4) by blast
qed

lemma paired_compact:
  assumes "paired A B" and "entries A' = filter (\<lambda>x. kept lt rt B (snd x)) (entries A)"
    and "entries B' = filter (\<lambda>x. kept lt rt A (snd x)) (entries B)"
    and "modifiedHtlcs B' = modifiedHtlcs B - freed lt rt (descriptors A)"
  shows "paired A' B'"
proof -
  have dA: "descriptors A' = filter (kept lt rt B) (descriptors A)"
    and dB: "descriptors B' = filter (kept lt rt A) (descriptors B)"
    using assms(2,3) by (simp_all add: map_snd_filter)
  have inj: "inj_on ParentIndex {r \<in> set (descriptors A). isRmv r}"
    using assms(1) unfolding paired_def by (simp add: distinct_map)
  have nf: "ParentIndex r \<notin> freed lt rt (descriptors A)"
    if "r \<in> set (descriptors A)" "isRmv r" "\<not> evictable lt rt r" for r
    using inj_onD [OF inj] that by blast
  have par: "\<exists>a \<in> set (descriptors B'). isAdd a \<and> HtlcIndex a = ParentIndex r \<and> Amount a = Amount r"
    and mod: "ParentIndex r \<in> modifiedHtlcs B'"
    if r: "r \<in> set (descriptors A')" "isRmv r" for r
  proof -
    have rA: "r \<in> set (descriptors A)" "\<not> evictable lt rt r" using r dA by (auto simp: kept_def)
    obtain a where a: "a \<in> set (descriptors B)" "isAdd a" "HtlcIndex a = ParentIndex r" "Amount a = Amount r"
      and m: "ParentIndex r \<in> modifiedHtlcs B"
      using assms(1) rA(1) r(2) unfolding paired_def by blast
    have "kept lt rt A a" using a nf [OF rA(1) r(2) rA(2)] evictable_nonAdd by (auto simp: kept_def)
    then show "\<exists>a \<in> set (descriptors B'). isAdd a \<and> HtlcIndex a = ParentIndex r \<and> Amount a = Amount r"
      using a dB by auto
    show "ParentIndex r \<in> modifiedHtlcs B'" using m nf [OF rA(1) r(2) rA(2)] assms(4) by blast
  qed
  have "filter isRmv (descriptors A') = filter (kept lt rt B) (filter isRmv (descriptors A))"
    by (simp add: dA conj_commute)
  then have dist: "distinct (map ParentIndex (filter isRmv (descriptors A')))"
    using assms(1) unfolding paired_def by (metis distinct_map_filter)
  show ?thesis unfolding paired_def by (intro conjI ballI impI par mod dist)
qed

lemma freed_filter:
  assumes "filter isRmv (descriptors B') = filter isRmv (descriptors B)"
  shows "freed lt rt (descriptors B') = freed lt rt (descriptors B)"
proof -
  have "\<And>r. r \<in> set (descriptors B') \<and> isRmv r \<longleftrightarrow> r \<in> set (descriptors B) \<and> isRmv r"
    using arg_cong [OF assms, of set] by auto
  then show ?thesis by blast
qed

lemma compactLogs_spec:
  assumes "wf_log A" and "wf_log B" and "paired A B" and "paired B A"
  shows "\<exists>A' B'. compactLogs A B lt rt = Inr (A', B') \<and> wf_log A' \<and> wf_log B' \<and>
    sameCounters A A' \<and> sameCounters B B' \<and>
    entries A' = filter (\<lambda>x. kept lt rt B (snd x)) (entries A) \<and>
    entries B' = filter (\<lambda>x. kept lt rt A (snd x)) (entries B) \<and>
    paired A' B' \<and> paired B' A'"
proof -
  obtain A1 B1 where 1: "compactLog lt rt (descriptors A) A B = Inr (A1, B1)" "wf_log A1" "wf_log B1"
    "sameCounters A A1" "sameCounters B B1" "entries A1 = filter (\<lambda>x. \<not> evictable lt rt (snd x)) (entries A)"
    "entries B1 = filter (\<lambda>x. \<not> (isAdd (snd x) \<and> HtlcIndex (snd x) \<in> freed lt rt (descriptors A))) (entries B)"
    "modifiedHtlcs A1 = modifiedHtlcs A" "modifiedHtlcs B1 = modifiedHtlcs B - freed lt rt (descriptors A)"
    using compactLog_paired [OF assms(1,2,3)] by blast
  have adds: "filter isAdd (descriptors A1) = filter isAdd (descriptors A)"
    unfolding 1(6) map_snd_filter [of "\<lambda>pd. \<not> evictable lt rt pd"] filter_filter
    by (rule filter_cong) (auto dest: evictable_nonAdd)
  have rmvs: "filter isRmv (descriptors B1) = filter isRmv (descriptors B)"
    unfolding 1(7) map_snd_filter [of "\<lambda>pd. \<not> (isAdd pd \<and> HtlcIndex pd \<in> freed lt rt (descriptors A))"] filter_filter
    by (rule filter_cong) (auto simp: entry_kinds)
  have fr: "freed lt rt (descriptors B1) = freed lt rt (descriptors B)" by (rule freed_filter [OF rmvs])
  have "paired B1 A1" by (rule paired_cong [OF assms(4) rmvs adds 1(8)])
  then obtain B2 A2 where 2: "compactLog lt rt (descriptors B1) B1 A1 = Inr (B2, A2)" "wf_log B2" "wf_log A2"
    "sameCounters B1 B2" "sameCounters A1 A2" "entries B2 = filter (\<lambda>x. \<not> evictable lt rt (snd x)) (entries B1)"
    "entries A2 = filter (\<lambda>x. \<not> (isAdd (snd x) \<and> HtlcIndex (snd x) \<in> freed lt rt (descriptors B1))) (entries A1)"
    "modifiedHtlcs B2 = modifiedHtlcs B1" "modifiedHtlcs A2 = modifiedHtlcs A1 - freed lt rt (descriptors B1)"
    using compactLog_paired [OF 1(3,2)] by blast
  have eA: "entries A2 = filter (\<lambda>x. kept lt rt B (snd x)) (entries A)"
    unfolding 2(7) 1(6) fr filter_filter by (rule filter_cong) (auto simp: kept_def)
  have eB: "entries B2 = filter (\<lambda>x. kept lt rt A (snd x)) (entries B)"
    unfolding 2(6) 1(7) filter_filter by (rule filter_cong) (auto simp: kept_def)
  have mA: "modifiedHtlcs A2 = modifiedHtlcs A - freed lt rt (descriptors B)" using 2(9) 1(8) fr by simp
  have mB: "modifiedHtlcs B2 = modifiedHtlcs B - freed lt rt (descriptors A)" using 2(8) 1(9) by simp
  have "paired A2 B2" by (rule paired_compact [OF assms(3) eA eB mB])
  moreover have "paired B2 A2" by (rule paired_compact [OF assms(4) eB eA mA])
  moreover have "compactLogs A B lt rt = Inr (A2, B2)" by (simp add: compactLogs_def 1(1) 2(1) res_simps)
  ultimately show ?thesis
    using eA eB 2(2,3) sameCounters_trans [OF 1(4) 2(5)] sameCounters_trans [OF 1(5) 2(4)]
    by (intro exI [of _ A2] exI [of _ B2]) simp
qed

end
