(* ===== verification/HtlcView.thy ===== *)
theory HtlcView
  imports UpdateLog
begin

text \<open>
  Package \<^verbatim>\<open>lnwallet\<close>, \<^verbatim>\<open>channel.go\<close>: the view of the update logs that a
  commitment is made from, and its evaluation. Balances and amounts are milli-atoms, unsigned
  64-bit words, and their arithmetic wraps. Evaluation with \<open>mutateState\<close> writes heights into
  the descriptors of the view: the result holds the view's descriptors after the writes, in
  the order of the view, also when the evaluation stops with an error.
\<close>

subsection \<open>Heights\<close>

text \<open>The code takes a pointer to the height field of the chain it works on.\<close>

definition addHeight :: "bool \<Rightarrow> PaymentDescriptor \<Rightarrow> u64" where
  "addHeight remoteChain pd =
     (if remoteChain then addCommitHeightRemote pd else addCommitHeightLocal pd)"

definition setAddHeight :: "bool \<Rightarrow> u64 \<Rightarrow> PaymentDescriptor \<Rightarrow> PaymentDescriptor" where
  "setAddHeight remoteChain h pd =
     (if remoteChain then pd\<lparr>addCommitHeightRemote := h\<rparr> else pd\<lparr>addCommitHeightLocal := h\<rparr>)"

definition removeHeight :: "bool \<Rightarrow> PaymentDescriptor \<Rightarrow> u64" where
  "removeHeight remoteChain pd =
     (if remoteChain then removeCommitHeightRemote pd else removeCommitHeightLocal pd)"

definition setRemoveHeight :: "bool \<Rightarrow> u64 \<Rightarrow> PaymentDescriptor \<Rightarrow> PaymentDescriptor" where
  "setRemoveHeight remoteChain h pd =
     (if remoteChain then pd\<lparr>removeCommitHeightRemote := h\<rparr>
      else pd\<lparr>removeCommitHeightLocal := h\<rparr>)"

subsection \<open>Amounts\<close>

text \<open>Atoms and fee rates are signed 64-bit integers; \<open>i64\<close> is their wrap-around.\<close>

type_synonym Atoms = int

definition i64 :: "int \<Rightarrow> int" where
  "i64 x = (x + 2 ^ 63) mod 2 ^ 64 - 2 ^ 63"

definition ToAtoms :: "u64 \<Rightarrow> Atoms" where
  "ToAtoms mat = i64 (uint (mat div 1000))"

definition NewMAtomsFromAtoms :: "Atoms \<Rightarrow> u64" where
  "NewMAtomsFromAtoms a = word_of_int (a * 1000)"

subsection \<open>Views\<close>

record htlcView =
  ourUpdates :: "PaymentDescriptor list"
  theirUpdates :: "PaymentDescriptor list"
  feePerKB :: Atoms

datatype view_error =
    ErrParentNotFound u64
  | ErrZeroRemoteAddHeight u64 u64
  | ErrZeroLocalAddHeight u64 u64

definition fetchHTLCView :: "updateLog \<Rightarrow> updateLog \<Rightarrow> u64 \<Rightarrow> u64 \<Rightarrow> htlcView" where
  "fetchHTLCView localUpdateLog remoteUpdateLog theirLogIndex ourLogIndex =
     \<lparr>ourUpdates = filter (\<lambda>htlc. LogIndex htlc < ourLogIndex) (descriptors localUpdateLog),
      theirUpdates = filter (\<lambda>htlc. LogIndex htlc < theirLogIndex) (descriptors remoteUpdateLog),
      feePerKB = 0\<rparr>"

definition fetchParent :: "updateLog \<Rightarrow> PaymentDescriptor \<Rightarrow> bool \<Rightarrow> view_error + PaymentDescriptor" where
  "fetchParent parentLog entry remoteChain =
     (case lookupHtlc parentLog (ParentIndex entry) of
        None \<Rightarrow> Inl (ErrParentNotFound (ParentIndex entry))
      | Some addEntry \<Rightarrow>
          if remoteChain \<and> addCommitHeightRemote addEntry = 0 then
            Inl (ErrZeroRemoteAddHeight (ParentIndex entry) (LogIndex entry))
          else if \<not> remoteChain \<and> addCommitHeightLocal addEntry = 0 then
            Inl (ErrZeroLocalAddHeight (ParentIndex entry) (LogIndex entry))
          else Inr addEntry)"

subsection \<open>Processing one entry\<close>

text \<open>The balances, as the pointers \<open>ourBalance\<close> and \<open>theirBalance\<close> see them.\<close>

record balances =
  ourBal :: u64
  theirBal :: u64

definition processAddEntry ::
  "PaymentDescriptor \<Rightarrow> balances \<Rightarrow> u64 \<Rightarrow> bool \<Rightarrow> bool \<Rightarrow> bool \<Rightarrow> PaymentDescriptor \<times> balances" where
  "processAddEntry htlc b nextHeight remoteChain isIncoming mutateState =
     (if addHeight remoteChain htlc \<noteq> 0 then (htlc, b)
      else
        (if mutateState then setAddHeight remoteChain nextHeight htlc else htlc,
         if isIncoming then b\<lparr>theirBal := theirBal b - Amount htlc\<rparr>
         else b\<lparr>ourBal := ourBal b - Amount htlc\<rparr>))"

definition processRemoveEntry ::
  "PaymentDescriptor \<Rightarrow> balances \<Rightarrow> u64 \<Rightarrow> bool \<Rightarrow> bool \<Rightarrow> bool \<Rightarrow> PaymentDescriptor \<times> balances" where
  "processRemoveEntry htlc b nextHeight remoteChain isIncoming mutateState =
     (if removeHeight remoteChain htlc \<noteq> 0 then (htlc, b)
      else
        (if mutateState then setRemoveHeight remoteChain nextHeight htlc else htlc,
         if isIncoming \<and> EntryType htlc = Settle then b\<lparr>ourBal := ourBal b + Amount htlc\<rparr>
         else if isIncoming \<and> (EntryType htlc = Fail \<or> EntryType htlc = MalformedFail) then
           b\<lparr>theirBal := theirBal b + Amount htlc\<rparr>
         else if \<not> isIncoming \<and> EntryType htlc = Settle then
           b\<lparr>theirBal := theirBal b + Amount htlc\<rparr>
         else if \<not> isIncoming \<and> (EntryType htlc = Fail \<or> EntryType htlc = MalformedFail) then
           b\<lparr>ourBal := ourBal b + Amount htlc\<rparr>
         else b))"

text \<open>The new fee rate, where the update sets one.\<close>

definition processFeeUpdate ::
  "PaymentDescriptor \<Rightarrow> u64 \<Rightarrow> bool \<Rightarrow> bool \<Rightarrow> Atoms \<Rightarrow> PaymentDescriptor \<times> Atoms" where
  "processFeeUpdate feeUpdate nextHeight remoteChain mutateState fee =
     (if addHeight remoteChain feeUpdate \<noteq> 0 then (feeUpdate, fee)
      else
        (if mutateState
         then setRemoveHeight remoteChain nextHeight (setAddHeight remoteChain nextHeight feeUpdate)
         else feeUpdate,
         ToAtoms (Amount feeUpdate)))"

subsection \<open>Evaluation\<close>

text \<open>What the two passes over the logs carry along: the balances, the fee rate of the new
  view, the adds to skip in the other log, and the channel's total of settled milli-atoms
  (received for our log, sent for theirs).\<close>

record removeAcc =
  acc_bal :: balances
  acc_fee :: Atoms
  acc_skip :: "u64 set"
  acc_total :: u64

text \<open>The first loop, over our updates (\<open>isIncoming\<close>, the parents are in the remote log) or
  theirs (the parents are in the local log).\<close>

fun removePass ::
  "updateLog \<Rightarrow> u64 \<Rightarrow> bool \<Rightarrow> bool \<Rightarrow> bool \<Rightarrow> PaymentDescriptor list \<Rightarrow> removeAcc \<Rightarrow>
   PaymentDescriptor list \<times> removeAcc \<times> view_error option" where
  "removePass parentLog nextHeight remoteChain isIncoming mutateState [] acc = ([], acc, None)"
| "removePass parentLog nextHeight remoteChain isIncoming mutateState (entry # es) acc =
     (if EntryType entry = Add then
        (let (es', acc', r) =
               removePass parentLog nextHeight remoteChain isIncoming mutateState es acc
         in (entry # es', acc', r))
      else if EntryType entry = FeeUpdate then
        (let (entry', fee) =
               processFeeUpdate entry nextHeight remoteChain mutateState (acc_fee acc);
             (es', acc', r) =
               removePass parentLog nextHeight remoteChain isIncoming mutateState es
                 (acc\<lparr>acc_fee := fee\<rparr>)
         in (entry' # es', acc', r))
      else
        (let acc1 =
               (if mutateState \<and> EntryType entry = Settle \<and> \<not> remoteChain \<and>
                   removeCommitHeightLocal entry = 0
                then acc\<lparr>acc_total := acc_total acc + Amount entry\<rparr> else acc)
         in case fetchParent parentLog entry remoteChain of
              Inl err \<Rightarrow> (entry # es, acc1, Some err)
            | Inr addEntry \<Rightarrow>
                (let (entry', b) =
                       processRemoveEntry entry (acc_bal acc1) nextHeight remoteChain isIncoming
                         mutateState;
                     (es', acc', r) =
                       removePass parentLog nextHeight remoteChain isIncoming mutateState es
                         (acc1\<lparr>acc_skip := insert (HtlcIndex addEntry) (acc_skip acc1),
                               acc_bal := b\<rparr>)
                 in (entry' # es', acc', r))))"

text \<open>The second loop gives the entries after the writes and those that stay in the view.\<close>

fun addPass ::
  "u64 set \<Rightarrow> u64 \<Rightarrow> bool \<Rightarrow> bool \<Rightarrow> bool \<Rightarrow> PaymentDescriptor list \<Rightarrow> balances \<Rightarrow>
   PaymentDescriptor list \<times> PaymentDescriptor list \<times> balances" where
  "addPass skip nextHeight remoteChain isIncoming mutateState [] b = ([], [], b)"
| "addPass skip nextHeight remoteChain isIncoming mutateState (entry # es) b =
     (if EntryType entry \<noteq> Add \<or> HtlcIndex entry \<in> skip then
        (let (es', kept, b') = addPass skip nextHeight remoteChain isIncoming mutateState es b
         in (entry # es', kept, b'))
      else
        (let (entry', b1) =
               processAddEntry entry b nextHeight remoteChain isIncoming mutateState;
             (es', kept, b') = addPass skip nextHeight remoteChain isIncoming mutateState es b1
         in (entry' # es', entry' # kept, b')))"

record evaluation =
  ev_ours :: "PaymentDescriptor list"
  ev_theirs :: "PaymentDescriptor list"
  ev_bal :: balances
  ev_received :: u64
  ev_sent :: u64
  ev_view :: "view_error + htlcView"

definition evaluateHTLCView ::
  "updateLog \<Rightarrow> updateLog \<Rightarrow> u64 \<Rightarrow> u64 \<Rightarrow> htlcView \<Rightarrow> balances \<Rightarrow> u64 \<Rightarrow> bool \<Rightarrow> bool \<Rightarrow> evaluation" where
  "evaluateHTLCView localUpdateLog remoteUpdateLog received sent vw b nextHeight remoteChain mutateState =
     (let (ours1, acc1, r1) =
            removePass remoteUpdateLog nextHeight remoteChain True mutateState (ourUpdates vw)
              \<lparr>acc_bal = b, acc_fee = feePerKB vw, acc_skip = {}, acc_total = received\<rparr>
      in case r1 of
           Some err \<Rightarrow>
             \<lparr>ev_ours = ours1, ev_theirs = theirUpdates vw, ev_bal = acc_bal acc1,
              ev_received = acc_total acc1, ev_sent = sent, ev_view = Inl err\<rparr>
         | None \<Rightarrow>
             (let (theirs1, acc2, r2) =
                    removePass localUpdateLog nextHeight remoteChain False mutateState
                      (theirUpdates vw)
                      \<lparr>acc_bal = acc_bal acc1, acc_fee = acc_fee acc1, acc_skip = {},
                       acc_total = sent\<rparr>
              in case r2 of
                   Some err \<Rightarrow>
                     \<lparr>ev_ours = ours1, ev_theirs = theirs1, ev_bal = acc_bal acc2,
                      ev_received = acc_total acc1, ev_sent = acc_total acc2, ev_view = Inl err\<rparr>
                 | None \<Rightarrow>
                     (let (ours2, ourKept, b1) =
                            addPass (acc_skip acc2) nextHeight remoteChain False mutateState
                              ours1 (acc_bal acc2);
                          (theirs2, theirKept, b2) =
                            addPass (acc_skip acc1) nextHeight remoteChain True mutateState
                              theirs1 b1
                      in \<lparr>ev_ours = ours2, ev_theirs = theirs2, ev_bal = b2,
                          ev_received = acc_total acc1, ev_sent = acc_total acc2,
                          ev_view = Inr \<lparr>ourUpdates = ourKept, theirUpdates = theirKept,
                                         feePerKB = acc_fee acc2\<rparr>\<rparr>)))"

subsection \<open>What evaluation writes\<close>

lemma sameEntry_set [simp]:
  "sameEntry pd (setAddHeight c h pd)" "sameEntry pd (setRemoveHeight c h pd)"
  "sameEntry pd (setRemoveHeight c h (setAddHeight c h pd))"
  by (simp_all add: sameEntry_def setAddHeight_def setRemoveHeight_def)

text \<open>An entry is in a chain when the commitment at the chain's tip has taken it up.\<close>

definition inChain :: "bool \<Rightarrow> PaymentDescriptor \<Rightarrow> bool" where
  "inChain c pd \<longleftrightarrow> (if isRmv pd then removeHeight c pd \<noteq> 0 else addHeight c pd \<noteq> 0)"

lemma heights_set [simp]:
  "addHeight c (setAddHeight c h pd) = h" "removeHeight c (setRemoveHeight c h pd) = h"
  "addHeight (\<not> c) (setAddHeight c h pd) = addHeight (\<not> c) pd"
  "removeHeight (\<not> c) (setRemoveHeight c h pd) = removeHeight (\<not> c) pd"
  "removeHeight d (setAddHeight c h pd) = removeHeight d pd"
  "addHeight d (setRemoveHeight c h pd) = addHeight d pd"
  by (simp_all add: addHeight_def removeHeight_def setAddHeight_def setRemoveHeight_def)

text \<open>What the evaluation leaves in an entry of the view.\<close>

definition touch :: "bool \<Rightarrow> u64 \<Rightarrow> PaymentDescriptor \<Rightarrow> PaymentDescriptor" where
  "touch c h pd =
     (if inChain c pd then pd
      else if isRmv pd then setRemoveHeight c h pd
      else if isAdd pd then setAddHeight c h pd
      else setRemoveHeight c h (setAddHeight c h pd))"

lemma touch_same [simp]: "sameEntry pd (touch c h pd)"
  by (simp add: touch_def)

lemma touch_kind [simp]:
  "isAdd (touch c h pd) = isAdd pd" "isRmv (touch c h pd) = isRmv pd"
  "Amount (touch c h pd) = Amount pd" "LogIndex (touch c h pd) = LogIndex pd"
  "HtlcIndex (touch c h pd) = HtlcIndex pd" "ParentIndex (touch c h pd) = ParentIndex pd"
  "EntryType (touch c h pd) = EntryType pd"
  using touch_same [of pd c h] sameEntry_kind [OF touch_same] by (simp_all add: sameEntry_def)

lemma inChain_touch:
  "h \<noteq> 0 \<Longrightarrow> inChain c (touch c h pd)"
  "inChain (\<not> c) (touch c h pd) = inChain (\<not> c) pd"
  by (auto simp: touch_def inChain_def sameEntry_kind [OF sameEntry_set(1)] sameEntry_kind [OF sameEntry_set(2)]
      sameEntry_kind [OF sameEntry_set(3)])

definition touchR :: "bool \<Rightarrow> u64 \<Rightarrow> PaymentDescriptor \<Rightarrow> PaymentDescriptor" where
  "touchR c h pd = (if isAdd pd then pd else touch c h pd)"

subsection \<open>Sums of amounts\<close>

definition amounts :: "PaymentDescriptor list \<Rightarrow> u64" where
  "amounts pds = (\<Sum>pd \<leftarrow> pds. Amount pd)"

lemma amounts_simps [simp]:
  "amounts [] = 0" "amounts (pd # pds) = Amount pd + amounts pds" "amounts (xs @ ys) = amounts xs + amounts ys"
  by (simp_all add: amounts_def)

lemma amounts_map: "(\<And>pd. Amount (f pd) = Amount pd) \<Longrightarrow> amounts (map f pds) = amounts pds"
  by (simp add: amounts_def comp_def)

lemma amounts_split: "amounts (filter P pds) = amounts (filter (\<lambda>pd. P pd \<and> Q pd) pds) + amounts (filter (\<lambda>pd. P pd \<and> \<not> Q pd) pds)"
  by (induction pds) (auto simp: algebra_simps)

definition totalBal :: "balances \<Rightarrow> u64" where
  "totalBal b = ourBal b + theirBal b"

subsection \<open>The passes\<close>

lemma processRemoveEntry_eq:
  assumes "isRmv e"
  shows "processRemoveEntry e b h c inc True = (touch c h e, snd (processRemoveEntry e b h c inc True))"
    and "processRemoveEntry e b h c inc False = (e, snd (processRemoveEntry e b h c inc True))"
    and "totalBal (snd (processRemoveEntry e b h c inc m)) = totalBal b + (if inChain c e then 0 else Amount e)"
  using assms
  by (auto simp: processRemoveEntry_def touch_def inChain_def totalBal_def isRmv_def algebra_simps)

lemma processFeeUpdate_eq:
  assumes "EntryType e = FeeUpdate"
  shows "processFeeUpdate e h c True fr = (touch c h e, snd (processFeeUpdate e h c True fr))"
    and "processFeeUpdate e h c False fr = (e, snd (processFeeUpdate e h c True fr))"
  using assms by (auto simp: processFeeUpdate_def touch_def inChain_def isRmv_def isAdd_def)

lemma processAddEntry_eq:
  assumes "isAdd e"
  shows "processAddEntry e b h c inc True = (touch c h e, snd (processAddEntry e b h c inc True))"
    and "processAddEntry e b h c inc False = (e, snd (processAddEntry e b h c inc True))"
    and "totalBal (snd (processAddEntry e b h c inc m)) = totalBal b - (if inChain c e then 0 else Amount e)"
  using assms
  by (auto simp: processAddEntry_def touch_def inChain_def totalBal_def isRmv_def isAdd_def algebra_simps)

lemma fetchParent_Inr:
  "fetchParent u e c = Inr a \<longleftrightarrow> lookupHtlc u (ParentIndex e) = Some a \<and> addHeight c a \<noteq> 0"
  by (auto simp: fetchParent_def addHeight_def split: option.splits)

lemma removePass_spec:
  assumes "wf_log u" and "removePass u h c inc m es acc = (es', acc', None)"
  shows "es' = (if m then map (touchR c h) es else es) \<and>
    acc_skip acc' = acc_skip acc \<union> ParentIndex ` {e \<in> set es. isRmv e} \<and>
    (\<forall>e \<in> set es. isRmv e \<longrightarrow> (\<exists>a. lookupHtlc u (ParentIndex e) = Some a \<and> addHeight c a \<noteq> 0)) \<and>
    totalBal (acc_bal acc') = totalBal (acc_bal acc) + amounts (filter (\<lambda>e. isRmv e \<and> \<not> inChain c e) es)"
  using assms(2)
proof (induction es arbitrary: es' acc acc')
  case Nil
  then show ?case by simp
next
  case (Cons e es)
  show ?case
  proof (cases "EntryType e = Add")
    case True
    then have k: "isAdd e" "\<not> isRmv e" by (simp_all add: isAdd_def isRmv_def)
    obtain es1 where r: "removePass u h c inc m es acc = (es1, acc', None)" "es' = e # es1"
      using Cons.prems True by (auto split: prod.splits)
    show ?thesis using Cons.IH [OF r(1)] r(2) k by (auto simp: touchR_def)
  next
    case nonadd: False
    show ?thesis
    proof (cases "EntryType e = FeeUpdate")
      case True
      then have k: "\<not> isAdd e" "\<not> isRmv e" by (simp_all add: isAdd_def isRmv_def)
      let ?fr = "snd (processFeeUpdate e h c True (acc_fee acc))"
      have p: "processFeeUpdate e h c m (acc_fee acc) = (if m then touchR c h e else e, ?fr)"
        using processFeeUpdate_eq [OF True] k by (cases m) (auto simp: touchR_def)
      obtain es1 where r: "removePass u h c inc m es (acc\<lparr>acc_fee := ?fr\<rparr>) = (es1, acc', None)"
        "es' = (if m then touchR c h e else e) # es1"
        using Cons.prems True p by (auto split: prod.splits)
      show ?thesis using Cons.IH [OF r(1)] r(2) k by auto
    next
      case False
      then have k: "\<not> isAdd e" "isRmv e" using nonadd by (simp_all add: isAdd_def entry_kinds)
      define acc1 where "acc1 = (if m \<and> EntryType e = Settle \<and> \<not> c \<and> removeCommitHeightLocal e = 0
        then acc\<lparr>acc_total := acc_total acc + Amount e\<rparr> else acc)"
      have a1: "acc_bal acc1 = acc_bal acc" "acc_skip acc1 = acc_skip acc" by (simp_all add: acc1_def)
      let ?b = "snd (processRemoveEntry e (acc_bal acc1) h c inc True)"
      have p: "processRemoveEntry e (acc_bal acc1) h c inc m = (if m then touchR c h e else e, ?b)"
        using processRemoveEntry_eq(1,2) [OF k(2)] k by (cases m) (auto simp: touchR_def)
      obtain a where a: "lookupHtlc u (ParentIndex e) = Some a" "addHeight c a \<noteq> 0"
        and fp: "fetchParent u e c = Inr a"
        using Cons.prems nonadd False
        by (cases "fetchParent u e c") (auto simp: Let_def fetchParent_Inr split: if_splits)
      have ai: "HtlcIndex a = ParentIndex e" using a(1) by (simp add: lookupHtlc_iff [OF assms(1)])
      obtain es1 where r: "removePass u h c inc m es
          (acc1\<lparr>acc_skip := insert (ParentIndex e) (acc_skip acc1), acc_bal := ?b\<rparr>) = (es1, acc', None)"
        "es' = (if m then touchR c h e else e) # es1"
        using Cons.prems nonadd False p fp ai unfolding removePass.simps acc1_def [symmetric]
        by (auto simp: Let_def split: prod.splits)
      note IH = Cons.IH [OF r(1)]
      have "totalBal ?b = totalBal (acc_bal acc) + (if inChain c e then 0 else Amount e)"
        using processRemoveEntry_eq(3) [OF k(2)] a1 by simp
      then show ?thesis using IH r(2) k a a1 by (auto simp: algebra_simps)
    qed
  qed
qed

lemma addPass_spec:
  assumes "addPass skip h c inc m es b = (es', kp, b')"
  shows "es' = (if m then map (\<lambda>e. if isAdd e \<and> HtlcIndex e \<notin> skip then touch c h e else e) es else es) \<and>
    kp = map (if m then touch c h else id) (filter (\<lambda>e. isAdd e \<and> HtlcIndex e \<notin> skip) es) \<and>
    totalBal b' = totalBal b - amounts (filter (\<lambda>e. isAdd e \<and> HtlcIndex e \<notin> skip \<and> \<not> inChain c e) es)"
  using assms
proof (induction es arbitrary: es' kp b b')
  case Nil
  then show ?case by simp
next
  case (Cons e es)
  show ?case
  proof (cases "isAdd e \<and> HtlcIndex e \<notin> skip")
    case False
    then obtain es1 where r: "addPass skip h c inc m es b = (es1, kp, b')" "es' = e # es1"
      using Cons.prems by (auto simp: isAdd_def split: prod.splits if_splits)
    show ?thesis using Cons.IH [OF r(1)] r(2) False by auto
  next
    case True
    let ?b = "snd (processAddEntry e b h c inc True)"
    have p: "processAddEntry e b h c inc m = (if m then touch c h e else e, ?b)"
      using processAddEntry_eq(1,2) True by (cases m) auto
    obtain es1 kp1 where r: "addPass skip h c inc m es ?b = (es1, kp1, b')"
      "es' = (if m then touch c h e else e) # es1" "kp = (if m then touch c h e else e) # kp1"
      using Cons.prems True p by (auto simp: isAdd_def Let_def split: prod.splits)
    have "totalBal ?b = totalBal b - (if inChain c e then 0 else Amount e)"
      using processAddEntry_eq(3) True by simp
    then show ?thesis using Cons.IH [OF r(1)] r(2,3) True by (auto simp: diff_diff_add)
  qed
qed

subsection \<open>What evaluation computes\<close>

abbreviation parents :: "PaymentDescriptor list \<Rightarrow> u64 set" where
  "parents pds \<equiv> ParentIndex ` {e \<in> set pds. isRmv e}"

text \<open>The adds that no removal entry of the other side takes away.\<close>

definition live :: "PaymentDescriptor list \<Rightarrow> PaymentDescriptor list \<Rightarrow> PaymentDescriptor list" where
  "live others pds = filter (\<lambda>e. isAdd e \<and> HtlcIndex e \<notin> parents others) pds"

definition fresh :: "bool \<Rightarrow> (PaymentDescriptor \<Rightarrow> bool) \<Rightarrow> PaymentDescriptor list \<Rightarrow> u64" where
  "fresh c P pds = amounts (filter (\<lambda>e. P e \<and> \<not> inChain c e) pds)"

lemma fresh_append: "fresh c P (xs @ ys) = fresh c P xs + fresh c P ys"
  by (simp add: fresh_def)

lemma add_pass_after_remove:
  assumes "\<And>e. e \<in> set es \<Longrightarrow> isAdd e \<Longrightarrow> HtlcIndex e \<in> skip \<Longrightarrow> inChain c e"
  shows "map (\<lambda>e. if isAdd e \<and> HtlcIndex e \<notin> skip then touch c h e else e) (map (touchR c h) es) =
      map (touch c h) es"
    and "filter (\<lambda>e. isAdd e \<and> HtlcIndex e \<notin> skip) (map (touchR c h) es) =
      filter (\<lambda>e. isAdd e \<and> HtlcIndex e \<notin> skip) es"
    and "amounts (filter (\<lambda>e. isAdd e \<and> HtlcIndex e \<notin> skip \<and> \<not> inChain c e) es) = fresh c isAdd es"
    and "filter (\<lambda>e. isAdd e \<and> HtlcIndex e \<notin> skip \<and> \<not> inChain c e) (map (touchR c h) es) =
      filter (\<lambda>e. isAdd e \<and> HtlcIndex e \<notin> skip \<and> \<not> inChain c e) es"
proof -
  have i: "inChain c e \<Longrightarrow> touch c h e = e" for e by (simp add: touch_def)
  show "map (\<lambda>e. if isAdd e \<and> HtlcIndex e \<notin> skip then touch c h e else e) (map (touchR c h) es) =
      map (touch c h) es"
    using assms i by (auto simp: touchR_def)
  show "filter (\<lambda>e. isAdd e \<and> HtlcIndex e \<notin> skip) (map (touchR c h) es) =
      filter (\<lambda>e. isAdd e \<and> HtlcIndex e \<notin> skip) es"
    by (induction es) (auto simp: touchR_def)
  show "filter (\<lambda>e. isAdd e \<and> HtlcIndex e \<notin> skip \<and> \<not> inChain c e) (map (touchR c h) es) =
      filter (\<lambda>e. isAdd e \<and> HtlcIndex e \<notin> skip \<and> \<not> inChain c e) es"
    by (induction es) (auto simp: touchR_def)
  show "amounts (filter (\<lambda>e. isAdd e \<and> HtlcIndex e \<notin> skip \<and> \<not> inChain c e) es) = fresh c isAdd es"
    unfolding fresh_def using assms by (intro arg_cong [where f = amounts] filter_cong) auto
qed

lemma skipped_inChain:
  assumes "wf_log u" and "set es \<subseteq> set (descriptors u)"
    and "\<forall>e \<in> set others. isRmv e \<longrightarrow> (\<exists>a. lookupHtlc u (ParentIndex e) = Some a \<and> addHeight c a \<noteq> 0)"
    and "e \<in> set es" and "isAdd e" and "HtlcIndex e \<in> parents others"
  shows "inChain c e"
proof -
  obtain r where r: "r \<in> set others" "isRmv r" "ParentIndex r = HtlcIndex e" using assms(6) by auto
  then obtain a where a: "lookupHtlc u (HtlcIndex e) = Some a" "addHeight c a \<noteq> 0" using assms(3) by metis
  have "lookupHtlc u (HtlcIndex e) = Some e" using assms(2,4,5) by (auto simp: lookupHtlc_iff [OF assms(1)])
  then show ?thesis using a assms(5) by (simp add: inChain_def entry_kinds(2))
qed

lemma evaluate_spec:
  assumes "wf_log L" and "wf_log R" and "set (ourUpdates vw) \<subseteq> set (descriptors L)"
    and "set (theirUpdates vw) \<subseteq> set (descriptors R)"
    and "ev = evaluateHTLCView L R rec snt vw b h c m" and "ev_view ev = Inr fv"
  shows "m \<Longrightarrow> ev_ours ev = map (touch c h) (ourUpdates vw) \<and> ev_theirs ev = map (touch c h) (theirUpdates vw)"
    and "ourUpdates fv = map (if m then touch c h else id) (live (theirUpdates vw) (ourUpdates vw))"
    and "theirUpdates fv = map (if m then touch c h else id) (live (ourUpdates vw) (theirUpdates vw))"
    and "totalBal (ev_bal ev) + fresh c isAdd (ourUpdates vw @ theirUpdates vw) =
      totalBal b + fresh c isRmv (ourUpdates vw @ theirUpdates vw)"
    and "\<forall>e \<in> set (ourUpdates vw). isRmv e \<longrightarrow> (\<exists>a. lookupHtlc R (ParentIndex e) = Some a \<and> addHeight c a \<noteq> 0)"
    and "\<forall>e \<in> set (theirUpdates vw). isRmv e \<longrightarrow> (\<exists>a. lookupHtlc L (ParentIndex e) = Some a \<and> addHeight c a \<noteq> 0)"
proof -
  obtain ours1 acc1 r1 where 1: "removePass R h c True m (ourUpdates vw)
      \<lparr>acc_bal = b, acc_fee = feePerKB vw, acc_skip = {}, acc_total = rec\<rparr> = (ours1, acc1, r1)"
    by (metis prod_cases3)
  have r1: "r1 = None" using assms(5,6) 1 by (auto simp: evaluateHTLCView_def split: option.splits)
  obtain theirs1 acc2 r2 where 2: "removePass L h c False m (theirUpdates vw)
      \<lparr>acc_bal = acc_bal acc1, acc_fee = acc_fee acc1, acc_skip = {}, acc_total = snt\<rparr> = (theirs1, acc2, r2)"
    by (metis prod_cases3)
  have r2: "r2 = None" using assms(5,6) 1 r1 2 by (auto simp: evaluateHTLCView_def split: option.splits)
  obtain ours2 ourKept b1 where 3: "addPass (acc_skip acc2) h c False m ours1 (acc_bal acc2) = (ours2, ourKept, b1)"
    by (metis prod_cases3)
  obtain theirs2 theirKept b2 where 4: "addPass (acc_skip acc1) h c True m theirs1 b1 = (theirs2, theirKept, b2)"
    by (metis prod_cases3)
  have ev: "ev = \<lparr>ev_ours = ours2, ev_theirs = theirs2, ev_bal = b2, ev_received = acc_total acc1,
      ev_sent = acc_total acc2, ev_view = Inr \<lparr>ourUpdates = ourKept, theirUpdates = theirKept, feePerKB = acc_fee acc2\<rparr>\<rparr>"
    using assms(5) 1 2 3 4 r1 r2 by (simp add: evaluateHTLCView_def)
  note s1 = removePass_spec [OF assms(2) 1 [unfolded r1]] and s2 = removePass_spec [OF assms(1) 2 [unfolded r2]]
  note s3 = addPass_spec [OF 3] and s4 = addPass_spec [OF 4]
  have skip1: "acc_skip acc1 = parents (ourUpdates vw)" and skip2: "acc_skip acc2 = parents (theirUpdates vw)"
    using s1 s2 by simp_all
  have par: "\<forall>e \<in> set (ourUpdates vw). isRmv e \<longrightarrow> (\<exists>a. lookupHtlc R (ParentIndex e) = Some a \<and> addHeight c a \<noteq> 0)"
    "\<forall>e \<in> set (theirUpdates vw). isRmv e \<longrightarrow> (\<exists>a. lookupHtlc L (ParentIndex e) = Some a \<and> addHeight c a \<noteq> 0)"
    using s1 s2 by blast+
  then show "\<forall>e \<in> set (ourUpdates vw). isRmv e \<longrightarrow> (\<exists>a. lookupHtlc R (ParentIndex e) = Some a \<and> addHeight c a \<noteq> 0)"
    "\<forall>e \<in> set (theirUpdates vw). isRmv e \<longrightarrow> (\<exists>a. lookupHtlc L (ParentIndex e) = Some a \<and> addHeight c a \<noteq> 0)"
    by blast+
  have in1: "e \<in> set (ourUpdates vw) \<Longrightarrow> isAdd e \<Longrightarrow> HtlcIndex e \<in> acc_skip acc2 \<Longrightarrow> inChain c e" for e
    unfolding skip2 by (rule skipped_inChain [OF assms(1,3) par(2)])
  have in2: "e \<in> set (theirUpdates vw) \<Longrightarrow> isAdd e \<Longrightarrow> HtlcIndex e \<in> acc_skip acc1 \<Longrightarrow> inChain c e" for e
    unfolding skip1 by (rule skipped_inChain [OF assms(2,4) par(1)])
  note ap1 = add_pass_after_remove [where es = "ourUpdates vw" and skip = "acc_skip acc2" and c = c, OF in1]
  note ap2 = add_pass_after_remove [where es = "theirUpdates vw" and skip = "acc_skip acc1" and c = c, OF in2]
  have fv: "fv = \<lparr>ourUpdates = ourKept, theirUpdates = theirKept, feePerKB = acc_fee acc2\<rparr>"
    using ev assms(6) by simp
  show "m \<Longrightarrow> ev_ours ev = map (touch c h) (ourUpdates vw) \<and> ev_theirs ev = map (touch c h) (theirUpdates vw)"
    using s1 s2 s3 s4 ap1(1) ap2(1) ev by simp
  show "ourUpdates fv = map (if m then touch c h else id) (live (theirUpdates vw) (ourUpdates vw))"
    using s1 s3 ap1(2) by (cases m) (simp_all add: fv live_def skip2)
  show "theirUpdates fv = map (if m then touch c h else id) (live (ourUpdates vw) (theirUpdates vw))"
    using s2 s4 ap2(2) by (cases m) (simp_all add: fv live_def skip1)
  have e1: "totalBal b1 = totalBal (acc_bal acc2) - fresh c isAdd (ourUpdates vw)"
    using s1 s3 ap1(3,4) by (cases m) simp_all
  have e2: "totalBal b2 = totalBal b1 - fresh c isAdd (theirUpdates vw)"
    using s2 s4 ap2(3,4) by (cases m) simp_all
  have e3: "totalBal (acc_bal acc1) = totalBal b + fresh c isRmv (ourUpdates vw)"
    using s1 by (simp add: fresh_def)
  have e4: "totalBal (acc_bal acc2) = totalBal (acc_bal acc1) + fresh c isRmv (theirUpdates vw)"
    using s2 by (simp add: fresh_def)
  show "totalBal (ev_bal ev) + fresh c isAdd (ourUpdates vw @ theirUpdates vw) =
      totalBal b + fresh c isRmv (ourUpdates vw @ theirUpdates vw)"
    by (simp add: ev fresh_append e1 e2 e3 e4 algebra_simps)
qed

text \<open>Whether the evaluation writes heights changes neither the balances nor the fee rate.\<close>

lemma process_mutate:
  "snd (processRemoveEntry e b h c inc False) = snd (processRemoveEntry e b h c inc True)"
  "snd (processFeeUpdate e h c False fr) = snd (processFeeUpdate e h c True fr)"
  "snd (processAddEntry e b h c inc False) = snd (processAddEntry e b h c inc True)"
  by (simp_all add: processRemoveEntry_def processFeeUpdate_def processAddEntry_def)

definition sameAcc :: "removeAcc \<Rightarrow> removeAcc \<Rightarrow> bool" where
  "sameAcc a b \<longleftrightarrow> acc_bal a = acc_bal b \<and> acc_fee a = acc_fee b \<and> acc_skip a = acc_skip b"

lemma removePass_mutate:
  assumes "removePass u h c inc True es acc = (es1, acc1, r1)"
    and "removePass u h c inc False es acc' = (es2, acc2, r2)" and "sameAcc acc acc'"
  shows "r2 = r1 \<and> sameAcc acc1 acc2"
  using assms
proof (induction es arbitrary: acc acc' es1 es2)
  case (Cons e es)
  show ?case
  proof (cases "EntryType e = Add")
    case True
    then show ?thesis using Cons.prems Cons.IH by (auto split: prod.splits)
  next
    case nonadd: False
    show ?thesis
    proof (cases "EntryType e = FeeUpdate")
      case True
      have f: "snd (processFeeUpdate e h c False (acc_fee acc')) = snd (processFeeUpdate e h c True (acc_fee acc))"
        using Cons.prems(3) process_mutate(2) by (simp add: sameAcc_def)
      have "sameAcc (acc\<lparr>acc_fee := snd (processFeeUpdate e h c True (acc_fee acc))\<rparr>)
          (acc'\<lparr>acc_fee := snd (processFeeUpdate e h c True (acc_fee acc))\<rparr>)"
        using Cons.prems(3) by (simp add: sameAcc_def)
      then show ?thesis using Cons.prems(1,2) Cons.IH True f by (auto simp: case_prod_unfold Let_def prod_eq_iff)
    next
      case False
      define t1 where "t1 = (if True \<and> EntryType e = Settle \<and> \<not> c \<and> removeCommitHeightLocal e = 0
        then acc\<lparr>acc_total := acc_total acc + Amount e\<rparr> else acc)"
      have s: "sameAcc t1 acc'" and b: "acc_bal t1 = acc_bal acc" "acc_bal acc' = acc_bal acc"
        using Cons.prems(3) by (simp_all add: sameAcc_def t1_def)
      note p1 = Cons.prems(1) [unfolded removePass.simps t1_def [symmetric]]
      show ?thesis
      proof (cases "fetchParent u e c")
        case (Inl err)
        then show ?thesis using p1 Cons.prems(2) s nonadd False by (auto simp: Let_def)
      next
        case (Inr a)
        let ?b = "snd (processRemoveEntry e (acc_bal acc) h c inc True)"
        let ?n = "\<lambda>acc. acc\<lparr>acc_skip := insert (HtlcIndex a) (acc_skip acc), acc_bal := ?b\<rparr>"
        have n: "sameAcc (?n t1) (?n acc')" using s by (simp add: sameAcc_def)
        obtain xs1 where 1: "removePass u h c inc True es (?n t1) = (xs1, acc1, r1)"
          using p1 nonadd False Inr b by (simp add: case_prod_unfold Let_def prod_eq_iff)
        obtain xs2 where 2: "removePass u h c inc False es (?n acc') = (xs2, acc2, r2)"
          using Cons.prems(2) nonadd False Inr b process_mutate(1) by (simp add: case_prod_unfold Let_def prod_eq_iff)
        show ?thesis by (rule Cons.IH [OF 1 2 n])
      qed
    qed
  qed
qed simp

lemma addPass_mutate:
  "snd (snd (addPass skip h c inc True (map (touchR c h) es) b)) = snd (snd (addPass skip h c inc False es b))"
proof (induction es arbitrary: b)
  case (Cons e es)
  have r: "EntryType (touchR c h e) = EntryType e" "HtlcIndex (touchR c h e) = HtlcIndex e"
    "EntryType e = Add \<Longrightarrow> touchR c h e = e"
    by (simp_all add: touchR_def isAdd_def)
  show ?case using Cons r process_mutate(3) [of e b h c inc]
    by (cases "EntryType e = Add \<and> HtlcIndex e \<notin> skip") (auto simp: case_prod_unfold Let_def)
qed simp

lemma evaluate_mutate:
  assumes "wf_log L" and "wf_log R"
    and "ev_view (evaluateHTLCView L R rec snt vw b h c True) = Inr fv"
    and "ev_view (evaluateHTLCView L R rec' snt' vw b h c False) = Inr fv'"
  shows "feePerKB fv' = feePerKB fv \<and>
    ev_bal (evaluateHTLCView L R rec' snt' vw b h c False) = ev_bal (evaluateHTLCView L R rec snt vw b h c True)"
proof -
  let ?acc = "\<lambda>b f t. \<lparr>acc_bal = b, acc_fee = f, acc_skip = {}, acc_total = t\<rparr>"
  obtain o1 a1 q1 where 1: "removePass R h c True True (ourUpdates vw) (?acc b (feePerKB vw) rec) = (o1, a1, q1)"
    by (metis prod_cases3)
  obtain o1' a1' q1' where m1: "removePass R h c True False (ourUpdates vw) (?acc b (feePerKB vw) rec') = (o1', a1', q1')"
    by (metis prod_cases3)
  have q1: "q1 = None" "q1' = None" using assms(3,4) 1 m1
    by (auto simp: evaluateHTLCView_def split: option.splits)
  have s1: "sameAcc a1 a1'" using removePass_mutate [OF 1 m1] by (simp add: sameAcc_def)
  obtain t2 a2 q2 where 2: "removePass L h c False True (theirUpdates vw) (?acc (acc_bal a1) (acc_fee a1) snt) = (t2, a2, q2)"
    by (metis prod_cases3)
  obtain t2' a2' q2' where m2: "removePass L h c False False (theirUpdates vw) (?acc (acc_bal a1') (acc_fee a1') snt') = (t2', a2', q2')"
    by (metis prod_cases3)
  have q2: "q2 = None" "q2' = None" using assms(3,4) 1 m1 q1 2 m2
    by (auto simp: evaluateHTLCView_def split: option.splits)
  have s2: "sameAcc a2 a2'" using removePass_mutate [OF 2 m2] s1 by (simp add: sameAcc_def)
  have l: "o1 = map (touchR c h) (ourUpdates vw)" "o1' = ourUpdates vw" "t2 = map (touchR c h) (theirUpdates vw)"
    "t2' = theirUpdates vw"
    using removePass_spec [OF assms(2) 1 [unfolded q1]] removePass_spec [OF assms(2) m1 [unfolded q1]]
      removePass_spec [OF assms(1) 2 [unfolded q2]] removePass_spec [OF assms(1) m2 [unfolded q2]] by simp_all
  have "feePerKB fv = acc_fee a2" "feePerKB fv' = acc_fee a2'"
    using assms(3,4) 1 m1 2 m2 q1 q2 by (auto simp: evaluateHTLCView_def case_prod_unfold Let_def)
  then show ?thesis using s1 s2 1 m1 2 m2 q1 q2 l addPass_mutate
    by (simp add: evaluateHTLCView_def case_prod_unfold Let_def sameAcc_def)
qed

text \<open>The adds a view keeps, together with those removed from it, are all of them.\<close>

lemma live_amounts:
  assumes "wf_log u" and "ours = filter P (descriptors u)"
    and "distinct (map ParentIndex (filter isRmv theirs))"
    and "\<forall>r \<in> set theirs. isRmv r \<longrightarrow>
      (\<exists>a \<in> set ours. isAdd a \<and> HtlcIndex a = ParentIndex r \<and> Amount a = Amount r)"
  shows "amounts (live theirs ours) + amounts (filter isRmv theirs) = amounts (filter isAdd ours)"
proof -
  let ?A = "filter (\<lambda>e. isAdd e \<and> HtlcIndex e \<in> parents theirs) ours"
  define amt where "amt i = (case lookupHtlc u i of None \<Rightarrow> 0 | Some a \<Rightarrow> Amount a)" for i
  have dA: "distinct (map HtlcIndex ?A)"
  proof -
    have eq: "?A = filter (\<lambda>e. P e \<and> HtlcIndex e \<in> parents theirs) (filter isAdd (descriptors u))"
      unfolding assms(2) filter_filter by (rule filter_cong) auto
    show ?thesis unfolding eq by (rule distinct_map_filter [OF distinct_HtlcIndex [OF assms(1)]])
  qed
  have amtA: "amt (HtlcIndex a) = Amount a" if "a \<in> set ours" "isAdd a" for a
    using lookupHtlc_iff [OF assms(1), of "HtlcIndex a" a] that assms(2) by (simp add: amt_def)
  have amtR: "amt (ParentIndex r) = Amount r" if "r \<in> set theirs" "isRmv r" for r
    using assms(4) that amtA by metis
  have keys: "set (map HtlcIndex ?A) = set (map ParentIndex (filter isRmv theirs))"
  proof
    show "set (map HtlcIndex ?A) \<subseteq> set (map ParentIndex (filter isRmv theirs))" by auto
    show "set (map ParentIndex (filter isRmv theirs)) \<subseteq> set (map HtlcIndex ?A)"
    proof
      fix i assume "i \<in> set (map ParentIndex (filter isRmv theirs))"
      then obtain r where r: "r \<in> set theirs" "isRmv r" "i = ParentIndex r" by auto
      then obtain a where a: "a \<in> set ours" "isAdd a" "HtlcIndex a = i" using assms(4) by blast
      have "HtlcIndex a \<in> parents theirs" using r a(3) by blast
      then have "a \<in> set ?A" using a(1,2) by simp
      then show "i \<in> set (map HtlcIndex ?A)" unfolding a(3) [symmetric] set_map by (rule imageI)
    qed
  qed
  have "amounts ?A = sum_list (map amt (map HtlcIndex ?A))"
    unfolding amounts_def map_map by (rule arg_cong [where f = sum_list]) (auto simp: amtA)
  also have "\<dots> = sum amt (set (map HtlcIndex ?A))" by (rule sum_list_distinct_conv_sum_set [OF dA])
  also have "\<dots> = sum amt (set (map ParentIndex (filter isRmv theirs)))" by (simp only: keys)
  also have "\<dots> = sum_list (map amt (map ParentIndex (filter isRmv theirs)))"
    by (rule sum_list_distinct_conv_sum_set [OF assms(3), symmetric])
  also have "\<dots> = amounts (filter isRmv theirs)"
    unfolding amounts_def map_map by (rule arg_cong [where f = sum_list]) (auto simp: amtR)
  finally have "amounts ?A = amounts (filter isRmv theirs)" .
  then show ?thesis using amounts_split [of isAdd ours "\<lambda>e. HtlcIndex e \<in> parents theirs"]
    by (simp add: live_def add.commute)
qed

end
