(* ===== verification/Shachain.thy ===== *)
theory Shachain
  imports Prelude
begin

unbundle bit_operations_syntax

text \<open>
  Package \<^verbatim>\<open>shachain\<close>: the tree of per-commitment secrets. Elements and
  indexes (\<^verbatim>\<open>element.go\<close>), bit helpers (\<^verbatim>\<open>utils.go\<close>), the producer of
  secrets (\<^verbatim>\<open>producer.go\<close>) and the store that keeps at most 48 of them
  (\<^verbatim>\<open>store.go\<close>). An index is a \<open>uint64\<close>; the \<open>uint8\<close> bit positions never
  exceed 48 and are natural numbers, with the one subtraction that could wrap written out.
  The hash function \<open>sha256.Sum256\<close> is the parameter \<open>H\<close>: the theorems hold for every
  function from byte arrays to byte arrays.
\<close>

subsection \<open>Elements, indexes and bits\<close>

type_synonym index = u64
type_synonym ShaHash = bytes

datatype shachain_error =
    ErrPrefixesDifferent
  | ErrNotDerivable
  | ErrUnableToDerive index
  | ErrHashLength nat
  | ErrRead io_error
  | PanicIndexOutOfRange nat

record element =
  el_index :: index
  el_hash :: ShaHash

definition HashSize :: nat where
  "HashSize = 32"

definition maxHeight :: nat where
  "maxHeight = 48"

definition rootIndex :: index where
  "rootIndex = 0"

definition startIndex :: index where
  "startIndex = push_bit maxHeight 1 - 1"

definition newIndex :: "u64 \<Rightarrow> index" where
  "newIndex v = startIndex - v"

definition getBit :: "index \<Rightarrow> nat \<Rightarrow> u8" where
  "getBit ind position = ucast (drop_bit position ind AND 1)"

definition getPrefix :: "index \<Rightarrow> nat \<Rightarrow> u64" where
  "getPrefix ind position =
     (let zero = 0; mask = (zero - 1) - (push_bit position 1 - 1) in ind AND mask)"

function countTrailingZeros_from :: "index \<Rightarrow> nat \<Rightarrow> nat" where
  "countTrailingZeros_from ind zeros =
     (if zeros < maxHeight
      then (if getBit ind zeros \<noteq> 0 then zeros
            else countTrailingZeros_from ind (zeros + 1))
      else zeros)"
  by pat_completeness auto
termination
  by (relation "measure (\<lambda>(ind, zeros). maxHeight - zeros)") auto

definition countTrailingZeros :: "index \<Rightarrow> nat" where
  "countTrailingZeros ind = countTrailingZeros_from ind 0"

text \<open>The loop of \<open>deriveBitTransformations\<close>, counting \<open>position\<close> down to 0.\<close>

fun collectPositions :: "index \<Rightarrow> nat \<Rightarrow> nat list" where
  "collectPositions to 0 = (if getBit to 0 = 1 then [0] else [])"
| "collectPositions to (Suc position) =
     (if getBit to (Suc position) = 1 then [Suc position] else [])
       @ collectPositions to position"

text \<open>The start value \<open>zeros - 1\<close> is a \<open>uint8\<close> subtraction.\<close>

definition deriveBitTransformations :: "index \<Rightarrow> index \<Rightarrow> shachain_error + nat list" where
  "deriveBitTransformations from to =
     (if from = to then Inr []
      else
        let zeros = countTrailingZeros from in
        if from \<noteq> getPrefix to zeros then Inl ErrPrefixesDifferent
        else Inr (collectPositions to ((zeros + 255) mod 256)))"

definition flipAndHash :: "(bytes \<Rightarrow> ShaHash) \<Rightarrow> ShaHash \<Rightarrow> nat \<Rightarrow> ShaHash" where
  "flipAndHash H buf position =
     (let byteNumber = position div 8; bitNumber = position mod 8 in
      H (buf[byteNumber := buf ! byteNumber XOR push_bit bitNumber 1]))"

definition derive :: "(bytes \<Rightarrow> ShaHash) \<Rightarrow> element \<Rightarrow> index \<Rightarrow> shachain_error + element" where
  "derive H e toIndex =
     (case deriveBitTransformations (el_index e) toIndex of
        Inl err \<Rightarrow> Inl err
      | Inr positions \<Rightarrow>
          Inr \<lparr>el_index = toIndex, el_hash = foldl (flipAndHash H) (el_hash e) positions\<rparr>)"

definition isEqual :: "element \<Rightarrow> element \<Rightarrow> bool" where
  "isEqual e e2 \<longleftrightarrow> el_index e = el_index e2 \<and> el_hash e = el_hash e2"

subsection \<open>The producer\<close>

record RevocationProducer =
  root :: element

definition NewHash :: "bytes \<Rightarrow> shachain_error + ShaHash" where
  "NewHash newHash =
     (if length newHash \<noteq> HashSize then Inl (ErrHashLength (length newHash))
      else Inr newHash)"

definition NewRevocationProducer :: "ShaHash \<Rightarrow> RevocationProducer" where
  "NewRevocationProducer r = \<lparr>root = \<lparr>el_index = rootIndex, el_hash = r\<rparr>\<rparr>"

definition NewRevocationProducerFromBytes :: "bytes \<Rightarrow> shachain_error + RevocationProducer" where
  "NewRevocationProducerFromBytes data =
     (case NewHash data of
        Inl err \<Rightarrow> Inl err
      | Inr r \<Rightarrow> Inr \<lparr>root = \<lparr>el_index = rootIndex, el_hash = r\<rparr>\<rparr>)"

definition AtIndex :: "(bytes \<Rightarrow> ShaHash) \<Rightarrow> RevocationProducer \<Rightarrow> u64 \<Rightarrow> shachain_error + ShaHash" where
  "AtIndex H p v =
     (let ind = newIndex v in
      case derive H (root p) ind of Inl err \<Rightarrow> Inl err | Inr e \<Rightarrow> Inr (el_hash e))"

definition ProducerEncode :: "RevocationProducer \<Rightarrow> bytes" where
  "ProducerEncode p = el_hash (root p)"

subsection \<open>The store\<close>

record RevocationStore =
  lenBuckets :: nat
  buckets :: "element list"
  st_index :: index

definition zeroElement :: element where
  "zeroElement = \<lparr>el_index = 0, el_hash = replicate HashSize 0\<rparr>"

definition NewRevocationStore :: RevocationStore where
  "NewRevocationStore =
     \<lparr>lenBuckets = 0, buckets = replicate maxHeight zeroElement, st_index = startIndex\<rparr>"

text \<open>Reading past the fixed-size array \<open>store.buckets\<close> panics, as Go does.\<close>

function LookUp_from :: "(bytes \<Rightarrow> ShaHash) \<Rightarrow> RevocationStore \<Rightarrow> index \<Rightarrow> nat \<Rightarrow> shachain_error + ShaHash" where
  "LookUp_from H store ind i =
     (if i < lenBuckets store
      then (if i < length (buckets store)
            then (case derive H (buckets store ! i) ind of
                    Inl err \<Rightarrow> LookUp_from H store ind (i + 1)
                  | Inr e \<Rightarrow> Inr (el_hash e))
            else Inl (PanicIndexOutOfRange i))
      else Inl (ErrUnableToDerive ind))"
  by pat_completeness auto
termination
  by (relation "measure (\<lambda>(H, store, ind, i). lenBuckets store - i)") auto

definition LookUp :: "(bytes \<Rightarrow> ShaHash) \<Rightarrow> RevocationStore \<Rightarrow> u64 \<Rightarrow> shachain_error + ShaHash" where
  "LookUp H store v = LookUp_from H store (newIndex v) 0"

text \<open>The loop of \<open>AddNextEntry\<close> over the buckets below the new element's.\<close>

fun checkBuckets :: "(bytes \<Rightarrow> ShaHash) \<Rightarrow> element \<Rightarrow> element list \<Rightarrow> shachain_error + unit" where
  "checkBuckets H newElement [] = Inr ()"
| "checkBuckets H newElement (b # bs) =
     (case derive H newElement (el_index b) of
        Inl err \<Rightarrow> Inl err
      | Inr e \<Rightarrow>
          if \<not> isEqual e b then Inl ErrNotDerivable
          else checkBuckets H newElement bs)"

definition AddNextEntry :: "(bytes \<Rightarrow> ShaHash) \<Rightarrow> RevocationStore \<Rightarrow> ShaHash \<Rightarrow> shachain_error + RevocationStore" where
  "AddNextEntry H store hash =
     (let newElement = \<lparr>el_index = st_index store, el_hash = hash\<rparr>;
          bucket = countTrailingZeros (el_index newElement)
      in case checkBuckets H newElement (take bucket (buckets store)) of
           Inl err \<Rightarrow> Inl err
         | Inr _ \<Rightarrow>
             if length (buckets store) \<le> bucket then Inl (PanicIndexOutOfRange bucket)
             else Inr (store
               \<lparr>buckets := (buckets store)[bucket := newElement],
                lenBuckets := (if lenBuckets store < bucket + 1 then bucket + 1
                               else lenBuckets store),
                st_index := st_index store - 1\<rparr>))"

definition encodeElement :: "element \<Rightarrow> bytes" where
  "encodeElement e = be_bytes 8 (unat (el_index e)) @ el_hash e"

definition StoreEncode :: "RevocationStore \<Rightarrow> bytes" where
  "StoreEncode store =
     [word_of_nat (lenBuckets store)]
     @ concat (map (\<lambda>i. encodeElement (buckets store ! i)) [0..<lenBuckets store])
     @ be_bytes 8 (unat (st_index store))"

text \<open>The loop of \<open>NewRevocationStoreFromBytes\<close>: \<open>n\<close> more buckets from position \<open>i\<close>.\<close>

fun readBuckets :: "nat \<Rightarrow> nat \<Rightarrow> element list \<Rightarrow> bytes \<Rightarrow> shachain_error + (element list \<times> bytes)" where
  "readBuckets 0 i bks r = Inr (bks, r)"
| "readBuckets (Suc n) i bks r =
     bindR (mapErr ErrRead (ReadFull 8 r)) (\<lambda>(ib, r1).
     bindR (mapErr ErrRead (ReadFull HashSize r1)) (\<lambda>(nextHash, r2).
     if length bks \<le> i then Inl (PanicIndexOutOfRange i)
     else readBuckets n (i + 1)
            (bks[i := \<lparr>el_index = word_of_nat (be_val ib), el_hash = nextHash\<rparr>]) r2))"

definition NewRevocationStoreFromBytes :: "bytes \<Rightarrow> shachain_error + (RevocationStore \<times> bytes)" where
  "NewRevocationStoreFromBytes r =
     bindR (mapErr ErrRead (ReadFull 1 r)) (\<lambda>(lb, r1).
     bindR (readBuckets (be_val lb) 0 (replicate maxHeight zeroElement) r1) (\<lambda>(bks, r2).
     bindR (mapErr ErrRead (ReadFull 8 r2)) (\<lambda>(ib, r3).
       Inr (\<lparr>lenBuckets = be_val lb, buckets = bks, st_index = word_of_nat (be_val ib)\<rparr>, r3))))"

declare countTrailingZeros_from.simps [simp del] LookUp_from.simps [simp del]


subsection \<open>Indexes as numbers\<close>

text \<open>\<open>trailing n\<close> is \<open>countTrailingZeros\<close> on numbers, \<open>below\<close> the prefix and
  \<open>ones\<close> the list of set bits below a position, highest first.\<close>

definition has_trailing :: "nat \<Rightarrow> nat \<Rightarrow> bool" where
  "has_trailing n z \<longleftrightarrow> 2 ^ z dvd n \<and> z \<le> maxHeight \<and> (z < maxHeight \<longrightarrow> odd (n div 2 ^ z))"

definition ones :: "nat \<Rightarrow> nat \<Rightarrow> nat list" where
  "ones z n = filter (\<lambda>p. odd (n div 2 ^ p)) (rev [0..<z])"

lemma getBit_eq: "getBit ind p = (if bit ind p then 1 else 0)"
  by (simp add: getBit_def and_one_eq mod2_eq_if bit_iff_odd_drop_bit)

lemma bit_unat: "bit (w :: u64) p \<longleftrightarrow> odd (unat w div 2 ^ p)"
  by (simp add: bit_unsigned_iff flip: bit_iff_odd)

lemma collectPositions_eq: "collectPositions to n = ones (Suc n) (unat to)"
  by (induction n) (simp_all add: getBit_eq ones_def bit_unat)

lemma getPrefix_eq: "getPrefix ind z = ind AND NOT (mask z)"
proof -
  have "(0 - 1 :: u64) - (push_bit z 1 - 1) = NOT (mask z)"
    by (simp add: not_eq_complement mask_eq_exp_minus_1 push_bit_eq_mult)
  then show ?thesis by (simp add: getPrefix_def)
qed

lemma unat_getPrefix: "unat (getPrefix ind z) = unat ind div 2 ^ z * 2 ^ z"
proof -
  have "unat (getPrefix ind z) = push_bit z (drop_bit z (unat ind))"
    by (rule bit_eqI)
      (auto simp: getPrefix_eq bit_unsigned_iff bit_and_iff bit_not_iff bit_mask_iff
        bit_push_bit_iff bit_drop_bit_eq dest: bit_imp_le_length)
  then show ?thesis by (simp add: push_bit_eq_mult drop_bit_eq_div)
qed

lemma countTrailingZeros_from:
  assumes "2 ^ z dvd unat ind" and "z \<le> maxHeight"
  shows "has_trailing (unat ind) (countTrailingZeros_from ind z)"
  using assms
proof (induction ind z rule: countTrailingZeros_from.induct)
  case (1 ind z)
  show ?case
  proof (cases "z < maxHeight \<and> \<not> bit ind z")
    case True
    then have "even (unat ind div 2 ^ z)" by (simp add: bit_unat)
    with "1.prems" have "2 ^ (z + 1) dvd unat ind"
      by (metis dvd_div_iff_mult mult.commute power_add power_one_right power_not_zero zero_neq_numeral)
    with True "1.IH" show ?thesis
      by (simp add: countTrailingZeros_from.simps [of ind z] getBit_eq)
  next
    case False
    with "1.prems" show ?thesis
      by (auto simp: countTrailingZeros_from.simps [of ind z] getBit_eq has_trailing_def bit_unat)
  qed
qed

lemma has_trailing_ctz: "has_trailing (unat ind) (countTrailingZeros ind)"
  using countTrailingZeros_from [of 0 ind] by (simp add: countTrailingZeros_def)

lemma has_trailing_unique: "has_trailing n y \<Longrightarrow> has_trailing n z \<Longrightarrow> y = z"
proof (induction y z rule: linorder_wlog)
  case (le y z)
  show ?case
  proof (rule ccontr)
    assume "y \<noteq> z"
    with le have "y < z" by simp
    with le have "2 ^ Suc y dvd n"
      by (meson has_trailing_def Suc_leI dvd_trans le_imp_power_dvd)
    then have "even (n div 2 ^ y)"
      by (metis dvd_div_iff_mult dvd_mult_right power_Suc power_not_zero zero_neq_numeral mult.commute)
    with \<open>y < z\<close> le show False by (auto simp: has_trailing_def)
  qed
next
  case (sym y z)
  then show ?case by auto
qed

lemma ctz_eqI: "has_trailing (unat ind) z \<Longrightarrow> countTrailingZeros ind = z"
  using has_trailing_ctz has_trailing_unique by blast

lemma ctz_le: "countTrailingZeros ind \<le> maxHeight"
  using has_trailing_ctz by (auto simp: has_trailing_def)

text \<open>Derivability on numbers.\<close>

definition derivable :: "nat \<Rightarrow> nat \<Rightarrow> nat \<Rightarrow> bool" where
  "derivable z x y \<longleftrightarrow> x = y div 2 ^ z * 2 ^ z"

lemma deriveBitTransformations_eq:
  assumes z: "has_trailing (unat from) z"
  shows "deriveBitTransformations from to =
    (if from = to then Inr []
     else if derivable z (unat from) (unat to) then Inr (ones z (unat to))
     else Inl ErrPrefixesDifferent)"
proof -
  have ctz: "countTrailingZeros from = z" using z by (rule ctz_eqI)
  have prefix: "from = getPrefix to z \<longleftrightarrow> derivable z (unat from) (unat to)"
    by (simp add: word_unat_eq_iff unat_getPrefix derivable_def)
  have nz: "z \<noteq> 0" if "from \<noteq> to" "derivable z (unat from) (unat to)"
  proof
    assume "z = 0"
    with that(2) have "unat from = unat to" by (simp add: derivable_def)
    with that(1) show False by (blast dest: unat_injD)
  qed
  have "collectPositions to ((z + 255) mod 256) = ones z (unat to)" if nz0: "z \<noteq> 0"
  proof -
    obtain k where "z = Suc k" using nz0 by (cases z) simp_all
    moreover have "z \<le> 48" using z by (simp add: has_trailing_def maxHeight_def)
    ultimately have "(z + 255) mod 256 = k" by simp
    then show ?thesis
      using \<open>z = Suc k\<close> by (simp add: collectPositions_eq)
  qed
  then have "from \<noteq> to \<Longrightarrow> derivable z (unat from) (unat to) \<Longrightarrow>
      collectPositions to ((z + 255) mod 256) = ones z (unat to)"
    using nz by blast
  then show ?thesis
    unfolding deriveBitTransformations_def ctz Let_def prefix by simp
qed


lemma even_div_pow:
  assumes "2 ^ z dvd (n :: nat)" and "p < z"
  shows "even (n div 2 ^ p)"
proof -
  obtain c where "n = 2 ^ z * c" using assms(1) by (elim dvdE)
  moreover obtain d where "z = p + Suc d" using assms(2) by (auto simp: less_iff_Suc_add)
  ultimately show ?thesis by (simp add: power_add mult.assoc)
qed

lemma div2_step: "(a :: nat) < b \<Longrightarrow> a div 2 = b div 2 \<Longrightarrow> b = a + 1 \<and> even a"
  by presburger

lemma ones_dvd: "2 ^ z dvd n \<Longrightarrow> ones z n = []"
  by (auto simp: ones_def filter_empty_conv even_div_pow)

lemma rev_upt_split: "k \<le> z \<Longrightarrow> rev [0..<z] = rev [k..<z] @ rev [0..<k]"
  using upt_add_eq_append [of 0 k "z - k"] by simp

lemma ones_compose:
  assumes "k \<le> z" and m: "derivable k m y"
  shows "ones z y = ones z m @ ones k y"
proof -
  have dvd: "2 ^ k dvd m" using m by (simp add: derivable_def)
  have "m div 2 ^ p = y div 2 ^ p" if kp: "k \<le> p" for p
  proof -
    obtain d where "p = k + d" using kp le_Suc_ex by blast
    then show ?thesis using m by (simp add: derivable_def power_add div_mult2_eq)
  qed
  then have "filter (\<lambda>p. odd (y div 2 ^ p)) (rev [k..<z]) = filter (\<lambda>p. odd (m div 2 ^ p)) (rev [k..<z])"
    by (intro filter_cong) auto
  moreover have "filter (\<lambda>p. odd (m div 2 ^ p)) (rev [0..<k]) = []"
    using ones_dvd [OF dvd] by (simp add: ones_def)
  ultimately show ?thesis
    by (simp add: ones_def rev_upt_split [OF assms(1)])
qed

lemma derive_eq:
  assumes "has_trailing (unat (el_index e)) z"
  shows "derive H e t =
    (if derivable z (unat (el_index e)) (unat t)
     then Inr \<lparr>el_index = t, el_hash = foldl (flipAndHash H) (el_hash e) (ones z (unat t))\<rparr>
     else Inl ErrPrefixesDifferent)"
proof -
  have dvd: "2 ^ z dvd unat (el_index e)" using assms by (simp add: has_trailing_def)
  then have "derivable z (unat (el_index e)) (unat (el_index e))"
    by (simp add: derivable_def)
  with dvd show ?thesis
    by (auto simp: derive_def deriveBitTransformations_eq [OF assms] ones_dvd)
qed

lemma checkBuckets_iff:
  "checkBuckets H e bs = Inr () \<longleftrightarrow> (\<forall>b \<in> set bs. derive H e (el_index b) = Inr b)"
  by (induction bs) (auto simp: isEqual_def split: sum.splits)

subsection \<open>The buckets' indexes\<close>

text \<open>\<open>nb n i\<close> is the least index above \<open>n\<close> with exactly \<open>i\<close> trailing zeros: the index
  that bucket \<open>i\<close> holds when \<open>n\<close> is the next index to be added.\<close>

definition nb :: "nat \<Rightarrow> nat \<Rightarrow> nat" where
  "nb n i = (n + 2 ^ i) div 2 ^ Suc i * 2 ^ Suc i + 2 ^ i"

lemma nb_gt: "n < nb n i"
proof -
  have "n + 2 ^ i < (n + 2 ^ i) div 2 ^ Suc i * 2 ^ Suc i + 2 ^ Suc i"
    using dividend_less_div_times [of "2 ^ Suc i" "n + 2 ^ i"] by simp
  then show ?thesis by (simp add: nb_def)
qed

lemma has_trailing_iff_mod:
  assumes "i < maxHeight"
  shows "has_trailing x i \<longleftrightarrow> x mod 2 ^ Suc i = 2 ^ i"
proof -
  have eq: "x mod 2 ^ Suc i = 2 ^ i * (x div 2 ^ i mod 2) + x mod 2 ^ i"
    by (simp only: power_Suc2 mod_mult2_eq)
  have lt: "x mod 2 ^ i < 2 ^ i" by simp
  show ?thesis
  proof (cases "odd (x div 2 ^ i)")
    case True
    then have "x mod 2 ^ Suc i = 2 ^ i + x mod 2 ^ i" unfolding eq by (simp add: odd_iff_mod_2_eq_one)
    with True assms show ?thesis by (simp add: has_trailing_def dvd_eq_mod_eq_0)
  next
    case False
    then have "x mod 2 ^ Suc i = x mod 2 ^ i" unfolding eq by simp
    with False assms less_imp_neq [OF lt] show ?thesis by (simp add: has_trailing_def)
  qed
qed

lemma nb_trailing: "i < maxHeight \<Longrightarrow> has_trailing (nb n i) i"
  by (simp add: has_trailing_iff_mod nb_def)

lemma nb_least:
  assumes "i < maxHeight" and "n < x" and "has_trailing x i"
  shows "nb n i \<le> x"
proof -
  have x: "x = x div 2 ^ Suc i * 2 ^ Suc i + 2 ^ i"
    using assms by (metis has_trailing_iff_mod div_mult_mod_eq)
  have "n + 2 ^ i < Suc (x div 2 ^ Suc i) * 2 ^ Suc i"
    using assms(2) x by simp
  then have "(n + 2 ^ i) div 2 ^ Suc i < Suc (x div 2 ^ Suc i)"
    by (simp add: less_mult_imp_div_less)
  then have "nb n i \<le> x div 2 ^ Suc i * 2 ^ Suc i + 2 ^ i"
    unfolding nb_def by (intro add_right_mono mult_right_mono) simp_all
  also have "\<dots> = x" by (rule x [symmetric])
  finally show ?thesis .
qed

lemma nb_pred:
  assumes "i < maxHeight" and "0 < n"
  shows "nb (n - 1) i = (if has_trailing n i then n else nb n i)"
proof (cases "has_trailing n i")
  case True
  have "nb (n - 1) i \<le> n" using assms True by (intro nb_least) simp_all
  with nb_gt [of "n - 1" i] True show ?thesis using assms by simp
next
  case False
  have tr: "has_trailing (nb m i) i" for m using assms by (simp add: nb_trailing)
  with False have "nb (n - 1) i \<noteq> n" by metis
  with nb_gt [of "n - 1" i] have "n < nb (n - 1) i" using assms by simp
  then have "nb n i \<le> nb (n - 1) i" using assms tr by (intro nb_least)
  moreover have "nb (n - 1) i \<le> nb n i"
    using assms tr nb_gt [of n i] by (intro nb_least) simp_all
  ultimately show ?thesis using False by simp
qed

lemma nb_below:
  assumes "has_trailing n b" and "i < b"
  shows "nb n i = n + 2 ^ i"
proof -
  have "2 ^ Suc i dvd n"
    using assms by (meson has_trailing_def Suc_leI dvd_trans le_imp_power_dvd)
  then obtain k where "n = 2 ^ Suc i * k" by (elim dvdE)
  then show ?thesis by (simp add: nb_def)
qed

lemma nb_covers:
  assumes "n < y"
  obtains i where "derivable i (nb n i) y" and "nb n i \<le> y" and "2 ^ i \<le> y"
proof -
  let ?same = "\<lambda>j. n div 2 ^ j = y div 2 ^ j"
  have "?same y" using assms by (simp add: order.strict_trans less_exp)
  define j where "j = (LEAST j. ?same j)"
  have same: "?same j" unfolding j_def using \<open>?same y\<close> by (rule LeastI)
  have "j \<noteq> 0" using same assms by (metis div_by_1 nat_neq_iff power_0)
  then obtain i where i: "j = Suc i" by (cases j) simp_all
  have "\<not> ?same i" unfolding j_def using i j_def not_less_Least [of i ?same] by simp
  moreover have "n div 2 ^ i \<le> y div 2 ^ i" using assms by (simp add: div_le_mono)
  ultimately have lt: "n div 2 ^ i < y div 2 ^ i" by simp
  have "n div 2 ^ i div 2 = y div 2 ^ i div 2"
    using same unfolding i power_Suc2 div_mult2_eq .
  with lt have yn: "y div 2 ^ i = n div 2 ^ i + 1" and ev: "even (n div 2 ^ i)"
    by (auto dest: div2_step)
  have "(n + 2 ^ i) div 2 ^ Suc i = (n div 2 ^ i + 1) div 2"
    by (simp only: power_Suc2 div_mult2_eq) (simp add: div_add_self2)
  also have "\<dots> = n div 2 ^ i div 2" using ev by simp
  finally have "nb n i = (n div 2 ^ i div 2 * 2 + 1) * 2 ^ i"
    by (simp add: nb_def algebra_simps)
  also have "\<dots> = y div 2 ^ i * 2 ^ i" using ev yn by simp
  finally have d: "derivable i (nb n i) y" by (simp add: derivable_def)
  moreover have "2 ^ i \<le> y" using lt by (metis div_less not_less_zero not_le)
  ultimately show ?thesis using that [of i] by (simp add: derivable_def)
qed


subsection \<open>What the store holds\<close>

text \<open>\<open>hs\<close> lists the hashes added so far, first one first: the entry for index \<open>x\<close> is
  \<open>hashAt hs x\<close>, and the next index to be added is \<open>nextIndex hs\<close>. A history is
  consistent when every entry hashes to every entry derivable from it. The store holds a
  history when bucket \<open>i\<close> has the entry of the least added index with \<open>i\<close> trailing zeros.\<close>

definition topIndex :: nat where
  "topIndex = 281474976710655"

definition nextIndex :: "ShaHash list \<Rightarrow> nat" where
  "nextIndex hs = topIndex - length hs"

definition hashAt :: "ShaHash list \<Rightarrow> nat \<Rightarrow> ShaHash" where
  "hashAt hs x = hs ! (topIndex - x)"

definition consistent :: "(bytes \<Rightarrow> ShaHash) \<Rightarrow> ShaHash list \<Rightarrow> bool" where
  "consistent H hs \<longleftrightarrow>
     (\<forall>x y z. nextIndex hs < x \<and> y \<le> topIndex \<and> has_trailing x z \<and> derivable z x y \<longrightarrow>
        hashAt hs y = foldl (flipAndHash H) (hashAt hs x) (ones z y))"

definition bucketAt :: "ShaHash list \<Rightarrow> nat \<Rightarrow> element" where
  "bucketAt hs i =
     (let x = nb (nextIndex hs) i in \<lparr>el_index = word_of_nat x, el_hash = hashAt hs x\<rparr>)"

definition store_holds :: "(bytes \<Rightarrow> ShaHash) \<Rightarrow> RevocationStore \<Rightarrow> ShaHash list \<Rightarrow> bool" where
  "store_holds H s hs \<longleftrightarrow>
     length hs \<le> topIndex \<and> st_index s = word_of_nat (nextIndex hs) \<and>
     length (buckets s) = maxHeight \<and> lenBuckets s \<le> maxHeight \<and>
     (\<forall>i < maxHeight. i < lenBuckets s \<longleftrightarrow> nb (nextIndex hs) i \<le> topIndex) \<and>
     (\<forall>i < lenBuckets s. buckets s ! i = bucketAt hs i) \<and>
     consistent H hs"

lemma unat_startIndex: "unat startIndex = topIndex"
  by (simp add: startIndex_def maxHeight_def topIndex_def push_bit_eq_mult)

lemma unat_index: "x \<le> topIndex \<Longrightarrow> unat (word_of_nat x :: u64) = x"
  by (simp add: unat_of_nat topIndex_def)

lemma topIndex_less: "x \<le> topIndex \<longleftrightarrow> x < 2 ^ maxHeight"
  by (auto simp: topIndex_def maxHeight_def)

lemma derivable_bounds: "derivable z x y \<Longrightarrow> x \<le> y \<and> y < x + 2 ^ z"
  using dividend_less_div_times [of "2 ^ z" y] by (simp add: derivable_def)

lemma derivable_add:
  assumes "has_trailing x z" and "r < 2 ^ z"
  shows "derivable z x (x + r)"
proof -
  obtain c where "x = 2 ^ z * c" using assms(1) by (auto simp: has_trailing_def)
  with assms(2) show ?thesis by (simp add: derivable_def)
qed

lemma has_trailing_pos_less:
  assumes "has_trailing n b" and "0 < n" and "n \<le> topIndex"
  shows "b < maxHeight" and "n + 2 ^ b \<le> Suc topIndex"
proof -
  obtain c where c: "n = 2 ^ b * c" using assms(1) by (auto simp: has_trailing_def)
  have b: "b \<le> maxHeight" using assms(1) by (simp add: has_trailing_def)
  then obtain d where d: "maxHeight = b + d" using le_Suc_ex by blast
  have top: "Suc topIndex = 2 ^ b * 2 ^ d"
    using d by (simp add: topIndex_def maxHeight_def flip: power_add)
  have "2 ^ b * c < 2 ^ b * (2 ^ d :: nat)" 
    unfolding top [symmetric] c [symmetric] using assms(3) by simp
  then have "c < 2 ^ d" by simp
  then have "2 ^ b * (c + 1) \<le> 2 ^ b * (2 ^ d :: nat)" by (intro mult_left_mono) simp_all
  then show "n + 2 ^ b \<le> Suc topIndex" using c top by simp
  show "b < maxHeight"
    using b d assms(2) c \<open>c < 2 ^ d\<close> by (cases "b = maxHeight") auto
qed

lemma el_index_bucketAt:
  "nb (nextIndex hs) i \<le> topIndex \<Longrightarrow> unat (el_index (bucketAt hs i)) = nb (nextIndex hs) i"
  by (simp add: bucketAt_def Let_def unat_index)

lemma store_holds_new: "store_holds H NewRevocationStore []"
proof -
  have "\<not> nb topIndex i \<le> topIndex" for i
    using nb_gt [of topIndex i] by simp
  moreover have "startIndex = word_of_nat topIndex"
    by (rule unat_injD) (simp add: unat_startIndex unat_index)
  ultimately show ?thesis
    by (auto simp: store_holds_def NewRevocationStore_def nextIndex_def consistent_def
        dest: derivable_bounds)
qed

lemma hashAt_snoc:
  assumes "length hs < topIndex" and "x \<le> topIndex" and "nextIndex hs \<le> x"
  shows "hashAt (hs @ [h]) x = (if x = nextIndex hs then h else hashAt hs x)"
  using assms by (auto simp: hashAt_def nextIndex_def nth_append)

lemma nextIndex_snoc: "nextIndex (hs @ [h]) = nextIndex hs - 1"
  by (simp add: nextIndex_def)

text \<open>A consistent history extended by an entry that hashes to the buckets below it stays
  consistent.\<close>

lemma consistent_snoc:
  assumes c: "consistent H hs" and len: "length hs < topIndex"
    and b: "has_trailing (nextIndex hs) b"
    and chk: "\<And>i. i < b \<Longrightarrow>
      hashAt hs (nextIndex hs + 2 ^ i) = foldl (flipAndHash H) h (ones b (nextIndex hs + 2 ^ i))"
  shows "consistent H (hs @ [h])"
  unfolding consistent_def nextIndex_snoc
proof (intro allI impI, elim conjE)
  fix x y z
  let ?n = "nextIndex hs"
  assume x: "?n - 1 < x" and y: "y \<le> topIndex" and z: "has_trailing x z" and d: "derivable z x y"
  have n: "0 < ?n" "?n \<le> topIndex" using len by (simp_all add: nextIndex_def)
  have xy: "x \<le> y" using derivable_bounds [OF d] by simp
  have at: "hashAt (hs @ [h]) w = (if w = ?n then h else hashAt hs w)" if "x \<le> w" "w \<le> topIndex" for w
    using len that x n by (intro hashAt_snoc) simp_all
  show "hashAt (hs @ [h]) y = foldl (flipAndHash H) (hashAt (hs @ [h]) x) (ones z y)"
  proof (cases "?n < x")
    case True
    then show ?thesis
      using c y z d xy at [of x] at [of y] by (simp add: consistent_def)
  next
    case False
    with x n have xn: "x = ?n" by simp
    with z b have zb: "z = b" using has_trailing_unique by simp
    show ?thesis
    proof (cases "y = ?n")
      case True
      have "ones z y = []" using z True xn by (simp add: ones_dvd has_trailing_def)
      then show ?thesis using True xn at [of x] y xy by simp
    next
      case False
      with xy xn have "?n < y" by simp
      then obtain i where di: "derivable i (nb ?n i) y" and le: "nb ?n i \<le> y" by (rule nb_covers)
      have "i < b"
      proof (rule ccontr)
        assume "\<not> i < b"
        then have "2 ^ b dvd nb ?n i"
          using di by (metis derivable_def dvd_triv_right dvd_trans le_imp_power_dvd not_le)
        moreover have "2 ^ b dvd ?n" using b by (simp add: has_trailing_def)
        ultimately have "2 ^ b dvd nb ?n i - ?n" by (rule dvd_diff_nat)
        then have "2 ^ b \<le> nb ?n i - ?n" using nb_gt [of ?n i] by (intro dvd_imp_le) simp_all
        moreover have "y < ?n + 2 ^ b" using derivable_bounds [OF d] xn zb by simp
        ultimately show False using le nb_gt [of ?n i] by linarith
      qed
      then have m: "nb ?n i = ?n + 2 ^ i" using b by (intro nb_below)
      have "i < maxHeight" using \<open>i < b\<close> b by (simp add: has_trailing_def)
      then have tr: "has_trailing (nb ?n i) i" by (rule nb_trailing)
      have "hashAt hs y = foldl (flipAndHash H) (hashAt hs (nb ?n i)) (ones i y)"
        using c y tr di nb_gt by (simp add: consistent_def)
      also have "\<dots> = foldl (flipAndHash H) h (ones b (nb ?n i) @ ones i y)"
        using chk [OF \<open>i < b\<close>] m by simp
      also have "\<dots> = foldl (flipAndHash H) h (ones b y)"
        using ones_compose [OF less_imp_le [OF \<open>i < b\<close>] di] by simp
      finally show ?thesis
        using at [of y] at [of x] False xn zb y xy by simp
    qed
  qed
qed


text \<open>The loop of \<open>AddNextEntry\<close> accepts exactly the entries that hash to the buckets
  below it.\<close>

lemma AddNextEntry_eq:
  assumes s: "store_holds H s hs" and len: "length hs < topIndex"
    and b: "has_trailing (nextIndex hs) b"
  shows "AddNextEntry H s h =
    (case checkBuckets H \<lparr>el_index = st_index s, el_hash = h\<rparr> (map (bucketAt hs) [0..<b]) of
       Inl err \<Rightarrow> Inl err
     | Inr _ \<Rightarrow> Inr (s\<lparr>buckets := (buckets s)[b := \<lparr>el_index = st_index s, el_hash = h\<rparr>],
                       lenBuckets := max (lenBuckets s) (b + 1),
                       st_index := st_index s - 1\<rparr>))"
    and "checkBuckets H \<lparr>el_index = st_index s, el_hash = h\<rparr> (map (bucketAt hs) [0..<b]) = Inr () \<longleftrightarrow>
      (\<forall>i < b. hashAt hs (nextIndex hs + 2 ^ i) =
        foldl (flipAndHash H) h (ones b (nextIndex hs + 2 ^ i)))"
proof -
  let ?n = "nextIndex hs" and ?e = "\<lparr>el_index = st_index s, el_hash = h\<rparr>"
  have n: "0 < ?n" "?n \<le> topIndex" using len by (simp_all add: nextIndex_def)
  have st: "unat (st_index s) = ?n" using s n by (simp add: store_holds_def unat_index)
  have ctz: "countTrailingZeros (st_index s) = b" using b by (intro ctz_eqI) (simp add: st)
  have bl: "b < maxHeight" and bt: "?n + 2 ^ b \<le> Suc topIndex"
    using has_trailing_pos_less [OF b] n by simp_all
  have below: "nb ?n i = ?n + 2 ^ i \<and> ?n + 2 ^ i \<le> topIndex" if "i < b" for i
  proof
    show "nb ?n i = ?n + 2 ^ i" using b that by (rule nb_below)
    have "(2 :: nat) ^ i < 2 ^ b" using that by simp
    then show "?n + 2 ^ i \<le> topIndex" using bt by linarith
  qed
  have act: "i < lenBuckets s \<and> buckets s ! i = bucketAt hs i" if "i < b" for i
    using s below [OF that] that bl by (simp add: store_holds_def)
  have tk: "take b (buckets s) = map (bucketAt hs) [0..<b]"
    using s bl act by (intro nth_equalityI) (auto simp: store_holds_def)
  have lb: "length (buckets s) = maxHeight" using s by (simp add: store_holds_def)
  have len': "(if lenBuckets s < b + 1 then b + 1 else lenBuckets s) = max (lenBuckets s) (b + 1)"
    by (simp add: max_def)
  show "AddNextEntry H s h =
    (case checkBuckets H ?e (map (bucketAt hs) [0..<b]) of
       Inl err \<Rightarrow> Inl err
     | Inr _ \<Rightarrow> Inr (s\<lparr>buckets := (buckets s)[b := ?e], lenBuckets := max (lenBuckets s) (b + 1),
                       st_index := st_index s - 1\<rparr>))"
    using bl unfolding AddNextEntry_def Let_def element.simps ctz tk len' lb by (simp split: sum.splits)
  have "derive H ?e (el_index (bucketAt hs i)) = Inr (bucketAt hs i) \<longleftrightarrow>
      hashAt hs (?n + 2 ^ i) = foldl (flipAndHash H) h (ones b (?n + 2 ^ i))" if "i < b" for i
  proof -
    have u: "unat (el_index (bucketAt hs i)) = ?n + 2 ^ i"
      using below [OF that] by (simp add: el_index_bucketAt)
    have "derivable b ?n (?n + 2 ^ i)" using b that by (intro derivable_add) simp_all
    then show ?thesis
      using b st u below [OF that]
      by (auto simp: derive_eq [where z = b] bucketAt_def Let_def)
  qed
  then show "checkBuckets H ?e (map (bucketAt hs) [0..<b]) = Inr () \<longleftrightarrow>
      (\<forall>i < b. hashAt hs (?n + 2 ^ i) = foldl (flipAndHash H) h (ones b (?n + 2 ^ i)))"
    by (auto simp: checkBuckets_iff)
qed

lemma store_holds_add:
  assumes s: "store_holds H s hs" and len: "length hs < topIndex" and add: "AddNextEntry H s h = Inr s'"
  shows "store_holds H s' (hs @ [h])"
proof -
  let ?n = "nextIndex hs" and ?e = "\<lparr>el_index = st_index s, el_hash = h\<rparr>"
  have n: "0 < ?n" "?n \<le> topIndex" using len by (simp_all add: nextIndex_def)
  obtain b where b: "has_trailing ?n b"
    using has_trailing_ctz [of "word_of_nat ?n"] unat_index [OF n(2)] by metis
  have bl: "b < maxHeight" and bt: "?n + 2 ^ b \<le> Suc topIndex"
    using has_trailing_pos_less [OF b] n by simp_all
  note eq = AddNextEntry_eq [OF s len b, of h]
  from add have ok: "checkBuckets H ?e (map (bucketAt hs) [0..<b]) = Inr ()"
    and s': "s' = s\<lparr>buckets := (buckets s)[b := ?e], lenBuckets := max (lenBuckets s) (b + 1),
                       st_index := st_index s - 1\<rparr>"
    unfolding eq(1) by (auto split: sum.splits)
  have nb': "nb (?n - 1) i = (if i = b then ?n else nb ?n i)" if "i < maxHeight" for i
    using nb_pred [OF that n(1)] b by (auto dest: has_trailing_unique)
  have low: "nb ?n i \<le> topIndex" if "i < b" for i
  proof -
    have "(2 :: nat) ^ i < 2 ^ b" using that by simp
    then show ?thesis using nb_below [OF b that] bt by linarith
  qed
  have act: "i < lenBuckets s \<longleftrightarrow> nb ?n i \<le> topIndex" if "i < maxHeight" for i
    using s that by (simp add: store_holds_def)
  have bucket_same: "bucketAt (hs @ [h]) i = bucketAt hs i" if "i < maxHeight" "i \<noteq> b" "nb ?n i \<le> topIndex" for i
    using that nb' [of i] len nb_gt [of ?n i]
    by (simp add: bucketAt_def nextIndex_snoc hashAt_snoc)
  have bucket_new: "bucketAt (hs @ [h]) b = ?e"
    using nb' [OF bl] n len s by (simp add: bucketAt_def nextIndex_snoc hashAt_snoc store_holds_def)
  have "consistent H (hs @ [h])"
    using s len b ok unfolding eq(2) by (intro consistent_snoc) (auto simp: store_holds_def)
  moreover have "st_index s - 1 = word_of_nat (?n - 1)"
    using s n by (simp add: store_holds_def)
  moreover have "\<forall>i < maxHeight. i < max (lenBuckets s) (b + 1) \<longleftrightarrow> nb (?n - 1) i \<le> topIndex"
    using nb' act low n by (auto simp: less_max_iff_disj less_Suc_eq)
  moreover have "\<forall>i < max (lenBuckets s) (b + 1). (buckets s)[b := ?e] ! i = bucketAt (hs @ [h]) i"
  proof (intro allI impI)
    fix i assume i: "i < max (lenBuckets s) (b + 1)"
    then have im: "i < maxHeight" using s bl by (auto simp: store_holds_def)
    show "(buckets s)[b := ?e] ! i = bucketAt (hs @ [h]) i"
    proof (cases "i = b")
      case True
      then show ?thesis using bucket_new s bl by (simp add: store_holds_def)
    next
      case False
      then have "nb ?n i \<le> topIndex"
        using i act [OF im] low by (auto simp: less_max_iff_disj less_Suc_eq)
      then show ?thesis
        using False bucket_same [OF im] act [OF im] s by (simp add: store_holds_def)
    qed
  qed
  ultimately show ?thesis
    using s len bl unfolding store_holds_def s' by (simp add: nextIndex_snoc)
qed



lemma store_holds_bucket:
  assumes s: "store_holds H s hs" and i: "i < lenBuckets s"
  shows "i < maxHeight" "i < length (buckets s)" "nb (nextIndex hs) i \<le> topIndex"
    "buckets s ! i = bucketAt hs i"
proof -
  show im: "i < maxHeight" using assms by (simp add: store_holds_def)
  show "i < length (buckets s)" using s im by (simp add: store_holds_def)
  show "nb (nextIndex hs) i \<le> topIndex" using s i im unfolding store_holds_def by blast
  show "buckets s ! i = bucketAt hs i" using assms by (simp add: store_holds_def)
qed

lemma derive_bucket:
  assumes s: "store_holds H s hs" and i: "i < lenBuckets s"
  shows "derive H (buckets s ! i) ind =
    (if derivable i (nb (nextIndex hs) i) (unat ind)
     then Inr \<lparr>el_index = ind,
            el_hash = foldl (flipAndHash H) (hashAt hs (nb (nextIndex hs) i)) (ones i (unat ind))\<rparr>
     else Inl ErrPrefixesDifferent)"
proof -
  have im: "i < maxHeight" and nb: "nb (nextIndex hs) i \<le> topIndex"
    and bk: "buckets s ! i = bucketAt hs i"
    using store_holds_bucket [OF s i] by simp_all
  have "has_trailing (unat (el_index (bucketAt hs i))) i"
    using nb_trailing [OF im] nb by (simp add: el_index_bucketAt)
  then show ?thesis
    unfolding bk by (simp add: derive_eq el_index_bucketAt [OF nb]) (simp add: bucketAt_def Let_def)
qed

lemma LookUp_from_held:
  assumes s: "store_holds H s hs" and y: "nextIndex hs < unat ind" "unat ind \<le> topIndex"
    and "j < lenBuckets s" and "i \<le> j" and "derivable j (nb (nextIndex hs) j) (unat ind)"
  shows "LookUp_from H s ind i = Inr (hashAt hs (unat ind))"
  using assms(4-6)
proof (induction "lenBuckets s - i" arbitrary: i)
  case 0
  then show ?case by simp
next
  case (Suc m)
  then have i: "i < lenBuckets s" by simp
  have il: "i < length (buckets s)" using store_holds_bucket [OF s i] by simp
  show ?case
  proof (cases "derivable i (nb (nextIndex hs) i) (unat ind)")
    case True
    have "i < maxHeight" using s i by (simp add: store_holds_def)
    then have "hashAt hs (unat ind) =
        foldl (flipAndHash H) (hashAt hs (nb (nextIndex hs) i)) (ones i (unat ind))"
      using s y(2) True nb_trailing nb_gt by (auto simp: store_holds_def consistent_def)
    then show ?thesis
      using i il True by (simp add: LookUp_from.simps [of H s ind i] derive_bucket [OF s])
  next
    case False
    then have "i \<noteq> j" using Suc.prems by metis
    then have "LookUp_from H s ind (i + 1) = Inr (hashAt hs (unat ind))"
      using Suc.prems Suc.hyps by (intro Suc.hyps(1)) simp_all
    then show ?thesis
      using i il False by (simp add: LookUp_from.simps [of H s ind i] derive_bucket [OF s])
  qed
qed

lemma LookUp_from_fresh:
  assumes s: "store_holds H s hs"
    and no: "\<And>j. j < lenBuckets s \<Longrightarrow> \<not> derivable j (nb (nextIndex hs) j) (unat ind)"
  shows "LookUp_from H s ind i = Inl (ErrUnableToDerive ind)"
proof (induction "lenBuckets s - i" arbitrary: i)
  case 0
  then show ?case by (simp add: LookUp_from.simps [of H s ind i])
next
  case (Suc m)
  then have i: "i < lenBuckets s" by simp
  have il: "i < length (buckets s)" using store_holds_bucket [OF s i] by simp
  have "LookUp_from H s ind (i + 1) = Inl (ErrUnableToDerive ind)"
    using Suc.hyps by (intro Suc.hyps(1)) simp_all
  then show ?case
    using i il no [OF i] by (simp add: LookUp_from.simps [of H s ind i] derive_bucket [OF s])
qed

lemma unat_newIndex:
  "unat (newIndex v) =
     (if unat v \<le> topIndex then topIndex - unat v else topIndex + 2 ^ 64 - unat v)"
  by (simp add: newIndex_def unat_sub_if_size unat_startIndex word_size)

lemma LookUp_held:
  assumes s: "store_holds H s hs" and v: "unat v < length hs"
  shows "LookUp H s v = Inr (hs ! unat v)"
proof -
  let ?y = "unat (newIndex v)"
  have len: "length hs \<le> topIndex" using s by (simp add: store_holds_def)
  with v have y: "?y = topIndex - unat v" by (simp add: unat_newIndex)
  then have ny: "nextIndex hs < ?y" and yt: "?y \<le> topIndex"
    using v len by (simp_all add: nextIndex_def)
  obtain j where j: "derivable j (nb (nextIndex hs) j) ?y" "nb (nextIndex hs) j \<le> ?y" "2 ^ j \<le> ?y"
    using ny by (rule nb_covers)
  have "(2 :: nat) ^ j < 2 ^ maxHeight" using j(3) yt unfolding topIndex_less by (rule le_less_trans)
  then have "j < maxHeight" by simp
  then have "j < lenBuckets s" using s j(2) yt by (simp add: store_holds_def)
  then have "LookUp H s v = Inr (hashAt hs ?y)"
    unfolding LookUp_def using s ny yt j(1) by (intro LookUp_from_held) simp_all
  moreover have "hashAt hs ?y = hs ! unat v" using y v len by (simp add: hashAt_def)
  ultimately show ?thesis by simp
qed

lemma LookUp_fresh:
  assumes s: "store_holds H s hs" and v: "length hs \<le> unat v"
  shows "LookUp H s v = Inl (ErrUnableToDerive (newIndex v))"
  unfolding LookUp_def
proof (rule LookUp_from_fresh [OF s])
  fix j assume j: "j < lenBuckets s"
  let ?y = "unat (newIndex v)" and ?x = "nb (nextIndex hs) j"
  have jm: "j < maxHeight" and xt: "?x \<le> topIndex" and len: "length hs \<le> topIndex"
    using store_holds_bucket [OF s j] s by (simp_all add: store_holds_def)
  show "\<not> derivable j ?x ?y"
  proof
    assume d: "derivable j ?x ?y"
    note bounds = derivable_bounds [OF d]
    show False
    proof (cases "unat v \<le> topIndex")
      case True
      then have "?y \<le> nextIndex hs" using v by (simp add: unat_newIndex nextIndex_def)
      with bounds nb_gt [of "nextIndex hs" j] show False by simp
    next
      case False
      then have "Suc topIndex \<le> ?y"
        using unat_less_u64 [of v] by (simp add: unat_newIndex topIndex_def)
      moreover have "?x + 2 ^ j \<le> Suc topIndex"
        using nb_trailing [OF jm] xt nb_gt [of "nextIndex hs" j]
        by (intro has_trailing_pos_less(2)) simp_all
      ultimately show False using bounds by simp
    qed
  qed
qed

lemma AddNextEntry_full:
  assumes s: "store_holds H s hs" and len: "length hs = topIndex"
  shows "\<exists>err. AddNextEntry H s h = Inl err"
proof -
  have "st_index s = 0" and lb: "length (buckets s) = maxHeight"
    using s len by (simp_all add: store_holds_def nextIndex_def)
  moreover have "countTrailingZeros 0 = maxHeight"
    by (rule ctz_eqI) (simp add: has_trailing_def)
  ultimately show ?thesis
    by (cases "checkBuckets H \<lparr>el_index = 0, el_hash = h\<rparr> (buckets s)")
      (simp_all add: AddNextEntry_def Let_def)
qed

lemma store_holds_step:
  assumes s: "store_holds H s hs" and add: "AddNextEntry H s h = Inr s'"
  shows "store_holds H s' (hs @ [h])"
proof -
  have "length hs \<le> topIndex" using s by (simp add: store_holds_def)
  moreover have "length hs \<noteq> topIndex" using AddNextEntry_full [OF s, of h] add by auto
  ultimately show ?thesis using store_holds_add [OF s _ add] by simp
qed

subsection \<open>The contract of a secret store\<close>

text \<open>Adding a list of hashes, stopping at the first error.\<close>

fun addAll :: "('s \<Rightarrow> 'h \<Rightarrow> 'e + 's) \<Rightarrow> 's \<Rightarrow> 'h list \<Rightarrow> 'e + 's" where
  "addAll add s [] = Inr s"
| "addAll add s (h # hs) = bindR (add s h) (\<lambda>s'. addAll add s' hs)"

locale secret_store =
  fixes new :: 's
    and add :: "'s \<Rightarrow> 'h \<Rightarrow> 'e + 's"
    and look :: "'s \<Rightarrow> u64 \<Rightarrow> 'e + 'h"
    and holds :: "'s \<Rightarrow> 'h list \<Rightarrow> bool"
  assumes holds_new: "holds new []"
    and holds_add: "holds s hs \<Longrightarrow> add s h = Inr s' \<Longrightarrow> holds s' (hs @ [h])"
    and look_held: "holds s hs \<Longrightarrow> unat v < length hs \<Longrightarrow> look s v = Inr (hs ! unat v)"
    and look_fresh: "holds s hs \<Longrightarrow> length hs \<le> unat v \<Longrightarrow> \<exists>err. look s v = Inl err"
begin

lemma holds_addAll: "holds s gs \<Longrightarrow> addAll add s hs = Inr s' \<Longrightarrow> holds s' (gs @ hs)"
proof (induction hs arbitrary: s gs)
  case Nil
  then show ?case by simp
next
  case (Cons h hs)
  then obtain t where "add s h = Inr t" and "addAll add t hs = Inr s'" by auto
  with Cons show ?case using holds_add [of s gs h t] by force
qed

lemma holds_addAll_new: "addAll add new hs = Inr s \<Longrightarrow> holds s hs"
  using holds_addAll [OF holds_new] by simp

lemma look_iff:
  assumes "addAll add new hs = Inr s"
  shows "look s v = Inr h \<longleftrightarrow> unat v < length hs \<and> h = hs ! unat v"
proof (cases "unat v < length hs")
  case True
  then show ?thesis using look_held [OF holds_addAll_new [OF assms]] by auto
next
  case False
  then show ?thesis using look_fresh [OF holds_addAll_new [OF assms], of v] by auto
qed

lemma look_stable:
  assumes "addAll add new hs = Inr s" and "addAll add s gs = Inr t" and "look s v = Inr h"
  shows "look t v = Inr h"
proof -
  have "unat v < length hs" and h: "h = hs ! unat v" using assms look_iff by blast+
  moreover have "holds t (hs @ gs)"
    using holds_addAll [OF holds_addAll_new [OF assms(1)] assms(2)] .
  ultimately show ?thesis using look_held [of t "hs @ gs" v] by (simp add: nth_append)
qed

end

interpretation revocation: secret_store NewRevocationStore "AddNextEntry H" "LookUp H" "store_holds H" for H
proof
  show "store_holds H NewRevocationStore []" by (rule store_holds_new)
qed (auto intro: store_holds_step LookUp_held dest: LookUp_fresh)



subsection \<open>The producer's secrets\<close>

lemma has_trailing_0: "has_trailing 0 maxHeight"
  by (simp add: has_trailing_def)

lemma AtIndex_eq:
  "AtIndex H (NewRevocationProducer r) v =
     (if unat v \<le> topIndex
      then Inr (foldl (flipAndHash H) r (ones maxHeight (topIndex - unat v)))
      else Inl ErrPrefixesDifferent)"
proof -
  let ?y = "unat (newIndex v)"
  have "derivable maxHeight 0 ?y \<longleftrightarrow> unat v \<le> topIndex"
  proof (cases "unat v \<le> topIndex")
    case True
    then have "?y \<le> topIndex" by (simp add: unat_newIndex)
    then have "?y < 2 ^ maxHeight" unfolding topIndex_less .
    with True show ?thesis by (simp add: derivable_def)
  next
    case False
    then have "2 ^ maxHeight \<le> ?y"
      using unat_less_u64 [of v] by (simp add: unat_newIndex topIndex_def maxHeight_def)
    with False show ?thesis by (simp add: derivable_def div_eq_0_iff)
  qed
  then show ?thesis
    by (auto simp: AtIndex_def NewRevocationProducer_def rootIndex_def unat_newIndex
        derive_eq [where z = maxHeight] has_trailing_0)
qed

lemma addAll_snoc: "addAll add s (hs @ [h]) = bindR (addAll add s hs) (\<lambda>t. add t h)"
  by (induction hs arbitrary: s) (auto simp: bindR_def split: sum.splits)

text \<open>The store accepts every secret of a producer, in order.\<close>

lemma AddNextEntry_accepts:
  assumes s: "store_holds H s hs" and len: "length hs < topIndex"
    and prod: "\<And>x. nextIndex hs < x \<Longrightarrow> x \<le> topIndex \<Longrightarrow>
      hashAt hs x = foldl (flipAndHash H) r (ones maxHeight x)"
    and h: "h = foldl (flipAndHash H) r (ones maxHeight (nextIndex hs))"
  shows "\<exists>s'. AddNextEntry H s h = Inr s'"
proof -
  let ?n = "nextIndex hs"
  have n: "0 < ?n" "?n \<le> topIndex" using len by (simp_all add: nextIndex_def)
  obtain b where b: "has_trailing ?n b"
    using has_trailing_ctz [of "word_of_nat ?n"] unat_index [OF n(2)] by metis
  have bl: "b < maxHeight" and bt: "?n + 2 ^ b \<le> Suc topIndex"
    using has_trailing_pos_less [OF b] n by simp_all
  have "hashAt hs (?n + 2 ^ i) = foldl (flipAndHash H) h (ones b (?n + 2 ^ i))" if "i < b" for i
  proof -
    have lt: "(2 :: nat) ^ i < 2 ^ b" using that by simp
    then have "?n + 2 ^ i \<le> topIndex" using bt by linarith
    then have "hashAt hs (?n + 2 ^ i) = foldl (flipAndHash H) r (ones maxHeight (?n + 2 ^ i))"
      by (intro prod) simp_all
    also have "ones maxHeight (?n + 2 ^ i) = ones maxHeight ?n @ ones b (?n + 2 ^ i)"
      using bl derivable_add [OF b lt] by (intro ones_compose) simp_all
    finally show ?thesis by (simp add: h)
  qed
  then show ?thesis
    using AddNextEntry_eq [OF s len b, of h] by auto
qed

lemma addAll_producer:
  assumes "length hs \<le> topIndex"
    and "\<And>k. k < length hs \<Longrightarrow> AtIndex H (NewRevocationProducer r) (word_of_nat k) = Inr (hs ! k)"
  shows "\<exists>s. addAll (AddNextEntry H) NewRevocationStore hs = Inr s"
  using assms
proof (induction hs rule: rev_induct)
  case Nil
  then show ?case by simp
next
  case (snoc h hs)
  have at: "(hs @ [h]) ! k = foldl (flipAndHash H) r (ones maxHeight (topIndex - k))"
    if "k < length (hs @ [h])" for k
  proof -
    have "k \<le> topIndex" using that snoc.prems(1) by simp
    then show ?thesis using snoc.prems(2) [OF that] by (simp add: AtIndex_eq unat_index)
  qed
  have "AtIndex H (NewRevocationProducer r) (word_of_nat k) = Inr (hs ! k)" if "k < length hs" for k
    using snoc.prems(2) [of k] that by (simp add: nth_append)
  then obtain s where s: "addAll (AddNextEntry H) NewRevocationStore hs = Inr s"
    using snoc.IH snoc.prems(1) by auto
  then have holds: "store_holds H s hs" by (rule revocation.holds_addAll_new)
  have prod: "hashAt hs x = foldl (flipAndHash H) r (ones maxHeight x)"
    if "nextIndex hs < x" "x \<le> topIndex" for x
  proof -
    have "topIndex - x < length hs" using that by (simp add: nextIndex_def)
    then show ?thesis using at [of "topIndex - x"] that by (simp add: hashAt_def nth_append)
  qed
  have last: "h = foldl (flipAndHash H) r (ones maxHeight (nextIndex hs))"
    using at [of "length hs"] by (simp add: nextIndex_def)
  have "length hs < topIndex" using snoc.prems(1) by simp
  then obtain s' where "AddNextEntry H s h = Inr s'"
    using AddNextEntry_accepts [OF holds _ prod last] by blast
  then show ?case by (simp add: addAll_snoc s)
qed

subsection \<open>Serialization\<close>

definition wf_store :: "RevocationStore \<Rightarrow> bool" where
  "wf_store s \<longleftrightarrow>
     length (buckets s) = maxHeight \<and> lenBuckets s \<le> maxHeight \<and>
     (\<forall>e \<in> set (buckets s). length (el_hash e) = HashSize) \<and>
     drop (lenBuckets s) (buckets s) = replicate (maxHeight - lenBuckets s) zeroElement"

lemma wf_store_new: "wf_store NewRevocationStore"
  by (simp add: wf_store_def NewRevocationStore_def zeroElement_def)

lemma wf_store_add:
  assumes "wf_store s" and "length h = HashSize" and "AddNextEntry H s h = Inr s'"
  shows "wf_store s'"
proof -
  let ?b = "countTrailingZeros (st_index s)" and ?e = "\<lparr>el_index = st_index s, el_hash = h\<rparr>"
  have b: "?b < maxHeight"
    and s': "s' = s\<lparr>buckets := (buckets s)[?b := ?e], lenBuckets := max (lenBuckets s) (?b + 1),
                 st_index := st_index s - 1\<rparr>"
    using assms by (auto simp: AddNextEntry_def Let_def wf_store_def max_def split: sum.splits if_splits)
  have "drop (max (lenBuckets s) (?b + 1)) (buckets s) =
      replicate (maxHeight - max (lenBuckets s) (?b + 1)) zeroElement"
  proof -
    have "drop (max (lenBuckets s) (?b + 1)) (buckets s) =
        drop (max (lenBuckets s) (?b + 1) - lenBuckets s) (drop (lenBuckets s) (buckets s))"
      by (simp add: max_def)
    also have "\<dots> = replicate (maxHeight - max (lenBuckets s) (?b + 1)) zeroElement"
      using assms(1) by (simp add: wf_store_def max_def)
    finally show ?thesis .
  qed
  moreover have "\<forall>e \<in> set ((buckets s)[?b := ?e]). length (el_hash e) = HashSize"
    using assms set_update_subset_insert [of "buckets s" ?b ?e] by (auto simp: wf_store_def)
  ultimately show ?thesis
    using assms(1) b unfolding s' by (auto simp: wf_store_def drop_update_cancel)
qed

lemma wf_store_addAll:
  "wf_store s \<Longrightarrow> \<forall>h \<in> set hs. length h = HashSize \<Longrightarrow> addAll (AddNextEntry H) s hs = Inr s' \<Longrightarrow> wf_store s'"
  by (induction hs arbitrary: s) (auto simp: bindR_Inr_iff intro: wf_store_add)

lemma readBuckets_encode:
  assumes "\<forall>e \<in> set es. length (el_hash e) = HashSize" and "i + length es \<le> length bks"
  shows "readBuckets (length es) i bks (concat (map encodeElement es) @ rest) =
    Inr (take i bks @ es @ drop (i + length es) bks, rest)"
  using assms
proof (induction es arbitrary: i bks)
  case Nil
  then show ?case by simp
next
  case (Cons e es)
  have "unat (el_index e) < 256 ^ 8" using unat_less_u64 [of "el_index e"] by simp
  then have "readBuckets (length (e # es)) i bks (concat (map encodeElement (e # es)) @ rest) =
      readBuckets (length es) (i + 1) (bks[i := e]) (concat (map encodeElement es) @ rest)"
    using Cons.prems by (cases e) (simp add: encodeElement_def)
  also have "\<dots> = Inr (take (i + 1) (bks[i := e]) @ es @ drop (i + 1 + length es) (bks[i := e]), rest)"
    using Cons.prems by (intro Cons.IH) auto
  also have "take (i + 1) (bks[i := e]) = take i bks @ [e]"
    using Cons.prems by (simp add: take_Suc_conv_app_nth)
  finally show ?case using Cons.prems by (simp add: drop_update_cancel)
qed

lemma StoreEncode_eq:
  "lenBuckets s \<le> length (buckets s) \<Longrightarrow>
   StoreEncode s = [word_of_nat (lenBuckets s)] @ concat (map encodeElement (take (lenBuckets s) (buckets s)))
     @ be_bytes 8 (unat (st_index s))"
  by (simp add: StoreEncode_def map_nth_take)

lemma store_roundtrip:
  assumes "wf_store s"
  shows "NewRevocationStoreFromBytes (StoreEncode s @ rest) = Inr (s, rest)"
proof -
  let ?n = "lenBuckets s" and ?es = "take (lenBuckets s) (buckets s)"
  have n: "?n \<le> 48" and lb: "length (buckets s) = 48" using assms by (simp_all add: wf_store_def maxHeight_def)
  have lv: "be_val [word_of_nat ?n] = ?n" using n by (simp add: be_val_def unat_of_nat)
  have "readBuckets (length ?es) 0 (replicate maxHeight zeroElement)
      (concat (map encodeElement ?es) @ be_bytes 8 (unat (st_index s)) @ rest) =
      Inr (?es @ drop ?n (replicate maxHeight zeroElement), be_bytes 8 (unat (st_index s)) @ rest)"
    using assms n lb readBuckets_encode [of ?es 0 "replicate maxHeight zeroElement"]
    by (auto simp: wf_store_def dest: in_set_takeD)
  moreover have "?es @ drop ?n (replicate maxHeight zeroElement) = buckets s"
    using assms append_take_drop_id [of ?n "buckets s"] by (simp add: wf_store_def)
  moreover have "be_val (be_bytes 8 (unat (st_index s))) = unat (st_index s)"
    using unat_less_u64 [of "st_index s"] by simp
  ultimately show ?thesis
    using n lb by (simp add: NewRevocationStoreFromBytes_def StoreEncode_eq lv)
qed


subsection \<open>Properties\<close>

text \<open>C11. After any sequence of successful \<open>AddNextEntry\<close> calls on a new store, with hashes
  chosen by anyone, \<open>LookUp v\<close> returns exactly the hash that was added as number \<open>v\<close>, and an
  error for every number not yet added: the 48 buckets lose nothing and invent nothing.\<close>

theorem store_lookup_exact:
  assumes "addAll (AddNextEntry H) NewRevocationStore hs = Inr s"
  shows "LookUp H s v = Inr h \<longleftrightarrow> unat v < length hs \<and> h = hs ! unat v"
  using assms by (rule revocation.look_iff)

theorem store_lookup_exact_witness:
  "\<exists>s. addAll (AddNextEntry (\<lambda>b. b)) NewRevocationStore [1 # replicate 31 0, replicate 32 0] = Inr s \<and>
     LookUp (\<lambda>b. b) s 0 = Inr (1 # replicate 31 0)"
proof -
  have "\<not> isl (addAll (AddNextEntry (\<lambda>b. b)) NewRevocationStore [1 # replicate 31 0, replicate 32 0])"
    by code_simp
  then obtain s where s: "addAll (AddNextEntry (\<lambda>b. b)) NewRevocationStore [1 # replicate 31 0, replicate 32 0] = Inr s"
    by (rule not_isl_obtain)
  show ?thesis using s store_lookup_exact [OF s, of 0 "1 # replicate 31 0"] by simp
qed

text \<open>C26. A store that is fed a producer's secrets in order accepts all of the first
  \<open>2^48 - 1\<close> of them, and looking one up gives what the producer gives.\<close>

theorem producer_store_agree:
  assumes "length hs \<le> topIndex"
    and "\<forall>k < length hs. AtIndex H (NewRevocationProducer r) (word_of_nat k) = Inr (hs ! k)"
  shows "\<exists>s. addAll (AddNextEntry H) NewRevocationStore hs = Inr s \<and>
    (\<forall>v. unat v < length hs \<longrightarrow> LookUp H s v = AtIndex H (NewRevocationProducer r) v)"
proof -
  obtain s where s: "addAll (AddNextEntry H) NewRevocationStore hs = Inr s"
    using addAll_producer [of hs H r] assms by blast
  have "LookUp H s v = AtIndex H (NewRevocationProducer r) v" if "unat v < length hs" for v
    using LookUp_held [OF revocation.holds_addAll_new [OF s] that] assms(2) that
    by (metis of_nat_unat ucast_id)
  with s show ?thesis by blast
qed

theorem producer_store_agree_witness:
  "\<exists>s. addAll (AddNextEntry (\<lambda>b. b)) NewRevocationStore
        [replicate 6 255 @ replicate 26 0, 254 # replicate 5 255 @ replicate 26 0] = Inr s \<and>
     LookUp (\<lambda>b. b) s 1 = AtIndex (\<lambda>b. b) (NewRevocationProducer (replicate 32 0)) 1"
proof -
  let ?hs = "[replicate 6 255 @ replicate 26 0, 254 # replicate 5 255 @ replicate 26 0] :: bytes list"
  have len: "length ?hs \<le> topIndex" by (simp add: topIndex_def)
  have "AtIndex (\<lambda>b. b) (NewRevocationProducer (replicate 32 0)) 0 = Inr (?hs ! 0)" by code_simp
  moreover have "AtIndex (\<lambda>b. b) (NewRevocationProducer (replicate 32 0)) 1 = Inr (?hs ! 1)" by code_simp
  ultimately have prod: "\<forall>k < length ?hs.
      AtIndex (\<lambda>b. b) (NewRevocationProducer (replicate 32 0)) (word_of_nat k) = Inr (?hs ! k)"
    by (simp add: less_Suc_eq numeral_2_eq_2)
  show ?thesis using producer_store_agree [OF len prod] by auto
qed

text \<open>C33. A store built from 32-byte hashes is written and read back unchanged, whatever
  follows it in the stream.\<close>

theorem store_encode_decode:
  assumes "addAll (AddNextEntry H) NewRevocationStore hs = Inr s"
    and "\<forall>h \<in> set hs. length h = HashSize"
  shows "NewRevocationStoreFromBytes (StoreEncode s @ rest) = Inr (s, rest)"
  using wf_store_addAll [OF wf_store_new assms(2,1)] by (rule store_roundtrip)

theorem store_encode_decode_witness:
  "\<exists>s. addAll (AddNextEntry (\<lambda>b. b)) NewRevocationStore [1 # replicate 31 0, replicate 32 0] = Inr s \<and>
     NewRevocationStoreFromBytes (StoreEncode s @ [7]) = Inr (s, [7])"
proof -
  let ?hs = "[1 # replicate 31 0, replicate 32 0] :: bytes list"
  have "\<not> isl (addAll (AddNextEntry (\<lambda>b. b)) NewRevocationStore ?hs)" by code_simp
  then obtain s where s: "addAll (AddNextEntry (\<lambda>b. b)) NewRevocationStore ?hs = Inr s"
    by (rule not_isl_obtain)
  have "\<forall>h \<in> set ?hs. length h = HashSize" by (simp add: HashSize_def)
  then show ?thesis using s store_encode_decode [OF s] by blast
qed

end
