(* ===== verification/Commitments.thy ===== *)
theory Commitments
  imports HtlcView Sizes Shachain
begin

text \<open>
  Package \<^verbatim>\<open>lnwallet\<close>: the channel's static configuration (from package
  \<^verbatim>\<open>channeldb\<close>), fee and dust rules and the unsigned commitment transaction
  (\<^verbatim>\<open>commitment.go\<close>), and the commitments and commitment chains of
  \<^verbatim>\<open>channel.go\<close>. A transaction is the list of its outputs, each with its value and
  what it pays to; scripts are not modelled. The record \<open>txEnv\<close> holds the code behind it that
  is a parameter here: \<open>txChecks\<close> is true where script building, the state hint and the
  consensus check of the transaction succeed, and \<open>txSerializeSize\<close> is the wire library's size.
\<close>

unbundle bit_operations_syntax

subsection \<open>Channel types and configuration\<close>

type_synonym ChannelType = u8

definition DualFunderBit :: ChannelType where
  "DualFunderBit = 1"

definition SingleFunderTweaklessBit :: ChannelType where
  "SingleFunderTweaklessBit = 2"

definition NoFundingTxBit :: ChannelType where
  "NoFundingTxBit = 4"

definition AnchorOutputsBit :: ChannelType where
  "AnchorOutputsBit = 8"

definition FrozenBit :: ChannelType where
  "FrozenBit = 16"

definition ZeroHtlcTxFeeBit :: ChannelType where
  "ZeroHtlcTxFeeBit = 32"

definition LeaseExpirationBit :: ChannelType where
  "LeaseExpirationBit = 64"

definition IsSingleFunder :: "ChannelType \<Rightarrow> bool" where
  "IsSingleFunder c \<longleftrightarrow> c AND DualFunderBit = 0"

definition IsDualFunder :: "ChannelType \<Rightarrow> bool" where
  "IsDualFunder c \<longleftrightarrow> c AND DualFunderBit = DualFunderBit"

definition IsTweakless :: "ChannelType \<Rightarrow> bool" where
  "IsTweakless c \<longleftrightarrow> c AND SingleFunderTweaklessBit = SingleFunderTweaklessBit"

definition HasFundingTx :: "ChannelType \<Rightarrow> bool" where
  "HasFundingTx c \<longleftrightarrow> c AND NoFundingTxBit = 0"

definition HasAnchors :: "ChannelType \<Rightarrow> bool" where
  "HasAnchors c \<longleftrightarrow> c AND AnchorOutputsBit = AnchorOutputsBit"

definition ZeroHtlcTxFee :: "ChannelType \<Rightarrow> bool" where
  "ZeroHtlcTxFee c \<longleftrightarrow> c AND ZeroHtlcTxFeeBit = ZeroHtlcTxFeeBit"

definition IsFrozen :: "ChannelType \<Rightarrow> bool" where
  "IsFrozen c \<longleftrightarrow> c AND FrozenBit = FrozenBit"

definition HasLeaseExpiration :: "ChannelType \<Rightarrow> bool" where
  "HasLeaseExpiration c \<longleftrightarrow> c AND LeaseExpirationBit = LeaseExpirationBit"

record ChannelConfig =
  DustLimit :: Atoms
  ChanReserve :: Atoms
  MaxPendingAmount :: u64
  MinHTLC :: u64
  MaxAcceptedHtlcs :: u16

subsection \<open>Fees and dust\<close>

definition FeePerKBFloor :: Atoms where
  "FeePerKBFloor = 10000"

definition anchorSize :: Atoms where
  "anchorSize = 12060"

text \<open>Go's integer division rounds towards zero.\<close>

definition goDiv :: "int \<Rightarrow> int \<Rightarrow> int" where
  "goDiv x y = (if x < 0 then - ((- x) div y) else x div y)"

definition FeeForSize :: "Atoms \<Rightarrow> int \<Rightarrow> Atoms" where
  "FeeForSize s bytes = goDiv (i64 (s * bytes)) 1000"

definition CommitSize :: "ChannelType \<Rightarrow> int" where
  "CommitSize chanType =
     (if HasAnchors chanType then CommitmentWithAnchorsTxSize else CommitmentTxSize)"

definition HtlcTimeoutFee :: "ChannelType \<Rightarrow> Atoms \<Rightarrow> Atoms" where
  "HtlcTimeoutFee chanType fee =
     (if ZeroHtlcTxFee chanType then 0
      else if HasAnchors chanType then FeeForSize fee HTLCTimeoutConfirmedTxSize
      else FeeForSize fee HTLCTimeoutTxSize)"

definition HtlcSuccessFee :: "ChannelType \<Rightarrow> Atoms \<Rightarrow> Atoms" where
  "HtlcSuccessFee chanType fee =
     (if ZeroHtlcTxFee chanType then 0
      else if HasAnchors chanType then FeeForSize fee HTLCSuccessConfirmedTxSize
      else FeeForSize fee HTLCSuccessTxSize)"

definition HtlcIsDust :: "ChannelType \<Rightarrow> bool \<Rightarrow> bool \<Rightarrow> Atoms \<Rightarrow> Atoms \<Rightarrow> Atoms \<Rightarrow> bool" where
  "HtlcIsDust chanType incoming ourCommit fee htlcAmt dustLimit =
     (let htlcFee =
        (if incoming \<and> ourCommit then HtlcSuccessFee chanType fee
         else if incoming \<and> \<not> ourCommit then HtlcTimeoutFee chanType fee
         else if \<not> incoming \<and> ourCommit then HtlcTimeoutFee chanType fee
         else HtlcSuccessFee chanType fee)
      in i64 (htlcAmt - htlcFee) < dustLimit)"

subsection \<open>Commitments and their chains\<close>

datatype txOutKind =
    OutToLocal
  | OutToRemote
  | OutLocalAnchor
  | OutRemoteAnchor
  | OutHtlc bool PaymentDescriptor

type_synonym commitTx = "(Atoms \<times> txOutKind) list"

record commitment =
  height :: u64
  isOurs :: bool
  ourMessageIndex :: u64
  theirMessageIndex :: u64
  ourHtlcIndex :: u64
  theirHtlcIndex :: u64
  txn :: commitTx
  ourBalance :: u64
  theirBalance :: u64
  fee :: Atoms
  c_feePerKB :: Atoms
  dustLimit :: Atoms
  outgoingHTLCs :: "PaymentDescriptor list"
  incomingHTLCs :: "PaymentDescriptor list"

text \<open>A chain lists its commitments from the tail to the tip. It is never empty while the
  channel is in use (lemma \<open>reachable_inv\<close> of the channel), so \<open>tip\<close> and \<open>tail\<close> are
  only read where they exist.\<close>

type_synonym commitmentChain = "commitment list"

definition newCommitmentChain :: commitmentChain where
  "newCommitmentChain = []"

definition addCommitment :: "commitmentChain \<Rightarrow> commitment \<Rightarrow> commitmentChain" where
  "addCommitment s c = s @ [c]"

definition advanceTail :: "commitmentChain \<Rightarrow> commitmentChain" where
  "advanceTail s = tl s"

definition tip :: "commitmentChain \<Rightarrow> commitment" where
  "tip s = last s"

definition tail :: "commitmentChain \<Rightarrow> commitment" where
  "tail s = hd s"

definition hasUnackedCommitment :: "commitmentChain \<Rightarrow> bool" where
  "hasUnackedCommitment s \<longleftrightarrow> 2 \<le> length s"

subsection \<open>The unsigned commitment transaction\<close>

record OpenChannel =
  ChanType :: ChannelType
  IsInitiator :: bool
  Capacity :: Atoms
  LocalChanCfg :: ChannelConfig
  RemoteChanCfg :: ChannelConfig
  TotalMAtomsSent :: u64
  TotalMAtomsReceived :: u64
  LocalCommitment :: commitment
  RemoteCommitment :: commitment
  RemoteCurrentRevocation :: "bytes option"
  RemoteNextRevocation :: "bytes option"
  chanProducer :: RevocationProducer
  chanStore :: RevocationStore

record txEnv =
  txChecks :: "bool \<Rightarrow> u64 \<Rightarrow> commitTx \<Rightarrow> bool"
  txSerializeSize :: "commitTx \<Rightarrow> int"

datatype commit_error = ErrTxChecks | ErrOverdraw Atoms

record unsignedCommitmentTx =
  u_txn :: commitTx
  u_fee :: Atoms
  u_ourBalance :: u64
  u_theirBalance :: u64

definition CreateCommitTx ::
  "ChannelType \<Rightarrow> ChannelConfig \<Rightarrow> Atoms \<Rightarrow> Atoms \<Rightarrow> int \<Rightarrow> commitTx" where
  "CreateCommitTx chanType localChanCfg amountToLocal amountToRemote numHTLCs =
     (let localOutput = amountToLocal \<ge> DustLimit localChanCfg;
          remoteOutput = amountToRemote \<ge> DustLimit localChanCfg
      in (if localOutput then [(amountToLocal, OutToLocal)] else []) @
         (if remoteOutput then [(amountToRemote, OutToRemote)] else []) @
         (if HasAnchors chanType then
            (if localOutput \<or> numHTLCs > 0 then [(anchorSize, OutLocalAnchor)] else []) @
            (if remoteOutput \<or> numHTLCs > 0 then [(anchorSize, OutRemoteAnchor)] else [])
          else []))"

definition sumOuts :: "commitTx \<Rightarrow> Atoms" where
  "sumOuts tx = foldl (\<lambda>totalOut out. i64 (totalOut + fst out)) 0 tx"

definition createUnsignedCommitmentTx ::
  "txEnv \<Rightarrow> OpenChannel \<Rightarrow> u64 \<Rightarrow> u64 \<Rightarrow> bool \<Rightarrow> Atoms \<Rightarrow> u64 \<Rightarrow> htlcView \<Rightarrow>
   commit_error + unsignedCommitmentTx" where
  "createUnsignedCommitmentTx env cs ourBalance0 theirBalance0 ours feeRate ht vw =
     (let dust = (if \<not> ours then DustLimit (RemoteChanCfg cs) else DustLimit (LocalChanCfg cs));
          ourHtlcs = filter (\<lambda>htlc. \<not> HtlcIsDust (ChanType cs) False ours feeRate
                                      (ToAtoms (Amount htlc)) dust) (ourUpdates vw);
          theirHtlcs = filter (\<lambda>htlc. \<not> HtlcIsDust (ChanType cs) True ours feeRate
                                      (ToAtoms (Amount htlc)) dust) (theirUpdates vw);
          numHTLCs = int (length ourHtlcs) + int (length theirHtlcs);
          totalCommitSize = CommitSize (ChanType cs) + HTLCOutputSize * numHTLCs;
          commitFee = FeeForSize feeRate totalCommitSize;
          commitFeeMAtoms = NewMAtomsFromAtoms commitFee;
          (ourB, theirB) =
            (if IsInitiator cs \<and> commitFee > ToAtoms ourBalance0 then (0, theirBalance0)
             else if IsInitiator cs then (ourBalance0 - commitFeeMAtoms, theirBalance0)
             else if commitFee > ToAtoms theirBalance0 then (ourBalance0, 0)
             else (ourBalance0, theirBalance0 - commitFeeMAtoms));
          commitTx0 =
            (if ours then CreateCommitTx (ChanType cs) (LocalChanCfg cs) (ToAtoms ourB)
                            (ToAtoms theirB) numHTLCs
             else CreateCommitTx (ChanType cs) (RemoteChanCfg cs) (ToAtoms theirB)
                    (ToAtoms ourB) numHTLCs);
          commitTx = commitTx0 @
            map (\<lambda>htlc. (ToAtoms (Amount htlc), OutHtlc False htlc)) ourHtlcs @
            map (\<lambda>htlc. (ToAtoms (Amount htlc), OutHtlc True htlc)) theirHtlcs
      in if \<not> txChecks env ours ht commitTx then Inl ErrTxChecks
         else let totalOut = sumOuts commitTx in
              if i64 (totalOut + commitFee) > Capacity cs
              then Inl (ErrOverdraw (i64 (totalOut + commitFee)))
              else Inr \<lparr>u_txn = commitTx, u_fee = commitFee, u_ourBalance = ourB,
                        u_theirBalance = theirB\<rparr>)"

definition CoopCloseBalance ::
  "ChannelType \<Rightarrow> bool \<Rightarrow> Atoms \<Rightarrow> commitment \<Rightarrow> (Atoms \<times> Atoms) option" where
  "CoopCloseBalance chanType isInitiator coopCloseFee localCommit =
     (let ours = ToAtoms (ourBalance localCommit);
          theirs = ToAtoms (theirBalance localCommit);
          delta0 = fee localCommit;
          delta1 = (if HasAnchors chanType then i64 (delta0 + 2 * anchorSize) else delta0);
          initiatorDelta = i64 (delta1 - coopCloseFee);
          (ours', theirs') =
            (if isInitiator then (i64 (ours + initiatorDelta), theirs)
             else (ours, i64 (theirs + initiatorDelta)))
      in if ours' < 0 \<or> theirs' < 0 then None else Some (ours', theirs'))"

end
