(* ===== verification/Channel.thy ===== *)
theory Channel
  imports Commitments
begin

text \<open>
  Package \<^verbatim>\<open>lnwallet\<close>, \<^verbatim>\<open>channel.go\<close>: the channel state machine. An
  operation takes the channel and returns it with its result; the channel comes back changed
  also where the code changes it before it fails. Outside the model, as arguments of the
  operations: the signer, signature checks and the look-up of HTLC outputs (\<open>signEnv\<close>),
  whether a database write succeeds (\<open>dbOk\<close>), the hash and the commitment point of a secret
  (\<open>H\<close>, \<open>point\<close>). \<open>chanBucket\<close> is what the channel's database bucket (package
  \<^verbatim>\<open>channeldb\<close>) holds besides the two current commitments.
\<close>

subsection \<open>State\<close>

datatype updateMsg =
    UpdateAddHTLC u64 u64 u32 bytes bytes
  | UpdateFulfillHTLC u64 bytes
  | UpdateFailHTLC u64 bytes
  | UpdateFailMalformedHTLC u64 bytes u16
  | UpdateFeeMsg u32

type_synonym LogUpdate = "u64 \<times> updateMsg"

record CommitDiff =
  diffCommitment :: commitment
  LogUpdates :: "LogUpdate list"
  OpenedCircuitKeys :: "CircuitKey list"
  ClosedCircuitKeys :: "CircuitKey list"
  AddAcks :: "AddRef list"
  SettleFailAcks :: "SettleFailRef list"

record chanBucket =
  commitDiff :: "CommitDiff option"
  unsignedAckedUpdates :: "LogUpdate list"
  remoteUnsignedLocalUpdates :: "LogUpdate list"
  lastWasRevoke :: bool

record LightningChannel =
  currentHeight :: u64
  remoteCommitChain :: commitmentChain
  localCommitChain :: commitmentChain
  channelState :: OpenChannel
  localUpdateLog :: updateLog
  remoteUpdateLog :: updateLog
  bucket :: chanBucket

datatype chan_error =
    ErrBelowChanReserve
  | ErrFeeBelowFloor Atoms
  | ErrInvalidHTLCAmt
  | ErrBelowMinHTLC
  | ErrMaxPendingAmount
  | ErrMaxHTLCNumber
  | ErrView view_error
  | ErrCommit commit_error
  | ErrFeeRateTooLow Atoms
  | ErrHtlcOutputs
  | ErrNoWindow
  | ErrSigning
  | ErrInvalidCommitSig
  | ErrDB
  | ErrUnknownHtlcIndex u64
  | ErrHtlcIndexAlreadySettled u64
  | ErrHtlcIndexAlreadyFailed u64
  | ErrInvalidSettlePreimage
  | ErrUnexpectedHtlcID u64 u64
  | ErrFeeUpdateNonInitiator
  | ErrFeeUpdateAsInitiator
  | ErrFeeExceedsBalance u64 u64
  | ErrSecret shachain_error
  | ErrRevocationKeyMismatch
  | PanicNilRevocation
  | ErrLog log_error
  | PanicEmptyChain

record signEnv =
  htlcOutputsFound :: "commitment \<Rightarrow> bool"
  signs :: "commitment \<Rightarrow> bool"
  verifies :: "commitment \<Rightarrow> bool"

abbreviation commitChainOf :: "LightningChannel \<Rightarrow> bool \<Rightarrow> commitmentChain" where
  "commitChainOf lc remoteChain \<equiv> (if remoteChain then remoteCommitChain lc else localCommitChain lc)"

abbreviation dustLimitOf :: "LightningChannel \<Rightarrow> bool \<Rightarrow> Atoms" where
  "dustLimitOf lc remoteChain \<equiv>
     (if remoteChain then DustLimit (RemoteChanCfg (channelState lc))
      else DustLimit (LocalChanCfg (channelState lc)))"

subsection \<open>Computing a view\<close>

definition htlcSizes :: "ChannelType \<Rightarrow> bool \<Rightarrow> bool \<Rightarrow> Atoms \<Rightarrow> Atoms \<Rightarrow> PaymentDescriptor list \<Rightarrow> int" where
  "htlcSizes chanType incoming ourCommit feeRate dust htlcs =
     (\<Sum>htlc \<leftarrow> htlcs. if HtlcIsDust chanType incoming ourCommit feeRate (ToAtoms (Amount htlc)) dust
                      then 0 else HTLCOutputSize)"

record viewResult =
  v_our :: u64
  v_their :: u64
  v_size :: int
  v_view :: htlcView

definition computeView ::
  "LightningChannel \<Rightarrow> htlcView \<Rightarrow> bool \<Rightarrow> bool \<Rightarrow> evaluation \<times> (chan_error + viewResult)" where
  "computeView lc vw remoteChain updateState =
     (let cs = channelState lc;
          commit = tip (commitChainOf lc remoteChain);
          dust = dustLimitOf lc remoteChain;
          feeMAtoms = NewMAtomsFromAtoms (fee commit);
          b = \<lparr>ourBal = (if IsInitiator cs then ourBalance commit + feeMAtoms else ourBalance commit),
               theirBal = (if \<not> IsInitiator cs then theirBalance commit + feeMAtoms
                           else theirBalance commit)\<rparr>;
          nextHeight = height commit + 1;
          ev = evaluateHTLCView (localUpdateLog lc) (remoteUpdateLog lc)
                 (TotalMAtomsReceived cs) (TotalMAtomsSent cs)
                 (vw\<lparr>feePerKB := c_feePerKB commit\<rparr>) b nextHeight remoteChain updateState
      in (ev,
          case ev_view ev of
            Inl err \<Rightarrow> Inl (ErrView err)
          | Inr filtered \<Rightarrow>
              (let feeRate = feePerKB filtered;
                   totalHtlcSize =
                     htlcSizes (ChanType cs) False (\<not> remoteChain) feeRate dust (ourUpdates filtered) +
                     htlcSizes (ChanType cs) True (\<not> remoteChain) feeRate dust (theirUpdates filtered)
               in Inr \<lparr>v_our = ourBal (ev_bal ev), v_their = theirBal (ev_bal ev),
                       v_size = CommitSize (ChanType cs) + totalHtlcSize, v_view = filtered\<rparr>)))"

text \<open>The descriptors of a view are those of the log below the view's index: putting them
  back after an evaluation writes what the code writes through the pointers.\<close>

fun writeBack :: "u64 \<Rightarrow> (nat \<times> PaymentDescriptor) list \<Rightarrow> PaymentDescriptor list \<Rightarrow>
    (nat \<times> PaymentDescriptor) list" where
  "writeBack index [] pds = []"
| "writeBack index (ent # ents) pds =
     (if LogIndex (snd ent) < index
      then (fst ent, hd pds) # writeBack index ents (tl pds)
      else ent # writeBack index ents pds)"

subsection \<open>Constraints\<close>

fun validateUpdates_loop ::
  "ChannelConfig \<Rightarrow> PaymentDescriptor list \<Rightarrow> u64 \<Rightarrow> u16 \<Rightarrow> chan_error + (u64 \<times> u16)" where
  "validateUpdates_loop constraints [] amtInFlight numInFlight = Inr (amtInFlight, numInFlight)"
| "validateUpdates_loop constraints (entry # es) amtInFlight numInFlight =
     (if EntryType entry = Add then
        (if Amount entry = 0 then Inl ErrInvalidHTLCAmt
         else if Amount entry < MinHTLC constraints then Inl ErrBelowMinHTLC
         else validateUpdates_loop constraints es (amtInFlight + Amount entry) (numInFlight + 1))
      else validateUpdates_loop constraints es amtInFlight numInFlight)"

definition validateUpdates :: "PaymentDescriptor list \<Rightarrow> ChannelConfig \<Rightarrow> chan_error + unit" where
  "validateUpdates updates constraints =
     bindR (validateUpdates_loop constraints updates 0 0) (\<lambda>(amtInFlight, numInFlight).
       if amtInFlight > MaxPendingAmount constraints then Inl ErrMaxPendingAmount
       else if numInFlight > MaxAcceptedHtlcs constraints then Inl ErrMaxHTLCNumber
       else Inr ())"

definition validateCommitmentSanity ::
  "LightningChannel \<Rightarrow> u64 \<Rightarrow> u64 \<Rightarrow> bool \<Rightarrow> PaymentDescriptor option \<Rightarrow> PaymentDescriptor option \<Rightarrow>
   chan_error + unit" where
  "validateCommitmentSanity lc theirLogCounter ourLogCounter remoteChain predictOurAdd predictTheirAdd =
     (let cs = channelState lc;
          vw0 = fetchHTLCView (localUpdateLog lc) (remoteUpdateLog lc) theirLogCounter ourLogCounter;
          vw = vw0\<lparr>ourUpdates := ourUpdates vw0 @ (case predictOurAdd of None \<Rightarrow> [] | Some pd \<Rightarrow> [pd]),
                   theirUpdates := theirUpdates vw0 @ (case predictTheirAdd of None \<Rightarrow> [] | Some pd \<Rightarrow> [pd])\<rparr>;
          ourInitialBalance = ourBalance (tip (commitChainOf lc remoteChain));
          theirInitialBalance = theirBalance (tip (commitChainOf lc remoteChain))
      in bindR (snd (computeView lc vw remoteChain False)) (\<lambda>res.
         let feeRate = feePerKB (v_view res);
             commitFeeMAtoms = NewMAtomsFromAtoms (FeeForSize feeRate (v_size res));
             ourB = (if IsInitiator cs then v_our res - commitFeeMAtoms else v_our res);
             theirB = (if IsInitiator cs then v_their res else v_their res - commitFeeMAtoms)
         in if i64 (uint ourB) < 0 then Inl ErrBelowChanReserve
            else if i64 (uint theirB) < 0 then Inl ErrBelowChanReserve
            else if feeRate < FeePerKBFloor then Inl (ErrFeeBelowFloor feeRate)
            else if ourB < ourInitialBalance \<and>
                    ourB < NewMAtomsFromAtoms (ChanReserve (LocalChanCfg cs)) then
              Inl ErrBelowChanReserve
            else if theirB < theirInitialBalance \<and>
                    theirB < NewMAtomsFromAtoms (ChanReserve (RemoteChanCfg cs)) then
              Inl ErrBelowChanReserve
            else bindR (validateUpdates (theirUpdates (v_view res)) (RemoteChanCfg cs)) (\<lambda>_.
                 validateUpdates (ourUpdates (v_view res)) (LocalChanCfg cs))))"

subsection \<open>Adding and removing HTLCs\<close>

record addMsg =
  m_ID :: u64
  m_Amount :: u64
  m_PaymentHash :: bytes
  m_Expiry :: u32
  m_OnionBlob :: bytes

definition htlcAddDescriptor ::
  "LightningChannel \<Rightarrow> addMsg \<Rightarrow> CircuitKey option \<Rightarrow> PaymentDescriptor" where
  "htlcAddDescriptor lc htlc openKey =
     zeroPD\<lparr>EntryType := Add, RHash := m_PaymentHash htlc, Timeout := m_Expiry htlc,
            Amount := m_Amount htlc, LogIndex := logIndex (localUpdateLog lc),
            HtlcIndex := htlcCounter (localUpdateLog lc), OnionBlob := m_OnionBlob htlc,
            OpenCircuitKey := openKey\<rparr>"

definition validateAddHtlc :: "LightningChannel \<Rightarrow> PaymentDescriptor \<Rightarrow> chan_error + unit" where
  "validateAddHtlc lc pd =
     (let remoteACKedIndex = theirMessageIndex (tail (localCommitChain lc)) in
      bindR (validateCommitmentSanity lc remoteACKedIndex (logIndex (localUpdateLog lc)) True
               (Some pd) None) (\<lambda>_.
        validateCommitmentSanity lc (logIndex (remoteUpdateLog lc)) (logIndex (localUpdateLog lc))
          False (Some pd) None))"

definition AddHTLC ::
  "LightningChannel \<Rightarrow> addMsg \<Rightarrow> CircuitKey option \<Rightarrow> chan_error + (LightningChannel \<times> u64)" where
  "AddHTLC lc htlc openKey =
     (let pd = htlcAddDescriptor lc htlc openKey in
      bindR (validateAddHtlc lc pd) (\<lambda>_.
        Inr (lc\<lparr>localUpdateLog := appendHtlc (localUpdateLog lc) pd\<rparr>, HtlcIndex pd)))"

definition MayAddOutgoingHtlc :: "LightningChannel \<Rightarrow> u64 \<Rightarrow> chan_error + unit" where
  "MayAddOutgoingHtlc lc amt =
     (let minHtlc = MinHTLC (LocalChanCfg (channelState lc));
          mockHtlcAmt = (if amt \<noteq> 0 then amt else if minHtlc \<noteq> 0 then minHtlc else 1);
          pd = htlcAddDescriptor lc
                 \<lparr>m_ID = 0, m_Amount = mockHtlcAmt, m_PaymentHash = replicate 32 0, m_Expiry = 0,
                  m_OnionBlob = replicate 1366 0\<rparr>
                 (Some \<lparr>ck_ChanID = zeroChanID, ck_HtlcID = 0\<rparr>)
      in validateAddHtlc lc pd)"

definition ReceiveHTLC :: "LightningChannel \<Rightarrow> addMsg \<Rightarrow> chan_error + (LightningChannel \<times> u64)" where
  "ReceiveHTLC lc htlc =
     (if m_ID htlc \<noteq> htlcCounter (remoteUpdateLog lc) then
        Inl (ErrUnexpectedHtlcID (m_ID htlc) (htlcCounter (remoteUpdateLog lc)))
      else
        let pd = zeroPD\<lparr>EntryType := Add, RHash := m_PaymentHash htlc, Timeout := m_Expiry htlc,
                        Amount := m_Amount htlc, LogIndex := logIndex (remoteUpdateLog lc),
                        HtlcIndex := htlcCounter (remoteUpdateLog lc),
                        OnionBlob := m_OnionBlob htlc\<rparr>;
            localACKedIndex = ourMessageIndex (tail (remoteCommitChain lc))
        in bindR (validateCommitmentSanity lc (logIndex (remoteUpdateLog lc)) localACKedIndex False
                    None (Some pd)) (\<lambda>_.
             Inr (lc\<lparr>remoteUpdateLog := appendHtlc (remoteUpdateLog lc) pd\<rparr>, HtlcIndex pd)))"

text \<open>\<open>hash\<close> is the hash of a payment preimage.\<close>

definition SettleHTLC ::
  "(bytes \<Rightarrow> bytes) \<Rightarrow> LightningChannel \<Rightarrow> bytes \<Rightarrow> u64 \<Rightarrow> AddRef option \<Rightarrow> SettleFailRef option \<Rightarrow>
   CircuitKey option \<Rightarrow> chan_error + LightningChannel" where
  "SettleHTLC hash lc preimage i sourceRef destRef closeKey =
     (case lookupHtlc (remoteUpdateLog lc) i of
        None \<Rightarrow> Inl (ErrUnknownHtlcIndex i)
      | Some htlc \<Rightarrow>
          if htlcHasModification (remoteUpdateLog lc) i then Inl (ErrHtlcIndexAlreadySettled i)
          else if RHash htlc \<noteq> hash preimage then Inl ErrInvalidSettlePreimage
          else
            let pd = zeroPD\<lparr>Amount := Amount htlc, RPreimage := preimage,
                            LogIndex := logIndex (localUpdateLog lc), ParentIndex := i,
                            EntryType := Settle, SourceRef := sourceRef, DestRef := destRef,
                            ClosedCircuitKey := closeKey\<rparr>
            in Inr (lc\<lparr>localUpdateLog := appendUpdate (localUpdateLog lc) pd,
                       remoteUpdateLog := markHtlcModified (remoteUpdateLog lc) i\<rparr>))"

definition ReceiveHTLCSettle ::
  "(bytes \<Rightarrow> bytes) \<Rightarrow> LightningChannel \<Rightarrow> bytes \<Rightarrow> u64 \<Rightarrow> chan_error + LightningChannel" where
  "ReceiveHTLCSettle hash lc preimage i =
     (case lookupHtlc (localUpdateLog lc) i of
        None \<Rightarrow> Inl (ErrUnknownHtlcIndex i)
      | Some htlc \<Rightarrow>
          if htlcHasModification (localUpdateLog lc) i then Inl (ErrHtlcIndexAlreadySettled i)
          else if RHash htlc \<noteq> hash preimage then Inl ErrInvalidSettlePreimage
          else
            let pd = zeroPD\<lparr>Amount := Amount htlc, RPreimage := preimage,
                            ParentIndex := HtlcIndex htlc, RHash := RHash htlc,
                            LogIndex := logIndex (remoteUpdateLog lc), EntryType := Settle\<rparr>
            in Inr (lc\<lparr>remoteUpdateLog := appendUpdate (remoteUpdateLog lc) pd,
                       localUpdateLog := markHtlcModified (localUpdateLog lc) i\<rparr>))"

definition FailHTLC ::
  "LightningChannel \<Rightarrow> u64 \<Rightarrow> bytes \<Rightarrow> AddRef option \<Rightarrow> SettleFailRef option \<Rightarrow> CircuitKey option \<Rightarrow>
   chan_error + LightningChannel" where
  "FailHTLC lc i reason sourceRef destRef closeKey =
     (case lookupHtlc (remoteUpdateLog lc) i of
        None \<Rightarrow> Inl (ErrUnknownHtlcIndex i)
      | Some htlc \<Rightarrow>
          if htlcHasModification (remoteUpdateLog lc) i then Inl (ErrHtlcIndexAlreadyFailed i)
          else
            let pd = zeroPD\<lparr>Amount := Amount htlc, RHash := RHash htlc, ParentIndex := i,
                            LogIndex := logIndex (localUpdateLog lc), EntryType := Fail,
                            FailReason := reason, SourceRef := sourceRef, DestRef := destRef,
                            ClosedCircuitKey := closeKey\<rparr>
            in Inr (lc\<lparr>localUpdateLog := appendUpdate (localUpdateLog lc) pd,
                       remoteUpdateLog := markHtlcModified (remoteUpdateLog lc) i\<rparr>))"

definition MalformedFailHTLC ::
  "LightningChannel \<Rightarrow> u64 \<Rightarrow> u16 \<Rightarrow> bytes \<Rightarrow> AddRef option \<Rightarrow> chan_error + LightningChannel" where
  "MalformedFailHTLC lc i failCode shaOnionBlob sourceRef =
     (case lookupHtlc (remoteUpdateLog lc) i of
        None \<Rightarrow> Inl (ErrUnknownHtlcIndex i)
      | Some htlc \<Rightarrow>
          if htlcHasModification (remoteUpdateLog lc) i then Inl (ErrHtlcIndexAlreadyFailed i)
          else
            let pd = zeroPD\<lparr>Amount := Amount htlc, RHash := RHash htlc, ParentIndex := i,
                            LogIndex := logIndex (localUpdateLog lc), EntryType := MalformedFail,
                            FailCode := failCode, ShaOnionBlob := shaOnionBlob,
                            SourceRef := sourceRef\<rparr>
            in Inr (lc\<lparr>localUpdateLog := appendUpdate (localUpdateLog lc) pd,
                       remoteUpdateLog := markHtlcModified (remoteUpdateLog lc) i\<rparr>))"

definition ReceiveFailHTLC :: "LightningChannel \<Rightarrow> u64 \<Rightarrow> bytes \<Rightarrow> chan_error + LightningChannel" where
  "ReceiveFailHTLC lc i reason =
     (case lookupHtlc (localUpdateLog lc) i of
        None \<Rightarrow> Inl (ErrUnknownHtlcIndex i)
      | Some htlc \<Rightarrow>
          if htlcHasModification (localUpdateLog lc) i then Inl (ErrHtlcIndexAlreadyFailed i)
          else
            let pd = zeroPD\<lparr>Amount := Amount htlc, RHash := RHash htlc,
                            ParentIndex := HtlcIndex htlc,
                            LogIndex := logIndex (remoteUpdateLog lc), EntryType := Fail,
                            FailReason := reason\<rparr>
            in Inr (lc\<lparr>remoteUpdateLog := appendUpdate (remoteUpdateLog lc) pd,
                       localUpdateLog := markHtlcModified (localUpdateLog lc) i\<rparr>))"

subsection \<open>Balances and fee updates\<close>

definition dustSum :: "ChannelType \<Rightarrow> bool \<Rightarrow> bool \<Rightarrow> Atoms \<Rightarrow> Atoms \<Rightarrow> PaymentDescriptor list \<Rightarrow> u64" where
  "dustSum chanType incoming ourCommit feeRate dust pds =
     foldl (\<lambda>acc pd. if EntryType pd \<noteq> Add then acc
                     else if HtlcIsDust chanType incoming ourCommit feeRate (ToAtoms (Amount pd)) dust
                     then acc + Amount pd else acc) 0 pds"

definition GetDustSum :: "LightningChannel \<Rightarrow> bool \<Rightarrow> u64" where
  "GetDustSum lc remote =
     (let cs = channelState lc;
          commit = (if remote then RemoteCommitment cs else LocalCommitment cs);
          dust = dustLimitOf lc remote;
          feeRate = c_feePerKB commit
      in dustSum (ChanType cs) False (\<not> remote) feeRate dust (descriptors (localUpdateLog lc)) +
         dustSum (ChanType cs) True (\<not> remote) feeRate dust (descriptors (remoteUpdateLog lc)))"

definition availableCommitmentBalance :: "LightningChannel \<Rightarrow> htlcView \<Rightarrow> bool \<Rightarrow> u64 \<times> int" where
  "availableCommitmentBalance lc vw remoteChain =
     (case snd (computeView lc vw remoteChain False) of
        Inl _ \<Rightarrow> (0, 0)
      | Inr res \<Rightarrow>
          (let cs = channelState lc;
               commitSize = v_size res;
               ourReserve = NewMAtomsFromAtoms (ChanReserve (LocalChanCfg cs));
               ourB = (if ourReserve \<le> v_our res then v_our res - ourReserve else 0);
               feeRate = feePerKB (v_view res);
               htlcCommitFee = NewMAtomsFromAtoms (FeeForSize feeRate (commitSize + HTLCOutputSize))
           in if IsInitiator cs then
                (if ourB < htlcCommitFee then (0, commitSize) else (ourB - htlcCommitFee, commitSize))
              else
                (let theirReserve = NewMAtomsFromAtoms (ChanReserve (RemoteChanCfg cs));
                     theirB = (if theirReserve \<le> v_their res then v_their res - theirReserve else 0);
                     dust = NewMAtomsFromAtoms (dustLimitOf lc remoteChain);
                     htlcFee = NewMAtomsFromAtoms
                       (if remoteChain then HtlcSuccessFee (ChanType cs) feeRate
                        else HtlcTimeoutFee (ChanType cs) feeRate);
                     nonDustHtlcAmt = dust + htlcFee
                 in if theirB < htlcCommitFee \<and> ourB \<ge> nonDustHtlcAmt
                    then (nonDustHtlcAmt - 1, commitSize) else (ourB, commitSize))))"

definition availableBalance :: "LightningChannel \<Rightarrow> u64 \<times> int" where
  "availableBalance lc =
     (let remoteACKedIndex = theirMessageIndex (tip (localCommitChain lc));
          vw = fetchHTLCView (localUpdateLog lc) (remoteUpdateLog lc) remoteACKedIndex
                 (logIndex (localUpdateLog lc));
          (ourLocal, commitSize) = availableCommitmentBalance lc vw False;
          (ourRemote, _) = availableCommitmentBalance lc vw True
      in if ourRemote < ourLocal then (ourRemote, commitSize) else (ourLocal, commitSize))"

definition validateFeeRate :: "LightningChannel \<Rightarrow> Atoms \<Rightarrow> chan_error + unit" where
  "validateFeeRate lc feeRate =
     (let (avail, txSize) = availableBalance lc;
          oldFee = NewMAtomsFromAtoms (FeeForSize (c_feePerKB (tip (localCommitChain lc))) txSize);
          baseBalance = avail + oldFee;
          newFee = NewMAtomsFromAtoms (FeeForSize feeRate txSize)
      in if newFee > baseBalance then Inl (ErrFeeExceedsBalance newFee baseBalance) else Inr ())"

definition UpdateFee :: "LightningChannel \<Rightarrow> Atoms \<Rightarrow> chan_error + LightningChannel" where
  "UpdateFee lc feeRate =
     (if \<not> IsInitiator (channelState lc) then Inl ErrFeeUpdateNonInitiator
      else bindR (validateFeeRate lc feeRate) (\<lambda>_.
        let pd = zeroPD\<lparr>LogIndex := logIndex (localUpdateLog lc),
                        Amount := NewMAtomsFromAtoms feeRate, EntryType := FeeUpdate\<rparr>
        in Inr (lc\<lparr>localUpdateLog := appendUpdate (localUpdateLog lc) pd\<rparr>)))"

definition ReceiveUpdateFee :: "LightningChannel \<Rightarrow> Atoms \<Rightarrow> chan_error + LightningChannel" where
  "ReceiveUpdateFee lc feeRate =
     (if IsInitiator (channelState lc) then Inl ErrFeeUpdateAsInitiator
      else
        let pd = zeroPD\<lparr>LogIndex := logIndex (remoteUpdateLog lc),
                        Amount := NewMAtomsFromAtoms feeRate, EntryType := FeeUpdate\<rparr>
        in Inr (lc\<lparr>remoteUpdateLog := appendUpdate (remoteUpdateLog lc) pd\<rparr>))"

subsection \<open>New commitments\<close>

text \<open>The channel after a view of it was evaluated with \<open>mutateState\<close>.\<close>

definition applyEvaluation :: "LightningChannel \<Rightarrow> u64 \<Rightarrow> u64 \<Rightarrow> evaluation \<Rightarrow> LightningChannel" where
  "applyEvaluation lc ourLogIndex theirLogIndex ev =
     lc\<lparr>localUpdateLog := (localUpdateLog lc)
          \<lparr>entries := writeBack ourLogIndex (entries (localUpdateLog lc)) (ev_ours ev)\<rparr>,
        remoteUpdateLog := (remoteUpdateLog lc)
          \<lparr>entries := writeBack theirLogIndex (entries (remoteUpdateLog lc)) (ev_theirs ev)\<rparr>,
        channelState := (channelState lc)
          \<lparr>TotalMAtomsReceived := ev_received ev, TotalMAtomsSent := ev_sent ev\<rparr>\<rparr>"

definition fetchCommitmentView ::
  "txEnv \<Rightarrow> signEnv \<Rightarrow> LightningChannel \<Rightarrow> bool \<Rightarrow> u64 \<Rightarrow> u64 \<Rightarrow> u64 \<Rightarrow> u64 \<Rightarrow>
   LightningChannel \<times> (chan_error + commitment)" where
  "fetchCommitmentView tenv senv lc remoteChain ourLogIndex ourHtlc theirLogIndex theirHtlc =
     (let nextHeight = height (tip (commitChainOf lc remoteChain)) + 1;
          vw = fetchHTLCView (localUpdateLog lc) (remoteUpdateLog lc) theirLogIndex ourLogIndex;
          (ev, r) = computeView lc vw remoteChain True;
          lc' = applyEvaluation lc ourLogIndex theirLogIndex ev
      in (lc',
          bindR r (\<lambda>res.
          bindR (mapErr ErrCommit
                   (createUnsignedCommitmentTx tenv (channelState lc') (v_our res) (v_their res)
                      (\<not> remoteChain) (feePerKB (v_view res)) nextHeight (v_view res))) (\<lambda>utx.
            let feePaid = i64 (Capacity (channelState lc') - sumOuts (u_txn utx));
                sz = txSerializeSize tenv (u_txn utx) + FundingOutputSigScriptSize;
                effFeeRate = goDiv (i64 (feePaid * 1000)) sz;
                c = \<lparr>height = nextHeight, isOurs = \<not> remoteChain,
                     ourMessageIndex = ourLogIndex, theirMessageIndex = theirLogIndex,
                     ourHtlcIndex = ourHtlc, theirHtlcIndex = theirHtlc, txn = u_txn utx,
                     ourBalance = u_ourBalance utx, theirBalance = u_theirBalance utx,
                     fee = u_fee utx, c_feePerKB = feePerKB (v_view res),
                     dustLimit = dustLimitOf lc remoteChain,
                     outgoingHTLCs = ourUpdates (v_view res),
                     incomingHTLCs = theirUpdates (v_view res)\<rparr>
            in if effFeeRate < FeePerKBFloor then Inl (ErrFeeRateTooLow effFeeRate)
               else if \<not> htlcOutputsFound senv c then Inl ErrHtlcOutputs
               else Inr c))))"

definition oweCommitment :: "LightningChannel \<Rightarrow> bool \<Rightarrow> bool" where
  "oweCommitment lc local =
     (let lastLocalCommit = tip (localCommitChain lc);
          lastRemoteCommit = tip (remoteCommitChain lc)
      in if local then
           logIndex (localUpdateLog lc) \<noteq> ourMessageIndex lastRemoteCommit \<or>
           theirMessageIndex lastLocalCommit \<noteq> theirMessageIndex lastRemoteCommit
         else
           logIndex (remoteUpdateLog lc) \<noteq> theirMessageIndex lastLocalCommit \<or>
           ourMessageIndex lastRemoteCommit \<noteq> ourMessageIndex lastLocalCommit)"

definition PendingLocalUpdateCount :: "LightningChannel \<Rightarrow> u64" where
  "PendingLocalUpdateCount lc =
     logIndex (localUpdateLog lc) - ourMessageIndex (tip (remoteCommitChain lc))"

text \<open>The wire message of a log entry.\<close>

definition updateMsgOf :: "PaymentDescriptor \<Rightarrow> updateMsg" where
  "updateMsgOf pd =
     (case EntryType pd of
        Add \<Rightarrow> UpdateAddHTLC (HtlcIndex pd) (Amount pd) (Timeout pd) (RHash pd) (OnionBlob pd)
      | Settle \<Rightarrow> UpdateFulfillHTLC (ParentIndex pd) (RPreimage pd)
      | Fail \<Rightarrow> UpdateFailHTLC (ParentIndex pd) (FailReason pd)
      | MalformedFail \<Rightarrow> UpdateFailMalformedHTLC (ParentIndex pd) (ShaOnionBlob pd) (FailCode pd)
      | FeeUpdate \<Rightarrow> UpdateFeeMsg (word_of_int (ToAtoms (Amount pd))))"

definition optList :: "'a option \<Rightarrow> 'a list" where
  "optList x = (case x of None \<Rightarrow> [] | Some y \<Rightarrow> [y])"

definition createCommitDiff :: "LightningChannel \<Rightarrow> commitment \<Rightarrow> CommitDiff" where
  "createCommitDiff lc newCommit =
     (let pds = filter (\<lambda>pd. \<not> (addCommitHeightRemote pd \<noteq> height newCommit \<and>
                                 removeCommitHeightRemote pd \<noteq> height newCommit))
                  (descriptors (localUpdateLog lc));
          adds = filter (\<lambda>pd. EntryType pd = Add) pds;
          others = filter (\<lambda>pd. EntryType pd \<noteq> Add) pds
      in \<lparr>diffCommitment = newCommit,
          LogUpdates = map (\<lambda>pd. (LogIndex pd, updateMsgOf pd)) pds,
          OpenedCircuitKeys = concat (map (\<lambda>pd. optList (OpenCircuitKey pd)) adds),
          ClosedCircuitKeys = concat (map (\<lambda>pd. optList (ClosedCircuitKey pd)) others),
          AddAcks = concat (map (\<lambda>pd. optList (SourceRef pd)) others),
          SettleFailAcks = concat (map (\<lambda>pd. optList (DestRef pd)) others)\<rparr>)"

text \<open>Database writes; a failed transaction writes nothing.\<close>

definition AppendRemoteCommitChain :: "bool \<Rightarrow> LightningChannel \<Rightarrow> CommitDiff \<Rightarrow> chan_error + LightningChannel" where
  "AppendRemoteCommitChain dbOk lc diff =
     (if \<not> dbOk then Inl ErrDB
      else Inr (lc\<lparr>bucket := (bucket lc)\<lparr>lastWasRevoke := False, commitDiff := Some diff\<rparr>\<rparr>))"

definition UpdateCommitment ::
  "bool \<Rightarrow> LightningChannel \<Rightarrow> commitment \<Rightarrow> LogUpdate list \<Rightarrow> chan_error + LightningChannel" where
  "UpdateCommitment dbOk lc newCommitment updates =
     (if \<not> dbOk then Inl ErrDB
      else Inr (lc
        \<lparr>bucket := (bucket lc)
           \<lparr>unsignedAckedUpdates := updates, lastWasRevoke := True,
            remoteUnsignedLocalUpdates :=
              filter (\<lambda>upd. fst upd \<ge> ourMessageIndex newCommitment)
                (remoteUnsignedLocalUpdates (bucket lc))\<rparr>,
         channelState := (channelState lc)\<lparr>LocalCommitment := newCommitment\<rparr>\<rparr>))"

definition AdvanceCommitChainTail ::
  "bool \<Rightarrow> LightningChannel \<Rightarrow> LogUpdate list \<Rightarrow> chan_error + LightningChannel" where
  "AdvanceCommitChainTail dbOk lc updates =
     (case commitDiff (bucket lc) of
        None \<Rightarrow> Inl ErrDB
      | Some diff \<Rightarrow>
          if \<not> dbOk then Inl ErrDB
          else Inr (lc
            \<lparr>bucket := (bucket lc)
               \<lparr>commitDiff := None,
                unsignedAckedUpdates :=
                  filter (\<lambda>upd. fst upd \<ge> theirMessageIndex (diffCommitment diff))
                    (unsignedAckedUpdates (bucket lc)),
                remoteUnsignedLocalUpdates := updates\<rparr>,
             channelState := (channelState lc)\<lparr>RemoteCommitment := diffCommitment diff\<rparr>\<rparr>))"

definition SignNextCommitment ::
  "txEnv \<Rightarrow> signEnv \<Rightarrow> bool \<Rightarrow> LightningChannel \<Rightarrow> LightningChannel \<times> (chan_error + commitment)" where
  "SignNextCommitment tenv senv dbOk lc =
     (if hasUnackedCommitment (remoteCommitChain lc) \<or> RemoteNextRevocation (channelState lc) = None
      then (lc, Inl ErrNoWindow)
      else
        let remoteACKedIndex = theirMessageIndex (tail (localCommitChain lc));
            remoteHtlcIndex = theirHtlcIndex (tail (localCommitChain lc))
        in case validateCommitmentSanity lc remoteACKedIndex (logIndex (localUpdateLog lc)) True
                  None None of
             Inl err \<Rightarrow> (lc, Inl err)
           | Inr _ \<Rightarrow>
               (case fetchCommitmentView tenv senv lc True (logIndex (localUpdateLog lc))
                       (htlcCounter (localUpdateLog lc)) remoteACKedIndex remoteHtlcIndex of
                  (lc', Inl err) \<Rightarrow> (lc', Inl err)
                | (lc', Inr newCommitView) \<Rightarrow>
                    if \<not> signs senv newCommitView then (lc', Inl ErrSigning)
                    else (case AppendRemoteCommitChain dbOk lc' (createCommitDiff lc' newCommitView) of
                            Inl err \<Rightarrow> (lc', Inl err)
                          | Inr lc'' \<Rightarrow>
                              (lc''\<lparr>remoteCommitChain :=
                                      addCommitment (remoteCommitChain lc'') newCommitView\<rparr>,
                               Inr newCommitView))))"

definition ReceiveNewCommitment ::
  "(bytes \<Rightarrow> ShaHash) \<Rightarrow> txEnv \<Rightarrow> signEnv \<Rightarrow> LightningChannel \<Rightarrow>
   LightningChannel \<times> (chan_error + commitment)" where
  "ReceiveNewCommitment H tenv senv lc =
     (let localACKedIndex = ourMessageIndex (tail (remoteCommitChain lc));
          localHtlcIndex = ourHtlcIndex (tail (remoteCommitChain lc))
      in case validateCommitmentSanity lc (logIndex (remoteUpdateLog lc)) localACKedIndex False
                None None of
           Inl err \<Rightarrow> (lc, Inl err)
         | Inr _ \<Rightarrow>
             (case AtIndex H (chanProducer (channelState lc)) (currentHeight lc + 1) of
                Inl err \<Rightarrow> (lc, Inl (ErrSecret err))
              | Inr _ \<Rightarrow>
                  (case fetchCommitmentView tenv senv lc False localACKedIndex localHtlcIndex
                          (logIndex (remoteUpdateLog lc)) (htlcCounter (remoteUpdateLog lc)) of
                     (lc', Inl err) \<Rightarrow> (lc', Inl err)
                   | (lc', Inr localCommitmentView) \<Rightarrow>
                       if \<not> verifies senv localCommitmentView then (lc', Inl ErrInvalidCommitSig)
                       else (lc'\<lparr>localCommitChain :=
                                   addCommitment (localCommitChain lc') localCommitmentView\<rparr>,
                             Inr localCommitmentView))))"

subsection \<open>Revocation\<close>

record RevokeAndAck =
  Revocation :: bytes
  NextRevocationKey :: bytes

definition generateRevocation ::
  "(bytes \<Rightarrow> ShaHash) \<Rightarrow> (bytes \<Rightarrow> bytes) \<Rightarrow> LightningChannel \<Rightarrow> u64 \<Rightarrow> chan_error + RevokeAndAck" where
  "generateRevocation H point lc ht =
     bindR (mapErr ErrSecret (AtIndex H (chanProducer (channelState lc)) ht)) (\<lambda>commitSecret.
     bindR (mapErr ErrSecret (AtIndex H (chanProducer (channelState lc)) (ht + 2)))
       (\<lambda>nextCommitSecret.
       Inr \<lparr>Revocation = commitSecret, NextRevocationKey = point nextCommitSecret\<rparr>))"

definition getUnsignedAckedUpdates :: "LightningChannel \<Rightarrow> LogUpdate list" where
  "getUnsignedAckedUpdates lc =
     (let lastRemoteCommitted = theirMessageIndex (tail (remoteCommitChain lc));
          lastLocalCommitted = theirMessageIndex (tail (localCommitChain lc))
      in map (\<lambda>pd. (LogIndex pd, updateMsgOf pd))
           (filter (\<lambda>pd. \<not> LogIndex pd < lastRemoteCommitted \<and> \<not> LogIndex pd \<ge> lastLocalCommitted)
              (descriptors (remoteUpdateLog lc))))"

definition RevokeCurrentCommitment ::
  "(bytes \<Rightarrow> ShaHash) \<Rightarrow> (bytes \<Rightarrow> bytes) \<Rightarrow> bool \<Rightarrow> LightningChannel \<Rightarrow>
   LightningChannel \<times> (chan_error + RevokeAndAck)" where
  "RevokeCurrentCommitment H point dbOk lc =
     (case generateRevocation H point lc (currentHeight lc) of
        Inl err \<Rightarrow> (lc, Inl err)
      | Inr revocationMsg \<Rightarrow>
          (let lc1 = lc\<lparr>localCommitChain := advanceTail (localCommitChain lc),
                        currentHeight := currentHeight lc + 1\<rparr>
           in if localCommitChain lc1 = [] then (lc1, Inl PanicEmptyChain)
              else
                case UpdateCommitment dbOk lc1 (tail (localCommitChain lc1))
                       (getUnsignedAckedUpdates lc1) of
                  Inl err \<Rightarrow> (lc1, Inl err)
                | Inr lc2 \<Rightarrow> (lc2, Inr revocationMsg)))"

text \<open>The loop of \<open>ReceiveRevocation\<close> over the remote log: the entries with their new
  references, the adds and the settles and fails to forward, and the log updates of the
  forwarding package.\<close>

record forwards =
  fw_entries :: "(nat \<times> PaymentDescriptor) list"
  addsToForward :: "PaymentDescriptor list"
  settleFailsToForward :: "PaymentDescriptor list"

definition shouldFwdAdd :: "u64 \<Rightarrow> u64 \<Rightarrow> PaymentDescriptor \<Rightarrow> bool" where
  "shouldFwdAdd remoteChainTail localChainTail pd \<longleftrightarrow>
     EntryType pd = Add \<and>
     (addCommitHeightRemote pd > 0 \<and> addCommitHeightLocal pd > 0) \<and>
     (remoteChainTail = addCommitHeightRemote pd \<and> localChainTail \<ge> addCommitHeightLocal pd)"

definition shouldFwdRmv :: "u64 \<Rightarrow> u64 \<Rightarrow> PaymentDescriptor \<Rightarrow> bool" where
  "shouldFwdRmv remoteChainTail localChainTail pd \<longleftrightarrow>
     EntryType pd \<noteq> Add \<and>
     (removeCommitHeightRemote pd > 0 \<and> removeCommitHeightLocal pd > 0) \<and>
     (remoteChainTail = removeCommitHeightRemote pd \<and> localChainTail \<ge> removeCommitHeightLocal pd)"

fun forwardLoop ::
  "ShortChannelID \<Rightarrow> u64 \<Rightarrow> u64 \<Rightarrow> u16 \<Rightarrow> u16 \<Rightarrow> (nat \<times> PaymentDescriptor) list \<Rightarrow> forwards" where
  "forwardLoop source remoteChainTail localChainTail addIndex settleFailIndex [] =
     \<lparr>fw_entries = [], addsToForward = [], settleFailsToForward = []\<rparr>"
| "forwardLoop source remoteChainTail localChainTail addIndex settleFailIndex (ent # ents) =
     (let pd = snd ent in
      if EntryType pd = FeeUpdate \<or> isForwarded pd then
        (let fw = forwardLoop source remoteChainTail localChainTail addIndex settleFailIndex ents
         in fw\<lparr>fw_entries := ent # fw_entries fw\<rparr>)
      else if shouldFwdAdd remoteChainTail localChainTail pd then
        (let pd' = pd\<lparr>SourceRef := Some \<lparr>ar_Height = remoteChainTail, ar_Index = addIndex\<rparr>,
                      isForwarded := True\<rparr>;
             fw = forwardLoop source remoteChainTail localChainTail (addIndex + 1) settleFailIndex ents
         in fw\<lparr>fw_entries := (fst ent, pd') # fw_entries fw,
               addsToForward := pd' # addsToForward fw\<rparr>)
      else if shouldFwdRmv remoteChainTail localChainTail pd then
        (let pd' = pd\<lparr>DestRef := Some \<lparr>sf_Source = source, sf_Height = remoteChainTail,
                                        sf_Index = settleFailIndex\<rparr>,
                      isForwarded := True\<rparr>;
             fw = forwardLoop source remoteChainTail localChainTail addIndex (settleFailIndex + 1) ents
         in fw\<lparr>fw_entries := (fst ent, pd') # fw_entries fw,
               settleFailsToForward := pd' # settleFailsToForward fw\<rparr>)
      else
        (let fw = forwardLoop source remoteChainTail localChainTail addIndex settleFailIndex ents
         in fw\<lparr>fw_entries := ent # fw_entries fw\<rparr>))"

definition unsignedLocalUpdates :: "LightningChannel \<Rightarrow> u64 \<Rightarrow> u64 \<Rightarrow> LogUpdate list" where
  "unsignedLocalUpdates lc remoteMessageIndex localMessageIndex =
     map (\<lambda>pd. (LogIndex pd, updateMsgOf pd))
       (filter (\<lambda>pd. EntryType pd \<noteq> Add \<and> LogIndex pd < remoteMessageIndex \<and>
                     LogIndex pd \<ge> localMessageIndex)
          (descriptors (localUpdateLog lc)))"

record FwdPkg =
  pkgHeight :: u64
  pkgAdds :: "LogUpdate list"
  pkgSettleFails :: "LogUpdate list"

definition ReceiveRevocation ::
  "(bytes \<Rightarrow> ShaHash) \<Rightarrow> (bytes \<Rightarrow> bytes) \<Rightarrow> ShortChannelID \<Rightarrow> bool \<Rightarrow> LightningChannel \<Rightarrow> RevokeAndAck \<Rightarrow>
   LightningChannel \<times> (chan_error + (FwdPkg \<times> PaymentDescriptor list \<times> PaymentDescriptor list))" where
  "ReceiveRevocation H point source dbOk lc revMsg =
     (let cs = channelState lc in
      case AddNextEntry H (chanStore cs) (Revocation revMsg) of
        Inl err \<Rightarrow> (lc, Inl (ErrSecret err))
      | Inr store \<Rightarrow>
          (let lc1 = lc\<lparr>channelState := cs\<lparr>chanStore := store\<rparr>\<rparr> in
           case RemoteCurrentRevocation cs of
             None \<Rightarrow> (lc1, Inl PanicNilRevocation)
           | Some currentCommitPoint \<Rightarrow>
               if point (Revocation revMsg) \<noteq> currentCommitPoint
               then (lc1, Inl ErrRevocationKeyMismatch)
               else
                 (let remoteChainTail = height (tail (remoteCommitChain lc)) + 1;
                      localChainTail = height (tail (localCommitChain lc));
                      fw = forwardLoop source remoteChainTail localChainTail 0 0
                             (entries (remoteUpdateLog lc));
                      lc2 = lc1
                        \<lparr>channelState := (channelState lc1)
                           \<lparr>RemoteCurrentRevocation := RemoteNextRevocation cs,
                            RemoteNextRevocation := Some (NextRevocationKey revMsg)\<rparr>,
                         remoteUpdateLog := (remoteUpdateLog lc)\<lparr>entries := fw_entries fw\<rparr>\<rparr>;
                      localPeerUpdates =
                        unsignedLocalUpdates lc2 (ourMessageIndex (tip (remoteCommitChain lc)))
                          (ourMessageIndex (tail (localCommitChain lc)));
                      fwdPkg =
                        \<lparr>pkgHeight = remoteChainTail,
                         pkgAdds = map (\<lambda>pd. (LogIndex pd, updateMsgOf pd)) (addsToForward fw),
                         pkgSettleFails =
                           map (\<lambda>pd. (LogIndex pd, updateMsgOf pd)) (settleFailsToForward fw)\<rparr>
                  in case AdvanceCommitChainTail dbOk lc2 localPeerUpdates of
                       Inl err \<Rightarrow> (lc2, Inl err)
                     | Inr lc3 \<Rightarrow>
                         (let lc4 = lc3\<lparr>remoteCommitChain := advanceTail (remoteCommitChain lc3)\<rparr> in
                          case compactLogs (localUpdateLog lc4) (remoteUpdateLog lc4) localChainTail
                                 remoteChainTail of
                            Inl err \<Rightarrow> (lc4, Inl (ErrLog err))
                          | Inr (ourLog, theirLog) \<Rightarrow>
                              (lc4\<lparr>localUpdateLog := ourLog, remoteUpdateLog := theirLog\<rparr>,
                               Inr (fwdPkg, addsToForward fw, settleFailsToForward fw))))))"

text \<open>An HTLC is active when both commitments have one with its onion blob; the hash of the
  blob, which the code compares, is the argument \<open>sha\<close>.\<close>

definition commitHtlcs :: "commitment \<Rightarrow> PaymentDescriptor list" where
  "commitHtlcs c = outgoingHTLCs c @ incomingHTLCs c"

definition ActiveHtlcs :: "(bytes \<Rightarrow> bytes) \<Rightarrow> OpenChannel \<Rightarrow> PaymentDescriptor list" where
  "ActiveHtlcs sha cs =
     (let remoteHtlcs = (\<lambda>htlc. sha (OnionBlob htlc)) ` set (commitHtlcs (RemoteCommitment cs))
      in filter (\<lambda>htlc. sha (OnionBlob htlc) \<in> remoteHtlcs) (commitHtlcs (LocalCommitment cs)))"

definition IsChannelClean :: "(bytes \<Rightarrow> bytes) \<Rightarrow> LightningChannel \<Rightarrow> bool" where
  "IsChannelClean sha lc \<longleftrightarrow>
     \<not> hasUnackedCommitment (localCommitChain lc) \<and>
     \<not> hasUnackedCommitment (remoteCommitChain lc) \<and>
     ActiveHtlcs sha (channelState lc) = [] \<and>
     \<not> oweCommitment lc True \<and> \<not> oweCommitment lc False"

end
