(* ===== verification/ChannelView.thy ===== *)
theory ChannelView
  imports Channel
begin

text \<open>
  What the channel's operations compute from a view: writing a view back into the logs, the
  size and fee of a commitment, and the specification of \<open>fetchCommitmentView\<close> on
  well-formed logs. A new commitment takes up the entries below its two indices, lists the adds
  that are not removed, and its balances and fee differ from those of the chain's tip by the
  amounts of the entries that are new in the chain (lemma \<open>fetchCommitmentView_spec\<close>).
  The sanity check is what makes the payer of the fee able to pay it.
\<close>

subsection \<open>Writing a view back\<close>

lemma writeBack_map:
  "writeBack i ents (map f (filter (\<lambda>pd. LogIndex pd < i) (map snd ents))) =
     map (\<lambda>x. (fst x, if LogIndex (snd x) < i then f (snd x) else snd x)) ents"
  by (induction ents) auto

subsection \<open>Fees\<close>

lemma i64_id: "- (2 ^ 63) \<le> x \<Longrightarrow> x < 2 ^ 63 \<Longrightarrow> i64 x = x"
  by (simp add: i64_def)

lemma uint_u64_less: "uint (w :: u64) < 18446744073709551616"
  using uint_lt2p [of w] by simp

lemma ToAtoms_div: "ToAtoms w = uint w div 1000"
proof -
  have "uint (w div 1000) = uint w div 1000" by (simp add: uint_div)
  moreover have "uint w div 1000 < 2 ^ 63" using uint_u64_less [of w] by (simp add: div_less_iff_less_mult)
  moreover have "0 \<le> uint w div 1000" by (simp add: pos_imp_zdiv_nonneg_iff)
  ultimately show ?thesis unfolding ToAtoms_def by (simp add: i64_id)
qed

lemma uint_NewMAtoms:
  assumes "0 \<le> a" and "a * 1000 < 2 ^ 64"
  shows "uint (NewMAtomsFromAtoms a) = a * 1000"
proof -
  have "uint (NewMAtomsFromAtoms a) = a * 1000 mod 2 ^ 64"
    unfolding NewMAtomsFromAtoms_def by (simp only: uint_word_of_int) simp
  then show ?thesis using assms by simp
qed

lemma ToAtoms_NewMAtoms:
  assumes "0 \<le> a" and "a < 2 ^ 32"
  shows "ToAtoms (NewMAtomsFromAtoms a) = a"
proof -
  have "uint (NewMAtomsFromAtoms a) = a * 1000" using assms by (intro uint_NewMAtoms) simp_all
  then show ?thesis by (simp add: ToAtoms_div)
qed

lemma FeeForSize_bounds:
  assumes "0 \<le> fr" and "fr < 2 ^ 32" and "0 \<le> sz" and "sz < 2 ^ 31"
  shows "0 \<le> FeeForSize fr sz" and "FeeForSize fr sz * 1000 < 2 ^ 63"
proof -
  have "fr * sz < 2 ^ 32 * 2 ^ 31" by (rule mult_strict_mono) (use assms in auto)
  then have lt: "fr * sz < 2 ^ 63" by simp
  have ge: "0 \<le> fr * sz" using assms by simp
  then have "i64 (fr * sz) = fr * sz" using lt by (intro i64_id) auto
  then have e: "FeeForSize fr sz = fr * sz div 1000" using ge by (simp add: FeeForSize_def goDiv_def)
  show "0 \<le> FeeForSize fr sz" using ge e by (simp add: pos_imp_zdiv_nonneg_iff)
  have "fr * sz div 1000 * 1000 \<le> fr * sz" by simp
  then show "FeeForSize fr sz * 1000 < 2 ^ 63" using e lt by linarith
qed

text \<open>The sanity check's signed reading of a balance: the payer of the fee can afford it.\<close>

lemma fee_covered:
  assumes "0 \<le> i64 (uint (b - NewMAtomsFromAtoms f))" and "0 \<le> f" and "f * 1000 < 2 ^ 63"
  shows "f \<le> ToAtoms b"
proof (rule ccontr)
  assume "\<not> f \<le> ToAtoms b"
  then have lt: "uint b < f * 1000" unfolding ToAtoms_div by linarith
  have b: "f * 1000 < 9223372036854775808" using assms(3) by simp
  have "uint (NewMAtomsFromAtoms f) = f * 1000" using assms(2,3) by (intro uint_NewMAtoms) simp_all
  then have "uint (b - NewMAtomsFromAtoms f) = (uint b - f * 1000) mod 18446744073709551616"
    by (simp add: uint_word_ariths)
  also have "\<dots> = (uint b - f * 1000 + 18446744073709551616) mod 18446744073709551616" by simp
  also have "\<dots> = uint b - f * 1000 + 18446744073709551616"
    using lt b uint_ge_0 [of b] by (intro mod_pos_pos_trivial) linarith+
  finally have u: "uint (b - NewMAtomsFromAtoms f) = uint b - f * 1000 + 18446744073709551616" .
  have "(uint b - f * 1000 + 18446744073709551616 + 9223372036854775808) mod 18446744073709551616 =
      (uint b - f * 1000 + 9223372036854775808 + 18446744073709551616) mod 18446744073709551616"
    by (rule arg_cong [where f = "\<lambda>x. x mod 18446744073709551616"]) linarith
  also have "\<dots> = (uint b - f * 1000 + 9223372036854775808) mod 18446744073709551616"
    by (rule mod_add_self2)
  also have "\<dots> = uint b - f * 1000 + 9223372036854775808"
    using lt b uint_ge_0 [of b] by (intro mod_pos_pos_trivial) linarith+
  finally have "i64 (uint (b - NewMAtomsFromAtoms f)) = uint b - f * 1000"
    unfolding u i64_def by simp
  then show False using assms(1) lt by linarith
qed

subsection \<open>The size of a commitment\<close>

abbreviation nonDust :: "OpenChannel \<Rightarrow> bool \<Rightarrow> bool \<Rightarrow> Atoms \<Rightarrow> Atoms \<Rightarrow> PaymentDescriptor list \<Rightarrow> PaymentDescriptor list" where
  "nonDust cs incoming ours fr dust pds \<equiv>
     filter (\<lambda>htlc. \<not> HtlcIsDust (ChanType cs) incoming ours fr (ToAtoms (Amount htlc)) dust) pds"

lemma htlcSizes_nonDust:
  "htlcSizes (ChanType cs) inc ours fr dust pds = HTLCOutputSize * int (length (nonDust cs inc ours fr dust pds))"
  by (induction pds) (simp_all add: htlcSizes_def algebra_simps)

lemma length_nonDust_touch:
  assumes "\<And>pd. Amount (f pd) = Amount pd"
  shows "length (nonDust cs inc ours fr dust (map f pds)) = length (nonDust cs inc ours fr dust pds)"
  by (simp add: filter_map comp_def assms)

lemma commit_size_bound:
  assumes "n \<le> 2 ^ 25"
  shows "0 \<le> CommitSize ct + HTLCOutputSize * int n" and "CommitSize ct + HTLCOutputSize * int n < 2 ^ 31"
proof -
  have "0 \<le> CommitSize ct" "CommitSize ct < 1000" "0 \<le> HTLCOutputSize" "HTLCOutputSize \<le> 36"
    by (simp_all add: CommitSize_def size_defs)
  moreover have "HTLCOutputSize * int n \<le> 36 * 33554432"
    using assms by (intro mult_mono) (simp_all add: size_defs)
  moreover have "0 \<le> HTLCOutputSize * int n" using calculation(3) by simp
  ultimately show "0 \<le> CommitSize ct + HTLCOutputSize * int n" "CommitSize ct + HTLCOutputSize * int n < 2 ^ 31"
    by simp_all
qed

text \<open>A commitment whose fee the payer can afford keeps the sum of balances and fee.\<close>

lemma createUnsignedCommitmentTx_total:
  assumes "createUnsignedCommitmentTx env cs b1 b2 ours fr ht vw = Inr u"
    and "f = FeeForSize fr (CommitSize (ChanType cs) + HTLCOutputSize *
      int (length (nonDust cs False ours fr (if ours then DustLimit (LocalChanCfg cs) else DustLimit (RemoteChanCfg cs)) (ourUpdates vw)) +
           length (nonDust cs True ours fr (if ours then DustLimit (LocalChanCfg cs) else DustLimit (RemoteChanCfg cs)) (theirUpdates vw))))"
    and "f \<le> ToAtoms (if IsInitiator cs then b1 else b2)"
  shows "u_fee u = f" and "u_ourBalance u = (if IsInitiator cs then b1 - NewMAtomsFromAtoms f else b1)"
    and "u_theirBalance u = (if IsInitiator cs then b2 else b2 - NewMAtomsFromAtoms f)"
proof -
  have d: "(if \<not> ours then DustLimit (RemoteChanCfg cs) else DustLimit (LocalChanCfg cs)) =
      (if ours then DustLimit (LocalChanCfg cs) else DustLimit (RemoteChanCfg cs))" by simp
  note c = assms(1) [unfolded createUnsignedCommitmentTx_def d Let_def, folded of_nat_add, folded assms(2)]
  show "u_fee u = f" "u_ourBalance u = (if IsInitiator cs then b1 - NewMAtomsFromAtoms f else b1)"
    "u_theirBalance u = (if IsInitiator cs then b2 else b2 - NewMAtomsFromAtoms f)"
    using c assms(3) by (auto split: if_splits prod.splits)
qed

subsection \<open>The fee rate of a view\<close>

definition feeRates :: "PaymentDescriptor list \<Rightarrow> Atoms set" where
  "feeRates pds = (\<lambda>e. ToAtoms (Amount e)) ` {e \<in> set pds. EntryType e = FeeUpdate}"

lemma removePass_fee:
  "removePass u h c inc m es acc = (es', acc', r) \<Longrightarrow> acc_fee acc' \<in> insert (acc_fee acc) (feeRates es)"
proof (induction es arbitrary: acc es')
  case (Cons e es)
  have sub: "feeRates es \<subseteq> feeRates (e # es)" by (auto simp: feeRates_def)
  show ?case
  proof (cases "EntryType e = FeeUpdate")
    case True
    let ?fr = "snd (processFeeUpdate e h c m (acc_fee acc))"
    have "?fr \<in> insert (acc_fee acc) (feeRates (e # es))"
      using True by (simp add: processFeeUpdate_def feeRates_def)
    moreover obtain es1 where "removePass u h c inc m es (acc\<lparr>acc_fee := ?fr\<rparr>) = (es1, acc', r)"
      using Cons.prems True by (simp add: case_prod_unfold Let_def prod_eq_iff)
    ultimately show ?thesis using Cons.IH sub by fastforce
  next
    case nonfee: False
    show ?thesis
    proof (cases "EntryType e = Add")
      case True
      obtain es1 where "removePass u h c inc m es acc = (es1, acc', r)"
        using Cons.prems True by (simp add: case_prod_unfold Let_def prod_eq_iff)
      then show ?thesis using Cons.IH sub by blast
    next
      case False
      define t1 where "t1 = (if m \<and> EntryType e = Settle \<and> \<not> c \<and> removeCommitHeightLocal e = 0
        then acc\<lparr>acc_total := acc_total acc + Amount e\<rparr> else acc)"
      have f: "acc_fee t1 = acc_fee acc" by (simp add: t1_def)
      note p = Cons.prems [unfolded removePass.simps t1_def [symmetric]]
      show ?thesis
      proof (cases "fetchParent u e c")
        case (Inl err)
        then show ?thesis using p nonfee False f by (simp add: Let_def)
      next
        case (Inr a)
        let ?n = "t1\<lparr>acc_skip := insert (HtlcIndex a) (acc_skip t1),
          acc_bal := snd (processRemoveEntry e (acc_bal t1) h c inc m)\<rparr>"
        obtain es1 where 1: "removePass u h c inc m es ?n = (es1, acc', r)"
          using p nonfee False Inr by (simp add: case_prod_unfold Let_def prod_eq_iff)
        show ?thesis using Cons.IH [OF 1] f sub by auto
      qed
    qed
  qed
qed simp

lemma evaluate_fee:
  assumes "ev_view (evaluateHTLCView L R rec snt vw b h c m) = Inr fv"
  shows "feePerKB fv \<in> insert (feePerKB vw) (feeRates (ourUpdates vw) \<union> feeRates (theirUpdates vw))"
proof -
  obtain o1 a1 q1 where 1: "removePass R h c True m (ourUpdates vw)
      \<lparr>acc_bal = b, acc_fee = feePerKB vw, acc_skip = {}, acc_total = rec\<rparr> = (o1, a1, q1)"
    by (metis prod_cases3)
  have q1: "q1 = None" using assms 1 by (auto simp: evaluateHTLCView_def split: option.splits)
  obtain t2 a2 q2 where 2: "removePass L h c False m (theirUpdates vw)
      \<lparr>acc_bal = acc_bal a1, acc_fee = acc_fee a1, acc_skip = {}, acc_total = snt\<rparr> = (t2, a2, q2)"
    by (metis prod_cases3)
  have q2: "q2 = None" using assms 1 q1 2 by (auto simp: evaluateHTLCView_def split: option.splits)
  have "feePerKB fv = acc_fee a2" using assms 1 2 q1 q2 by (auto simp: evaluateHTLCView_def case_prod_unfold Let_def)
  then show ?thesis using removePass_fee [OF 1] removePass_fee [OF 2] by auto
qed

subsection \<open>A new commitment\<close>

text \<open>A fee rate as the update message carries it.\<close>

definition feeRange :: "Atoms set" where
  "feeRange = {0..<2 ^ 32}"

abbreviation oursAt :: "LightningChannel \<Rightarrow> u64 \<Rightarrow> PaymentDescriptor list" where
  "oursAt lc i \<equiv> filter (\<lambda>pd. LogIndex pd < i) (descriptors (localUpdateLog lc))"

abbreviation theirsAt :: "LightningChannel \<Rightarrow> u64 \<Rightarrow> PaymentDescriptor list" where
  "theirsAt lc i \<equiv> filter (\<lambda>pd. LogIndex pd < i) (descriptors (remoteUpdateLog lc))"

definition touchLog :: "bool \<Rightarrow> u64 \<Rightarrow> u64 \<Rightarrow> updateLog \<Rightarrow> updateLog" where
  "touchLog c h i u = u\<lparr>entries := map (\<lambda>x. (fst x, if LogIndex (snd x) < i then touch c h (snd x) else snd x)) (entries u)\<rparr>"

definition commitTotal :: "commitment \<Rightarrow> u64" where
  "commitTotal cm = ourBalance cm + theirBalance cm + NewMAtomsFromAtoms (fee cm)"

definition smallLogs :: "LightningChannel \<Rightarrow> bool" where
  "smallLogs lc \<longleftrightarrow> length (entries (localUpdateLog lc)) + length (entries (remoteUpdateLog lc)) \<le> 2 ^ 25 \<and>
     (\<forall>c. c_feePerKB (tip (commitChainOf lc c)) \<in> feeRange) \<and>
     feeRates (descriptors (localUpdateLog lc)) \<subseteq> feeRange \<and> feeRates (descriptors (remoteUpdateLog lc)) \<subseteq> feeRange"

text \<open>The evaluation that \<open>computeView\<close> makes, and its starting point.\<close>

definition startBal :: "LightningChannel \<Rightarrow> bool \<Rightarrow> balances" where
  "startBal lc c =
     (let cm = tip (commitChainOf lc c); f = NewMAtomsFromAtoms (fee cm); init = IsInitiator (channelState lc)
      in \<lparr>ourBal = (if init then ourBalance cm + f else ourBalance cm),
          theirBal = (if \<not> init then theirBalance cm + f else theirBalance cm)\<rparr>)"

definition evalView :: "LightningChannel \<Rightarrow> htlcView \<Rightarrow> bool \<Rightarrow> bool \<Rightarrow> evaluation" where
  "evalView lc vw c m =
     evaluateHTLCView (localUpdateLog lc) (remoteUpdateLog lc) (TotalMAtomsReceived (channelState lc))
       (TotalMAtomsSent (channelState lc)) (vw\<lparr>feePerKB := c_feePerKB (tip (commitChainOf lc c))\<rparr>)
       (startBal lc c) (height (tip (commitChainOf lc c)) + 1) c m"

lemma totalBal_start: "totalBal (startBal lc c) = commitTotal (tip (commitChainOf lc c))"
  unfolding totalBal_def startBal_def commitTotal_def Let_def by simp

definition viewSize :: "LightningChannel \<Rightarrow> bool \<Rightarrow> htlcView \<Rightarrow> int" where
  "viewSize lc c fv =
     CommitSize (ChanType (channelState lc)) + HTLCOutputSize *
       int (length (nonDust (channelState lc) False (\<not> c) (feePerKB fv) (dustLimitOf lc c) (ourUpdates fv)) +
            length (nonDust (channelState lc) True (\<not> c) (feePerKB fv) (dustLimitOf lc c) (theirUpdates fv)))"

lemma computeView_eq:
  "computeView lc vw c m =
     (evalView lc vw c m,
      case ev_view (evalView lc vw c m) of
        Inl err \<Rightarrow> Inl (ErrView err)
      | Inr fv \<Rightarrow> Inr \<lparr>v_our = ourBal (ev_bal (evalView lc vw c m)), v_their = theirBal (ev_bal (evalView lc vw c m)),
                       v_size = viewSize lc c fv, v_view = fv\<rparr>)"
  unfolding computeView_def evalView_def startBal_def Let_def viewSize_def htlcSizes_nonDust
  by (auto simp: algebra_simps split: sum.split)

text \<open>The fee the sanity check accepts is covered by the balance of its payer.\<close>

lemma sanity_payer:
  assumes "validateCommitmentSanity lc t i c None None = Inr ()"
    and "ev = evalView lc (fetchHTLCView (localUpdateLog lc) (remoteUpdateLog lc) t i) c False"
  shows "\<exists>fv. ev_view ev = Inr fv \<and>
    0 \<le> i64 (uint ((if IsInitiator (channelState lc) then ourBal (ev_bal ev) else theirBal (ev_bal ev)) -
                   NewMAtomsFromAtoms (FeeForSize (feePerKB fv) (viewSize lc c fv))))"
proof (cases "ev_view ev")
  case (Inl err)
  then show ?thesis using assms unfolding validateCommitmentSanity_def Let_def computeView_eq by simp
next
  case (Inr fv)
  then show ?thesis using assms unfolding validateCommitmentSanity_def Let_def computeView_eq
    by (simp split: if_splits)
qed

lemma length_live: "length (live xs ys) \<le> length ys"
  by (simp add: live_def)

lemma feeRates_filter: "feeRates (filter P pds) \<subseteq> feeRates pds"
  by (auto simp: feeRates_def)

lemma viewSize_touch:
  assumes "\<And>pd. Amount (f pd) = Amount pd" and "ourUpdates fv = map f xs" and "theirUpdates fv = map f ys"
    and "ourUpdates fv' = xs" and "theirUpdates fv' = ys" and "feePerKB fv' = feePerKB fv"
  shows "viewSize lc c fv = viewSize lc c fv'"
  by (simp only: viewSize_def assms(2-6) length_nonDust_touch [OF assms(1)])

text \<open>What the sanity check and the evaluation give for the view of a new commitment.\<close>

lemma new_view:
  assumes "wf_log (localUpdateLog lc)" and "wf_log (remoteUpdateLog lc)" and "smallLogs lc"
    and "validateCommitmentSanity lc t i c None None = Inr ()"
    and "vw = fetchHTLCView (localUpdateLog lc) (remoteUpdateLog lc) t i"
    and "ev_view (evalView lc vw c True) = Inr fv"
  shows "feePerKB fv \<in> feeRange"
    and "FeeForSize (feePerKB fv) (viewSize lc c fv) \<le>
      ToAtoms (if IsInitiator (channelState lc) then ourBal (ev_bal (evalView lc vw c True))
               else theirBal (ev_bal (evalView lc vw c True)))"
proof -
  let ?L = "localUpdateLog lc" and ?R = "remoteUpdateLog lc" and ?cm = "tip (commitChainOf lc c)"
  let ?vw = "vw\<lparr>feePerKB := c_feePerKB ?cm\<rparr>"
  have up: "ourUpdates ?vw = oursAt lc i" "theirUpdates ?vw = theirsAt lc t" "feePerKB ?vw = c_feePerKB ?cm"
    by (simp_all add: assms(5) fetchHTLCView_def)
  have sub: "set (ourUpdates ?vw) \<subseteq> set (descriptors ?L)" "set (theirUpdates ?vw) \<subseteq> set (descriptors ?R)"
    unfolding up by auto
  obtain fv' where fv': "ev_view (evalView lc vw c False) = Inr fv'"
    and pay: "0 \<le> i64 (uint ((if IsInitiator (channelState lc) then ourBal (ev_bal (evalView lc vw c False))
        else theirBal (ev_bal (evalView lc vw c False))) - NewMAtomsFromAtoms (FeeForSize (feePerKB fv') (viewSize lc c fv'))))"
    using sanity_payer [OF assms(4) refl] unfolding assms(5) [symmetric] by blast
  have mut: "feePerKB fv' = feePerKB fv" "ev_bal (evalView lc vw c False) = ev_bal (evalView lc vw c True)"
    using evaluate_mutate [OF assms(1,2) assms(6) [unfolded evalView_def] fv' [unfolded evalView_def]]
    unfolding evalView_def by auto
  note T = evaluate_spec [OF assms(1,2) sub refl assms(6) [unfolded evalView_def]]
    and F = evaluate_spec [OF assms(1,2) sub refl fv' [unfolded evalView_def]]
  have lists: "ourUpdates fv = map (touch c (height ?cm + 1)) (live (theirsAt lc t) (oursAt lc i))"
      "theirUpdates fv = map (touch c (height ?cm + 1)) (live (oursAt lc i) (theirsAt lc t))"
      "ourUpdates fv' = live (theirsAt lc t) (oursAt lc i)" "theirUpdates fv' = live (oursAt lc i) (theirsAt lc t)"
    using T(2,3) F(2,3) unfolding up by simp_all
  have size: "viewSize lc c fv = viewSize lc c fv'"
    by (rule viewSize_touch [OF _ lists mut(1)]) simp
  have small: "c_feePerKB ?cm \<in> feeRange" "feeRates (descriptors ?L) \<subseteq> feeRange" "feeRates (descriptors ?R) \<subseteq> feeRange"
    using assms(3) unfolding smallLogs_def by blast+
  have rates: "feeRates (oursAt lc i) \<subseteq> feeRange" "feeRates (theirsAt lc t) \<subseteq> feeRange"
    by (rule subset_trans [OF feeRates_filter small(2)]) (rule subset_trans [OF feeRates_filter small(3)])
  have "feePerKB fv \<in> insert (c_feePerKB ?cm) (feeRates (oursAt lc i) \<union> feeRates (theirsAt lc t))"
    using evaluate_fee [OF assms(6) [unfolded evalView_def]] unfolding up .
  then show fr: "feePerKB fv \<in> feeRange"
    using small(1) rates by (elim insertE UnE) (simp_all only: subset_iff)
  let ?n = "length (nonDust (channelState lc) False (\<not> c) (feePerKB fv) (dustLimitOf lc c) (ourUpdates fv)) +
            length (nonDust (channelState lc) True (\<not> c) (feePerKB fv) (dustLimitOf lc c) (theirUpdates fv))"
  have "?n \<le> length (ourUpdates fv) + length (theirUpdates fv)" by (intro add_mono length_filter_le)
  also have "\<dots> \<le> length (oursAt lc i) + length (theirsAt lc t)"
    unfolding lists length_map by (intro add_mono length_live)
  also have "\<dots> \<le> length (descriptors ?L) + length (descriptors ?R)" by (intro add_mono length_filter_le)
  also have "\<dots> \<le> 2 ^ 25" using assms(3) by (simp add: smallLogs_def)
  finally have n: "?n \<le> 2 ^ 25" .
  have "0 \<le> feePerKB fv" "feePerKB fv < 2 ^ 32" using fr by (simp_all add: feeRange_def)
  note fee = FeeForSize_bounds [OF this commit_size_bound [OF n, of "ChanType (channelState lc)"], folded viewSize_def]
  show "FeeForSize (feePerKB fv) (viewSize lc c fv) \<le>
      ToAtoms (if IsInitiator (channelState lc) then ourBal (ev_bal (evalView lc vw c True))
               else theirBal (ev_bal (evalView lc vw c True)))"
    by (rule fee_covered [OF _ fee]) (use pay in \<open>simp add: mut size split: if_splits\<close>)
qed

lemma fetchCommitmentView_eq:
  assumes "vw = fetchHTLCView (localUpdateLog lc) (remoteUpdateLog lc) t i"
    and "fetchCommitmentView tenv senv lc c i ih t th = (lc', Inr cm)" and "ev = evalView lc vw c True"
  shows "lc' = applyEvaluation lc i t ev"
    and "\<exists>fv utx. ev_view ev = Inr fv \<and>
      createUnsignedCommitmentTx tenv (channelState lc') (ourBal (ev_bal ev)) (theirBal (ev_bal ev)) (\<not> c) (feePerKB fv)
        (height (tip (commitChainOf lc c)) + 1) fv = Inr utx \<and>
      cm = \<lparr>height = height (tip (commitChainOf lc c)) + 1, isOurs = \<not> c, ourMessageIndex = i, theirMessageIndex = t,
        ourHtlcIndex = ih, theirHtlcIndex = th, txn = u_txn utx, ourBalance = u_ourBalance utx,
        theirBalance = u_theirBalance utx, fee = u_fee utx, c_feePerKB = feePerKB fv,
        dustLimit = dustLimitOf lc c, outgoingHTLCs = ourUpdates fv, incomingHTLCs = theirUpdates fv\<rparr>"
proof -
  note d = assms(2) [unfolded fetchCommitmentView_def Let_def assms(1) [symmetric] computeView_eq assms(3) [symmetric]]
  show lc': "lc' = applyEvaluation lc i t ev" using d by simp
  show "\<exists>fv utx. ev_view ev = Inr fv \<and>
      createUnsignedCommitmentTx tenv (channelState lc') (ourBal (ev_bal ev)) (theirBal (ev_bal ev)) (\<not> c) (feePerKB fv)
        (height (tip (commitChainOf lc c)) + 1) fv = Inr utx \<and>
      cm = \<lparr>height = height (tip (commitChainOf lc c)) + 1, isOurs = \<not> c, ourMessageIndex = i, theirMessageIndex = t,
        ourHtlcIndex = ih, theirHtlcIndex = th, txn = u_txn utx, ourBalance = u_ourBalance utx,
        theirBalance = u_theirBalance utx, fee = u_fee utx, c_feePerKB = feePerKB fv,
        dustLimit = dustLimitOf lc c, outgoingHTLCs = ourUpdates fv, incomingHTLCs = theirUpdates fv\<rparr>"
    using d lc' by (cases "ev_view ev") (auto simp: bindR_Inr_iff split: if_splits)
qed

lemma fetchCommitmentView_spec:
  assumes "wf_log (localUpdateLog lc)" and "wf_log (remoteUpdateLog lc)" and "smallLogs lc"
    and "validateCommitmentSanity lc t i c None None = Inr ()"
    and "fetchCommitmentView tenv senv lc c i ih t th = (lc', Inr cm)" and "h = height (tip (commitChainOf lc c)) + 1"
  shows "\<exists>r s. lc' = lc\<lparr>localUpdateLog := touchLog c h i (localUpdateLog lc),
      remoteUpdateLog := touchLog c h t (remoteUpdateLog lc),
      channelState := (channelState lc)\<lparr>TotalMAtomsReceived := r, TotalMAtomsSent := s\<rparr>\<rparr>"
    and "height cm = h" "ourMessageIndex cm = i" "theirMessageIndex cm = t" "ourHtlcIndex cm = ih" "theirHtlcIndex cm = th"
    and "outgoingHTLCs cm = map (touch c h) (live (theirsAt lc t) (oursAt lc i))"
    and "incomingHTLCs cm = map (touch c h) (live (oursAt lc i) (theirsAt lc t))"
    and "commitTotal cm + fresh c isAdd (oursAt lc i @ theirsAt lc t) =
      commitTotal (tip (commitChainOf lc c)) + fresh c isRmv (oursAt lc i @ theirsAt lc t)"
    and "c_feePerKB cm \<in> feeRange"
    and "\<forall>e \<in> set (oursAt lc i). isRmv e \<longrightarrow>
      (\<exists>a. lookupHtlc (remoteUpdateLog lc) (ParentIndex e) = Some a \<and> addHeight c a \<noteq> 0)"
    and "\<forall>e \<in> set (theirsAt lc t). isRmv e \<longrightarrow>
      (\<exists>a. lookupHtlc (localUpdateLog lc) (ParentIndex e) = Some a \<and> addHeight c a \<noteq> 0)"
proof -
  let ?L = "localUpdateLog lc" and ?R = "remoteUpdateLog lc" and ?cm = "tip (commitChainOf lc c)"
  define vw where "vw = fetchHTLCView ?L ?R t i"
  define ev where "ev = evalView lc vw c True"
  let ?vw = "vw\<lparr>feePerKB := c_feePerKB ?cm\<rparr>"
  have up: "ourUpdates ?vw = oursAt lc i" "theirUpdates ?vw = theirsAt lc t"
    by (simp_all add: vw_def fetchHTLCView_def)
  have sub: "set (ourUpdates ?vw) \<subseteq> set (descriptors ?L)" "set (theirUpdates ?vw) \<subseteq> set (descriptors ?R)"
    unfolding up by auto
  obtain fv utx where fv: "ev_view ev = Inr fv"
    and utx: "createUnsignedCommitmentTx tenv (channelState lc') (ourBal (ev_bal ev)) (theirBal (ev_bal ev)) (\<not> c)
      (feePerKB fv) (height ?cm + 1) fv = Inr utx"
    and cm: "cm = \<lparr>height = height ?cm + 1, isOurs = \<not> c, ourMessageIndex = i, theirMessageIndex = t,
        ourHtlcIndex = ih, theirHtlcIndex = th, txn = u_txn utx, ourBalance = u_ourBalance utx,
        theirBalance = u_theirBalance utx, fee = u_fee utx, c_feePerKB = feePerKB fv,
        dustLimit = dustLimitOf lc c, outgoingHTLCs = ourUpdates fv, incomingHTLCs = theirUpdates fv\<rparr>"
    using fetchCommitmentView_eq(2) [OF vw_def assms(5) ev_def] by blast
  have lc': "lc' = applyEvaluation lc i t ev" by (rule fetchCommitmentView_eq(1) [OF vw_def assms(5) ev_def])
  note E = evaluate_spec [OF assms(1,2) sub refl fv [unfolded ev_def evalView_def], folded evalView_def ev_def assms(6), unfolded up]
  note N = new_view [OF assms(1-4) vw_def fv [unfolded ev_def], folded ev_def]
  show "\<exists>r s. lc' = lc\<lparr>localUpdateLog := touchLog c h i ?L, remoteUpdateLog := touchLog c h t ?R,
      channelState := (channelState lc)\<lparr>TotalMAtomsReceived := r, TotalMAtomsSent := s\<rparr>\<rparr>"
    using E(1) by (auto simp: lc' applyEvaluation_def touchLog_def writeBack_map)
  show "height cm = h" "ourMessageIndex cm = i" "theirMessageIndex cm = t" "ourHtlcIndex cm = ih" "theirHtlcIndex cm = th"
    by (simp_all add: cm assms(6))
  show "outgoingHTLCs cm = map (touch c h) (live (theirsAt lc t) (oursAt lc i))"
    "incomingHTLCs cm = map (touch c h) (live (oursAt lc i) (theirsAt lc t))"
    using E(2,3) by (simp_all add: cm)
  show "c_feePerKB cm \<in> feeRange" using N(1) by (simp add: cm)
  show "\<forall>e \<in> set (oursAt lc i). isRmv e \<longrightarrow> (\<exists>a. lookupHtlc ?R (ParentIndex e) = Some a \<and> addHeight c a \<noteq> 0)"
    by (rule E(5))
  show "\<forall>e \<in> set (theirsAt lc t). isRmv e \<longrightarrow> (\<exists>a. lookupHtlc ?L (ParentIndex e) = Some a \<and> addHeight c a \<noteq> 0)"
    by (rule E(6))
  have cs: "ChanType (channelState lc') = ChanType (channelState lc)" "LocalChanCfg (channelState lc') = LocalChanCfg (channelState lc)"
    "RemoteChanCfg (channelState lc') = RemoteChanCfg (channelState lc)" "IsInitiator (channelState lc') = IsInitiator (channelState lc)"
    by (simp_all add: lc' applyEvaluation_def)
  have dl: "(if \<not> c then DustLimit (LocalChanCfg (channelState lc)) else DustLimit (RemoteChanCfg (channelState lc))) = dustLimitOf lc c"
    by simp
  note U = createUnsignedCommitmentTx_total [OF utx refl, unfolded cs dl, folded viewSize_def, OF N(2)]
  have "commitTotal cm = totalBal (ev_bal ev)" by (simp add: cm commitTotal_def totalBal_def U)
  then show "commitTotal cm + fresh c isAdd (oursAt lc i @ theirsAt lc t) =
      commitTotal ?cm + fresh c isRmv (oursAt lc i @ theirsAt lc t)"
    using E(4) totalBal_start by simp
qed

end
