(* ===== verification/ChannelInv.thy ===== *)
theory ChannelInv
  imports ChannelView
begin

text \<open>
  Runs of a channel and the invariant of its state. \<open>chan_step\<close> has one rule for each
  operation of \<open>Channel\<close> that the link calls; \<open>reachable T n\<close> are the channels that \<open>n\<close>
  successful operations reach from one opened with \<open>T\<close> milli-atoms. The invariant
  \<open>chan_inv\<close> is a conjunction of named parts; this theory proves that it holds when a channel
  opens and that the operations which append an entry to a log keep it.
\<close>

subsection \<open>Rewriting the descriptors of a log\<close>

text \<open>A log whose descriptors were rewritten in place, each as \<open>P\<close> allows.\<close>

definition rewritten :: "(PaymentDescriptor \<Rightarrow> PaymentDescriptor \<Rightarrow> bool) \<Rightarrow> updateLog \<Rightarrow> updateLog \<Rightarrow> bool" where
  "rewritten P u u' \<longleftrightarrow> u' = u\<lparr>entries := entries u'\<rparr> \<and>
     list_all2 (\<lambda>x y. fst y = fst x \<and> P (snd x) (snd y)) (entries u) (entries u')"

lemma rewritten_fields:
  assumes "rewritten P u u'"
  shows "logIndex u' = logIndex u" "htlcCounter u' = htlcCounter u" "nextElem u' = nextElem u"
    "updateIndex u' = updateIndex u" "htlcIndex u' = htlcIndex u" "modifiedHtlcs u' = modifiedHtlcs u"
    "length (entries u') = length (entries u)"
proof -
  have u: "u' = u\<lparr>entries := entries u'\<rparr>" using assms by (simp add: rewritten_def)
  show "logIndex u' = logIndex u" "htlcCounter u' = htlcCounter u" "nextElem u' = nextElem u"
    "updateIndex u' = updateIndex u" "htlcIndex u' = htlcIndex u" "modifiedHtlcs u' = modifiedHtlcs u"
    by (subst u; simp)+
  show "length (entries u') = length (entries u)"
    using assms by (auto simp: rewritten_def dest: list_all2_lengthD)
qed

lemma rewritten_descriptors: "rewritten P u u' \<Longrightarrow> list_all2 P (descriptors u) (descriptors u')"
  by (auto simp: rewritten_def list.rel_map elim: list.rel_mono_strong)

lemma list_all2_map_filter:
  assumes "list_all2 P xs ys" and "\<And>x y. P x y \<Longrightarrow> f y = f x \<and> Q y = Q x"
  shows "map f (filter Q ys) = map f (filter Q xs)"
  using assms(1) by (induction rule: list_all2_induct) (auto dest: assms(2))

lemma list_all2_setD:
  assumes "list_all2 P xs ys"
  shows "y \<in> set ys \<Longrightarrow> \<exists>x \<in> set xs. P x y" and "x \<in> set xs \<Longrightarrow> \<exists>y \<in> set ys. P x y"
  using assms by (induction rule: list_all2_induct) auto

lemma wf_log_rewritten:
  assumes "wf_log u" and "rewritten P u u'" and "\<And>x y. P x y \<Longrightarrow> sameEntry x y"
  shows "wf_log u'"
proof -
  have la: "list_all2 (\<lambda>x y. fst y = fst x \<and> P (snd x) (snd y)) (entries u) (entries u')"
    using assms(2) by (simp add: rewritten_def)
  note f = rewritten_fields [OF assms(2)]
  have fwd: "\<exists>y \<in> set (entries u'). fst y = fst x \<and> sameEntry (snd x) (snd y)" if "x \<in> set (entries u)" for x
    using list_all2_setD(2) [OF la that] assms(3) by blast
  have bwd: "\<exists>x \<in> set (entries u). fst y = fst x \<and> sameEntry (snd x) (snd y)" if "y \<in> set (entries u')" for y
    using list_all2_setD(1) [OF la that] assms(3) by blast
  have "map fst (entries u') = map fst (entries u)"
    using list_all2_map_filter [OF la, where f = fst and Q = "\<lambda>_. True"] by simp
  then have 1: "distinct (map fst (entries u'))" using wf_logD(1) [OF assms(1)] by simp
  have 2: "\<forall>x \<in> set (entries u'). fst x < nextElem u' \<and> LogIndex (snd x) < logIndex u' \<and>
        (isAdd (snd x) \<longrightarrow> HtlcIndex (snd x) < htlcCounter u')"
  proof
    fix y assume "y \<in> set (entries u')"
    then obtain x where x: "x \<in> set (entries u)" "fst y = fst x" "sameEntry (snd x) (snd y)" using bwd by blast
    then show "fst y < nextElem u' \<and> LogIndex (snd y) < logIndex u' \<and> (isAdd (snd y) \<longrightarrow> HtlcIndex (snd y) < htlcCounter u')"
      using wf_logD(2-4) [OF assms(1) x(1)] sameEntry_kind [OF x(3)] by (simp add: f sameEntry_def)
  qed
  have ex: "(\<exists>x \<in> set (entries u'). fst x = e \<and> Q (isAdd (snd x)) (HtlcIndex (snd x)) (LogIndex (snd x))) \<longleftrightarrow>
      (\<exists>x \<in> set (entries u). fst x = e \<and> Q (isAdd (snd x)) (HtlcIndex (snd x)) (LogIndex (snd x)))" for e Q
  proof -
    have k: "sameEntry p q \<Longrightarrow> Q (isAdd q) (HtlcIndex q) (LogIndex q) = Q (isAdd p) (HtlcIndex p) (LogIndex p)" for p q
      using sameEntry_kind [of p q] by (simp add: sameEntry_def)
    show ?thesis
    proof
      assume "\<exists>x \<in> set (entries u'). fst x = e \<and> Q (isAdd (snd x)) (HtlcIndex (snd x)) (LogIndex (snd x))"
      then obtain y where y: "y \<in> set (entries u')" "fst y = e" "Q (isAdd (snd y)) (HtlcIndex (snd y)) (LogIndex (snd y))"
        by blast
      obtain x where "x \<in> set (entries u)" "fst y = fst x" "sameEntry (snd x) (snd y)" using bwd [OF y(1)] by blast
      then show "\<exists>x \<in> set (entries u). fst x = e \<and> Q (isAdd (snd x)) (HtlcIndex (snd x)) (LogIndex (snd x))"
        using y k [of "snd x" "snd y"] by auto
    next
      assume "\<exists>x \<in> set (entries u). fst x = e \<and> Q (isAdd (snd x)) (HtlcIndex (snd x)) (LogIndex (snd x))"
      then obtain x where x: "x \<in> set (entries u)" "fst x = e" "Q (isAdd (snd x)) (HtlcIndex (snd x)) (LogIndex (snd x))"
        by blast
      obtain y where "y \<in> set (entries u')" "fst y = fst x" "sameEntry (snd x) (snd y)" using fwd [OF x(1)] by blast
      then show "\<exists>x \<in> set (entries u'). fst x = e \<and> Q (isAdd (snd x)) (HtlcIndex (snd x)) (LogIndex (snd x))"
        using x k [of "snd x" "snd y"] by auto
    qed
  qed
  have 3: "htlcIndex u' i = Some e \<longleftrightarrow> (\<exists>x \<in> set (entries u'). fst x = e \<and> isAdd (snd x) \<and> HtlcIndex (snd x) = i)" for i e
    unfolding f wf_logD(5) [OF assms(1)] using ex [of e "\<lambda>a h l. a \<and> h = i"] by (rule sym)
  have 4: "updateIndex u' i = Some e \<longleftrightarrow> (\<exists>x \<in> set (entries u'). fst x = e \<and> \<not> isAdd (snd x) \<and> LogIndex (snd x) = i)" for i e
    unfolding f wf_logD(6) [OF assms(1)] using ex [of e "\<lambda>a h l. \<not> a \<and> l = i"] by (rule sym)
  show ?thesis unfolding wf_log_def by (intro conjI allI 1 2 3 4)
qed

lemma paired_rewritten:
  assumes "paired A B" and "rewritten P A A'" and "rewritten Q B B'"
    and "\<And>x y. P x y \<Longrightarrow> sameEntry x y" and "\<And>x y. Q x y \<Longrightarrow> sameEntry x y"
  shows "paired A' B'"
proof -
  note dA = rewritten_descriptors [OF assms(2)] and dB = rewritten_descriptors [OF assms(3)]
  have k: "ParentIndex y = ParentIndex x \<and> isRmv y = isRmv x" if "P x y" for x y
    using sameEntry_kind [OF assms(4) [OF that]] assms(4) [OF that] by (simp add: sameEntry_def)
  have "map ParentIndex (filter isRmv (descriptors A')) = map ParentIndex (filter isRmv (descriptors A))"
    by (rule list_all2_map_filter [OF dA k])
  then have dist: "distinct (map ParentIndex (filter isRmv (descriptors A')))" using assms(1) by (simp add: paired_def)
  have par: "ParentIndex r \<in> modifiedHtlcs B' \<and>
      (\<exists>a \<in> set (descriptors B'). isAdd a \<and> HtlcIndex a = ParentIndex r \<and> Amount a = Amount r)"
    if r: "r \<in> set (descriptors A')" "isRmv r" for r
  proof -
    obtain r0 where r0: "r0 \<in> set (descriptors A)" "sameEntry r0 r" using list_all2_setD(1) [OF dA r(1)] assms(4) by blast
    then have "isRmv r0" using sameEntry_kind [OF r0(2)] r(2) by simp
    then obtain a where a: "a \<in> set (descriptors B)" "isAdd a" "HtlcIndex a = ParentIndex r0" "Amount a = Amount r0"
      and m: "ParentIndex r0 \<in> modifiedHtlcs B"
      using assms(1) r0(1) unfolding paired_def by blast
    obtain a' where a': "a' \<in> set (descriptors B')" "sameEntry a a'" using list_all2_setD(2) [OF dB a(1)] assms(5) by blast
    have "isAdd a'" using sameEntry_kind [OF a'(2)] a(2) by simp
    moreover have "HtlcIndex a' = ParentIndex r" "Amount a' = Amount r" "ParentIndex r = ParentIndex r0"
      using a'(2) a(3,4) r0(2) by (simp_all add: sameEntry_def)
    ultimately show ?thesis using a'(1) m rewritten_fields(6) [OF assms(3)] by auto
  qed
  show ?thesis unfolding paired_def using par dist by blast
qed

subsection \<open>Runs of a channel\<close>

text \<open>One step is one operation that succeeds, with any environment. An operation that fails
  after it has changed the channel ends the use of the channel: the link that called it stops.
  Fee rates are those the update message can carry.\<close>

inductive chan_step :: "LightningChannel \<Rightarrow> LightningChannel \<Rightarrow> bool" where
  add: "AddHTLC lc htlc key = Inr (lc', i) \<Longrightarrow> chan_step lc lc'"
| receive_add: "ReceiveHTLC lc htlc = Inr (lc', i) \<Longrightarrow> chan_step lc lc'"
| settle: "SettleHTLC hash lc pre i src dst key = Inr lc' \<Longrightarrow> chan_step lc lc'"
| receive_settle: "ReceiveHTLCSettle hash lc pre i = Inr lc' \<Longrightarrow> chan_step lc lc'"
| fail: "FailHTLC lc i reason src dst key = Inr lc' \<Longrightarrow> chan_step lc lc'"
| fail_malformed: "MalformedFailHTLC lc i code blob src = Inr lc' \<Longrightarrow> chan_step lc lc'"
| receive_fail: "ReceiveFailHTLC lc i reason = Inr lc' \<Longrightarrow> chan_step lc lc'"
| update_fee: "UpdateFee lc fr = Inr lc' \<Longrightarrow> fr \<in> feeRange \<Longrightarrow> chan_step lc lc'"
| receive_fee: "ReceiveUpdateFee lc fr = Inr lc' \<Longrightarrow> fr \<in> feeRange \<Longrightarrow> chan_step lc lc'"
| sign: "SignNextCommitment tenv senv dbOk lc = (lc', Inr cm) \<Longrightarrow> chan_step lc lc'"
| receive_commitment: "ReceiveNewCommitment H tenv senv lc = (lc', Inr cm) \<Longrightarrow> chan_step lc lc'"
| revoke: "RevokeCurrentCommitment H point dbOk lc = (lc', Inr msg) \<Longrightarrow> chan_step lc lc'"
| receive_revocation: "ReceiveRevocation H point source dbOk lc msg = (lc', Inr res) \<Longrightarrow> chan_step lc lc'"

text \<open>A channel just opened, with \<open>T\<close> milli-atoms in it.\<close>

definition opened :: "u64 \<Rightarrow> LightningChannel \<Rightarrow> bool" where
  "opened T lc \<longleftrightarrow>
     (\<exists>cl cr. localCommitChain lc = [cl] \<and> remoteCommitChain lc = [cr] \<and>
        LocalCommitment (channelState lc) = cl \<and> RemoteCommitment (channelState lc) = cr \<and>
        (\<forall>cm \<in> {cl, cr}. height cm = 0 \<and> ourMessageIndex cm = 0 \<and> theirMessageIndex cm = 0 \<and>
           ourHtlcIndex cm = 0 \<and> theirHtlcIndex cm = 0 \<and> outgoingHTLCs cm = [] \<and> incomingHTLCs cm = [] \<and>
           c_feePerKB cm \<in> feeRange \<and> commitTotal cm = T)) \<and>
     currentHeight lc = 0 \<and> localUpdateLog lc = newUpdateLog 0 0 \<and> remoteUpdateLog lc = newUpdateLog 0 0 \<and>
     commitDiff (bucket lc) = None"

text \<open>The channels a run of at most \<open>n\<close> steps reaches. The bound on the length keeps
  indices, heights and the size of a commitment within their machine integers.\<close>

definition maxSteps :: nat where
  "maxSteps = 2 ^ 25"

inductive reachable :: "u64 \<Rightarrow> nat \<Rightarrow> LightningChannel \<Rightarrow> bool" for T where
  start: "opened T lc \<Longrightarrow> reachable T 0 lc"
| step: "reachable T n lc \<Longrightarrow> chan_step lc lc' \<Longrightarrow> n < maxSteps \<Longrightarrow> reachable T (Suc n) lc'"

subsection \<open>The invariant\<close>

text \<open>Log, index and HTLCs of a side: \<open>True\<close> is ours, \<open>False\<close> theirs.\<close>

definition logOf :: "LightningChannel \<Rightarrow> bool \<Rightarrow> updateLog" where
  "logOf lc s = (if s then localUpdateLog lc else remoteUpdateLog lc)"

definition idx :: "bool \<Rightarrow> commitment \<Rightarrow> u64" where
  "idx s cm = (if s then ourMessageIndex cm else theirMessageIndex cm)"

definition htlcsOf :: "bool \<Rightarrow> commitment \<Rightarrow> PaymentDescriptor list" where
  "htlcsOf s cm = (if s then outgoingHTLCs cm else incomingHTLCs cm)"

definition chainOf :: "LightningChannel \<Rightarrow> bool \<Rightarrow> commitmentChain" where
  "chainOf lc c = commitChainOf lc c"

lemma side_simps [simp]:
  "logOf lc True = localUpdateLog lc" "logOf lc False = remoteUpdateLog lc"
  "idx True cm = ourMessageIndex cm" "idx False cm = theirMessageIndex cm"
  "htlcsOf True cm = outgoingHTLCs cm" "htlcsOf False cm = incomingHTLCs cm"
  "chainOf lc True = remoteCommitChain lc" "chainOf lc False = localCommitChain lc"
  by (simp_all add: logOf_def idx_def htlcsOf_def chainOf_def)

definition logs_ok :: "LightningChannel \<Rightarrow> bool" where
  "logs_ok lc \<longleftrightarrow> (\<forall>s. wf_log (logOf lc s) \<and> paired (logOf lc s) (logOf lc (\<not> s)))"

definition bounds_ok :: "nat \<Rightarrow> LightningChannel \<Rightarrow> bool" where
  "bounds_ok n lc \<longleftrightarrow>
     (\<forall>s. unat (logIndex (logOf lc s)) \<le> n \<and> unat (htlcCounter (logOf lc s)) \<le> n) \<and>
     length (entries (localUpdateLog lc)) + length (entries (remoteUpdateLog lc)) \<le> n \<and>
     (\<forall>c. \<forall>cm \<in> set (chainOf lc c). unat (height cm) \<le> n)"

definition chains_ok :: "LightningChannel \<Rightarrow> bool" where
  "chains_ok lc \<longleftrightarrow>
     (\<forall>c. chainOf lc c \<noteq> [] \<and> (\<forall>k < length (chainOf lc c). height (chainOf lc c ! k) = height (hd (chainOf lc c)) + of_nat k)) \<and>
     LocalCommitment (channelState lc) = tail (localCommitChain lc) \<and>
     RemoteCommitment (channelState lc) = tail (remoteCommitChain lc) \<and>
     currentHeight lc = height (tail (localCommitChain lc)) \<and>
     (commitDiff (bucket lc) = None \<longrightarrow> length (remoteCommitChain lc) = 1) \<and>
     (\<forall>d. commitDiff (bucket lc) = Some d \<longrightarrow>
        length (remoteCommitChain lc) = 2 \<and> diffCommitment d = tip (remoteCommitChain lc))"

text \<open>Which index is ahead of which: a side's updates first reach the other side's chain.\<close>

definition order_ok :: "LightningChannel \<Rightarrow> bool" where
  "order_ok lc \<longleftrightarrow> (\<forall>s. sorted (map (idx s) (chainOf lc s)) \<and>
     idx s (tip (chainOf lc (\<not> s))) \<le> idx s (tail (chainOf lc s)) \<and>
     idx s (tip (chainOf lc s)) \<le> logIndex (logOf lc s))"

text \<open>The tip of a chain holds exactly the entries below its indices.\<close>

definition heights_ok :: "LightningChannel \<Rightarrow> bool" where
  "heights_ok lc \<longleftrightarrow> (\<forall>s c. \<forall>pd \<in> set (descriptors (logOf lc s)).
     (inChain c pd \<longleftrightarrow> LogIndex pd < idx s (tip (chainOf lc c))) \<and>
     addHeight c pd \<le> height (tip (chainOf lc c)) \<and> removeHeight c pd \<le> height (tip (chainOf lc c)) \<and>
     (isAdd pd \<longrightarrow> removeHeight c pd = 0) \<and> (isRmv pd \<longrightarrow> addHeight c pd = 0))"

definition parents_ok :: "LightningChannel \<Rightarrow> bool" where
  "parents_ok lc \<longleftrightarrow> (\<forall>s c. \<forall>r \<in> set (descriptors (logOf lc s)). \<forall>a \<in> set (descriptors (logOf lc (\<not> s))).
     isRmv r \<and> inChain c r \<and> isAdd a \<and> HtlcIndex a = ParentIndex r \<longrightarrow> inChain c a)"

text \<open>What an HTLC is, without the bookkeeping of its descriptor.\<close>

definition core :: "PaymentDescriptor \<Rightarrow> u64 \<times> u64 \<times> bytes \<times> u32 \<times> bytes" where
  "core pd = (HtlcIndex pd, Amount pd, RHash pd, Timeout pd, OnionBlob pd)"

definition committed :: "LightningChannel \<Rightarrow> bool \<Rightarrow> bool \<Rightarrow> PaymentDescriptor list" where
  "committed lc c s = filter (inChain c) (descriptors (logOf lc s))"

definition htlcs_ok :: "LightningChannel \<Rightarrow> bool" where
  "htlcs_ok lc \<longleftrightarrow> (\<forall>s c. map core (htlcsOf s (tip (chainOf lc c))) =
     map core (live (committed lc c (\<not> s)) (committed lc c s)))"

definition money_ok :: "u64 \<Rightarrow> LightningChannel \<Rightarrow> bool" where
  "money_ok T lc \<longleftrightarrow> (\<forall>c. \<forall>cm \<in> set (chainOf lc c).
     commitTotal cm + amounts (outgoingHTLCs cm) + amounts (incomingHTLCs cm) = T)"

definition fees_ok :: "LightningChannel \<Rightarrow> bool" where
  "fees_ok lc \<longleftrightarrow> (\<forall>c. c_feePerKB (tip (chainOf lc c)) \<in> feeRange) \<and>
     (\<forall>s. feeRates (descriptors (logOf lc s)) \<subseteq> feeRange)"

text \<open>The height at which an entry of the log entered a chain.\<close>

definition entryHeight :: "bool \<Rightarrow> PaymentDescriptor \<Rightarrow> u64" where
  "entryHeight c pd = (if isRmv pd then removeHeight c pd else addHeight c pd)"

text \<open>Entries of the remote log are forwarded when the remote party has revoked the
  commitments without them.\<close>

definition fwd_ok :: "LightningChannel \<Rightarrow> bool" where
  "fwd_ok lc \<longleftrightarrow>
     theirMessageIndex (tail (remoteCommitChain lc)) \<le> theirMessageIndex (tip (remoteCommitChain lc)) \<and>
     (\<forall>pd \<in> set (descriptors (remoteUpdateLog lc)). EntryType pd \<noteq> FeeUpdate \<longrightarrow>
        (isForwarded pd \<longleftrightarrow> LogIndex pd < theirMessageIndex (tail (remoteCommitChain lc))) \<and>
        (theirMessageIndex (tail (remoteCommitChain lc)) \<le> LogIndex pd \<and> inChain True pd \<longrightarrow>
           entryHeight True pd = height (tip (remoteCommitChain lc))) \<and>
        (\<forall>cm \<in> set (localCommitChain lc). LogIndex pd < theirMessageIndex cm \<longrightarrow> entryHeight False pd \<le> height cm))"

definition chan_inv :: "u64 \<Rightarrow> nat \<Rightarrow> LightningChannel \<Rightarrow> bool" where
  "chan_inv T n lc \<longleftrightarrow> logs_ok lc \<and> bounds_ok n lc \<and> chains_ok lc \<and> order_ok lc \<and> heights_ok lc \<and>
     parents_ok lc \<and> htlcs_ok lc \<and> money_ok T lc \<and> fees_ok lc \<and> fwd_ok lc"

lemma opened_inv:
  assumes "opened T lc"
  shows "chan_inv T 0 lc"
proof -
  obtain cl cr where c: "localCommitChain lc = [cl]" "remoteCommitChain lc = [cr]"
    "LocalCommitment (channelState lc) = cl" "RemoteCommitment (channelState lc) = cr"
    "\<forall>cm \<in> {cl, cr}. height cm = 0 \<and> ourMessageIndex cm = 0 \<and> theirMessageIndex cm = 0 \<and>
       outgoingHTLCs cm = [] \<and> incomingHTLCs cm = [] \<and> c_feePerKB cm \<in> feeRange \<and> commitTotal cm = T"
    using assms unfolding opened_def by blast
  have o: "currentHeight lc = 0" "localUpdateLog lc = newUpdateLog 0 0" "remoteUpdateLog lc = newUpdateLog 0 0"
    "commitDiff (bucket lc) = None"
    using assms unfolding opened_def by blast+
  have e: "entries (logOf lc s) = []" "logOf lc s = newUpdateLog 0 0" for s
    using o(2,3) by (cases s; simp add: newUpdateLog_def)+
  define ini where "ini d = (if d then cr else cl)" for d
  have ch: "chainOf lc d = [ini d]" for d by (cases d) (simp_all add: c(1,2) ini_def)
  have z: "height (ini d) = 0" "idx s (ini d) = 0" "htlcsOf s (ini d) = []" "c_feePerKB (ini d) \<in> feeRange"
    "commitTotal (ini d) = T" for d s
  proof -
    have "ini d \<in> {cl, cr}" by (simp add: ini_def)
    note i = c(5) [rule_format, OF this]
    show "height (ini d) = 0" "idx s (ini d) = 0" "htlcsOf s (ini d) = []" "c_feePerKB (ini d) \<in> feeRange" "commitTotal (ini d) = T"
      using i by (simp_all add: idx_def htlcsOf_def)
  qed
  note zi = z(3) [where s = True, simplified] z(3) [where s = False, simplified]
  have ch2: "localCommitChain lc = [ini False]" "remoteCommitChain lc = [ini True]" by (simp_all add: c(1,2) ini_def)
  show ?thesis unfolding chan_inv_def
  proof (intro conjI)
    show "logs_ok lc" by (simp add: logs_ok_def e(2) wf_log_new) (simp add: paired_def newUpdateLog_def)
    show "bounds_ok 0 lc" by (simp add: bounds_ok_def e(2) ch z o(2,3)) (simp add: newUpdateLog_def)
    show "chains_ok lc" using c(3,4) z(1) [of False] by (simp add: chains_ok_def ch ch2 o tail_def ini_def)
    show "order_ok lc" by (simp add: order_ok_def ch tip_def tail_def z)
    show "heights_ok lc" "parents_ok lc" by (simp_all add: heights_ok_def parents_ok_def e(1))
    show "htlcs_ok lc" by (simp add: htlcs_ok_def committed_def e(1) live_def ch tip_def z)
    show "money_ok T lc" by (simp add: money_ok_def ch z zi)
    show "fees_ok lc" by (simp add: fees_ok_def ch tip_def z feeRates_def e(1))
    show "fwd_ok lc" by (simp add: fwd_ok_def o newUpdateLog_def tip_def tail_def ch2)
  qed
qed

lemma chan_invD:
  assumes "chan_inv T n lc"
  shows "logs_ok lc" "bounds_ok n lc" "chains_ok lc" "order_ok lc" "heights_ok lc" "parents_ok lc" "htlcs_ok lc"
    "money_ok T lc" "fees_ok lc" "fwd_ok lc"
  using assms by (simp_all add: chan_inv_def)

lemma logs_okD: "logs_ok lc \<Longrightarrow> wf_log (logOf lc s)" "logs_ok lc \<Longrightarrow> paired (logOf lc s) (logOf lc (\<not> s))"
  by (simp_all add: logs_ok_def)

lemma chains_okD: "chains_ok lc \<Longrightarrow> chainOf lc c \<noteq> []"
  by (simp add: chains_ok_def)

lemma sorted_le_last: "sorted xs \<Longrightarrow> x \<in> set xs \<Longrightarrow> x \<le> last xs"
  by (induction xs) auto

lemma tip_in: "s \<noteq> [] \<Longrightarrow> tip s \<in> set s" "s \<noteq> [] \<Longrightarrow> tail s \<in> set s"
  by (simp_all add: tip_def tail_def)

lemma idx_le_tip:
  assumes "order_ok lc" and "cm \<in> set (chainOf lc s)"
  shows "idx s cm \<le> idx s (tip (chainOf lc s))"
proof -
  have "chainOf lc s \<noteq> []" using assms(2) by auto
  then have "last (map (idx s) (chainOf lc s)) = idx s (tip (chainOf lc s))" by (simp add: tip_def last_map)
  moreover have "sorted (map (idx s) (chainOf lc s))" using assms(1) by (simp add: order_ok_def)
  ultimately show ?thesis using sorted_le_last [of "map (idx s) (chainOf lc s)" "idx s cm"] assms(2) by simp
qed

lemma idx_le_log:
  assumes "order_ok lc" and "chains_ok lc"
  shows "cm \<in> set (chainOf lc s) \<Longrightarrow> idx s cm \<le> logIndex (logOf lc s)"
    and "idx s (tip (chainOf lc c)) \<le> logIndex (logOf lc s)"
proof -
  have t: "idx s (tip (chainOf lc s)) \<le> logIndex (logOf lc s)" using assms(1) by (simp add: order_ok_def)
  show m: "cm \<in> set (chainOf lc s) \<Longrightarrow> idx s cm \<le> logIndex (logOf lc s)" for cm
    using idx_le_tip [OF assms(1)] t by (rule order_trans)
  have "idx s (tip (chainOf lc (\<not> s))) \<le> idx s (tail (chainOf lc s))" using assms(1) by (simp add: order_ok_def)
  also have "\<dots> \<le> logIndex (logOf lc s)" by (rule m [OF tip_in(2) [OF chains_okD [OF assms(2)]]])
  finally show "idx s (tip (chainOf lc c)) \<le> logIndex (logOf lc s)" using t by (cases "c = s") auto
qed

subsection \<open>Operations that append an entry to a log\<close>

definition pushed :: "updateLog \<Rightarrow> PaymentDescriptor \<Rightarrow> updateLog \<Rightarrow> bool" where
  "pushed u pd u' \<longleftrightarrow> entries u' = entries u @ [(nextElem u, pd)] \<and> logIndex u' = logIndex u + 1 \<and>
     htlcCounter u' \<in> {htlcCounter u, htlcCounter u + 1} \<and> LogIndex pd = logIndex u \<and>
     (\<forall>c. addHeight c pd = 0 \<and> removeHeight c pd = 0) \<and> \<not> isForwarded pd \<and>
     (EntryType pd = FeeUpdate \<longrightarrow> ToAtoms (Amount pd) \<in> feeRange)"

definition sameLog :: "updateLog \<Rightarrow> updateLog \<Rightarrow> bool" where
  "sameLog u u' \<longleftrightarrow> entries u' = entries u \<and> logIndex u' = logIndex u \<and> htlcCounter u' = htlcCounter u"

definition sameRest :: "LightningChannel \<Rightarrow> LightningChannel \<Rightarrow> bool" where
  "sameRest lc lc' \<longleftrightarrow> currentHeight lc' = currentHeight lc \<and> remoteCommitChain lc' = remoteCommitChain lc \<and>
     localCommitChain lc' = localCommitChain lc \<and> channelState lc' = channelState lc \<and> bucket lc' = bucket lc"

lemma unat_inc: "unat (x :: u64) \<le> n \<Longrightarrow> n < maxSteps \<Longrightarrow> unat (x + 1) = Suc (unat x)"
proof -
  assume "unat x \<le> n" "n < maxSteps"
  then have "unat x + 1 < 2 ^ 64" by (simp add: maxSteps_def)
  then show "unat (x + 1) = Suc (unat x)" by (simp add: unat_word_ariths)
qed

lemma unat_inc_le: "unat (x :: u64) \<le> n \<Longrightarrow> n < maxSteps \<Longrightarrow> x \<le> x + 1"
  using unat_inc by (simp add: word_le_nat_alt)

lemma pushed_inv:
  assumes inv: "chan_inv T n lc" and n: "n < maxSteps" and logs: "logs_ok lc'"
    and p: "pushed (logOf lc s) pd (logOf lc' s)" and q: "sameLog (logOf lc (\<not> s)) (logOf lc' (\<not> s))"
    and r: "sameRest lc lc'"
  shows "chan_inv T (Suc n) lc'"
proof -
  note I = chan_invD [OF inv]
  have ch: "chainOf lc' c = chainOf lc c" for c using r by (cases c) (simp_all add: sameRest_def)
  have ds: "descriptors (logOf lc' s) = descriptors (logOf lc s) @ [pd]" using p by (simp add: pushed_def)
  have dn: "descriptors (logOf lc' (\<not> s)) = descriptors (logOf lc (\<not> s))" using q by (simp add: sameLog_def)
  have mem: "e \<in> set (descriptors (logOf lc' d)) \<longleftrightarrow> e \<in> set (descriptors (logOf lc d)) \<or> d = s \<and> e = pd" for e d
  proof (cases "d = s")
    case True
    then show ?thesis unfolding True ds by auto
  next
    case False
    then have "d = (\<not> s)" by blast
    then show ?thesis using False dn by simp
  qed
  have pd: "\<not> inChain c pd" "LogIndex pd = logIndex (logOf lc s)" "\<not> isForwarded pd" for c
    using p by (simp_all add: pushed_def inChain_def)
  have com: "committed lc' c d = committed lc c d" for c d
    using ds dn pd(1) by (cases "d = s") (auto simp: committed_def)
  show ?thesis unfolding chan_inv_def
  proof (intro conjI)
    show "logs_ok lc'" by (rule logs)
    have li: "unat (logIndex (logOf lc d)) \<le> n" "unat (htlcCounter (logOf lc d)) \<le> n" for d
      using I(2) by (simp_all add: bounds_ok_def)
    have li': "unat (logIndex (logOf lc' d)) \<le> Suc n" "unat (htlcCounter (logOf lc' d)) \<le> Suc n"
      "logIndex (logOf lc d) \<le> logIndex (logOf lc' d)" for d
      using p q li [of d] unat_inc [OF li(1) n, of d] unat_inc [OF li(2) n, of d] unat_inc_le [OF li(1) n, of d]
      by (cases "d = s"; auto simp: pushed_def sameLog_def)+
    have "length (entries (logOf lc' s)) + length (entries (logOf lc' (\<not> s))) =
        Suc (length (entries (logOf lc s)) + length (entries (logOf lc (\<not> s))))"
      using p q by (simp add: pushed_def sameLog_def)
    then have "length (entries (localUpdateLog lc')) + length (entries (remoteUpdateLog lc')) =
        Suc (length (entries (localUpdateLog lc)) + length (entries (remoteUpdateLog lc)))"
      by (cases s) simp_all
    moreover have "unat (height cm) \<le> Suc n" if "cm \<in> set (chainOf lc c)" for c cm
      using I(2) that by (auto simp: bounds_ok_def intro: le_SucI)
    ultimately show "bounds_ok (Suc n) lc'" using I(2) li'(1,2) by (simp add: bounds_ok_def ch)
    have rs: "remoteCommitChain lc' = remoteCommitChain lc" "localCommitChain lc' = localCommitChain lc"
      "channelState lc' = channelState lc" "bucket lc' = bucket lc" "currentHeight lc' = currentHeight lc"
      using r by (simp_all add: sameRest_def)
    show "chains_ok lc'" using I(3) unfolding chains_ok_def ch rs .
    show "order_ok lc'" using I(4) order_trans [OF _ li'(3)] by (simp add: order_ok_def ch)
    show "heights_ok lc'" unfolding heights_ok_def ch
    proof (intro allI ballI)
      fix d c e assume e: "e \<in> set (descriptors (logOf lc' d))"
      show "(inChain c e \<longleftrightarrow> LogIndex e < idx d (tip (chainOf lc c))) \<and>
        addHeight c e \<le> height (tip (chainOf lc c)) \<and> removeHeight c e \<le> height (tip (chainOf lc c)) \<and>
        (isAdd e \<longrightarrow> removeHeight c e = 0) \<and> (isRmv e \<longrightarrow> addHeight c e = 0)"
      proof (cases "d = s \<and> e = pd")
        case True
        then show ?thesis using p pd idx_le_log(2) [OF I(4,3), of s c] by (auto simp: pushed_def)
      next
        case False
        then have "e \<in> set (descriptors (logOf lc d))" using e unfolding mem by blast
        then show ?thesis using I(5) unfolding heights_ok_def by blast
      qed
    qed
    show "parents_ok lc'" unfolding parents_ok_def
    proof (intro allI ballI impI)
      fix d c e a
      assume e: "e \<in> set (descriptors (logOf lc' d))" and a: "a \<in> set (descriptors (logOf lc' (\<not> d)))"
        and k: "isRmv e \<and> inChain c e \<and> isAdd a \<and> HtlcIndex a = ParentIndex e"
      have e0: "e \<in> set (descriptors (logOf lc d))" using e k pd(1) unfolding mem by blast
      obtain a0 where a0: "a0 \<in> set (descriptors (logOf lc (\<not> d)))" "isAdd a0" "HtlcIndex a0 = ParentIndex e"
        using logs_okD(2) [OF I(1), of d] e0 k unfolding paired_def by blast
      have "inChain c a0" using I(6) e0 a0 k unfolding parents_ok_def by blast
      moreover have "a0 \<in> set (descriptors (logOf lc' (\<not> d)))" using a0(1) unfolding mem by blast
      then have "lookupHtlc (logOf lc' (\<not> d)) (ParentIndex e) = Some a0"
        using a0 by (simp add: lookupHtlc_iff [OF logs_okD(1) [OF logs]])
      moreover have "lookupHtlc (logOf lc' (\<not> d)) (ParentIndex e) = Some a"
        using a k by (simp add: lookupHtlc_iff [OF logs_okD(1) [OF logs]])
      ultimately show "inChain c a" by simp
    qed
    show "htlcs_ok lc'" using I(7) by (simp add: htlcs_ok_def com ch)
    show "money_ok T lc'" using I(8) by (simp add: money_ok_def ch)
    have "feeRates (descriptors (logOf lc' d)) \<subseteq> feeRange" for d
    proof
      fix fr assume "fr \<in> feeRates (descriptors (logOf lc' d))"
      then obtain e where "fr = ToAtoms (Amount e)" "EntryType e = FeeUpdate" "e \<in> set (descriptors (logOf lc' d))"
        by (auto simp: feeRates_def simp del: set_map)
      moreover have "feeRates (descriptors (logOf lc d)) \<subseteq> feeRange" using I(9) by (simp add: fees_ok_def)
      ultimately show "fr \<in> feeRange" using p unfolding mem pushed_def feeRates_def by blast
    qed
    then show "fees_ok lc'" using I(9) by (simp add: fees_ok_def ch)
    show "fwd_ok lc'"
    proof (cases s)
      case True
      then have "descriptors (remoteUpdateLog lc') = descriptors (remoteUpdateLog lc)" using dn by simp
      then show ?thesis using I(10) r unfolding fwd_ok_def sameRest_def by metis
    next
      case False
      then have d: "descriptors (remoteUpdateLog lc') = descriptors (remoteUpdateLog lc) @ [pd]"
        and l: "LogIndex pd = logIndex (remoteUpdateLog lc)" using ds pd(2) by simp_all
      have c: "remoteCommitChain lc' = remoteCommitChain lc" "localCommitChain lc' = localCommitChain lc"
        using r by (simp_all add: sameRest_def)
      have "theirMessageIndex (tail (remoteCommitChain lc)) \<le> logIndex (remoteUpdateLog lc)"
        using I(10) idx_le_log(2) [OF I(4,3), of False True] unfolding fwd_ok_def by (simp) (meson order_trans)
      moreover have "\<forall>cm \<in> set (localCommitChain lc). theirMessageIndex cm \<le> logIndex (remoteUpdateLog lc)"
        using idx_le_log(1) [OF I(4,3), of _ False] by simp
      ultimately show ?thesis using I(10) pd(1,3) unfolding fwd_ok_def c d by (auto simp: l leD)
    qed
  qed
qed

lemma pairedD:
  assumes "paired A B"
  shows "r \<in> set (descriptors A) \<Longrightarrow> isRmv r \<Longrightarrow> ParentIndex r \<in> modifiedHtlcs B"
    and "r \<in> set (descriptors A) \<Longrightarrow> isRmv r \<Longrightarrow>
      \<exists>a. a \<in> set (descriptors B) \<and> isAdd a \<and> HtlcIndex a = ParentIndex r \<and> Amount a = Amount r"
    and "distinct (map ParentIndex (filter isRmv (descriptors A)))"
  using assms unfolding paired_def by blast+

lemma pairedI:
  assumes "\<And>r. r \<in> set (descriptors A) \<Longrightarrow> isRmv r \<Longrightarrow> ParentIndex r \<in> modifiedHtlcs B"
    and "\<And>r. r \<in> set (descriptors A) \<Longrightarrow> isRmv r \<Longrightarrow>
      \<exists>a. a \<in> set (descriptors B) \<and> isAdd a \<and> HtlcIndex a = ParentIndex r \<and> Amount a = Amount r"
    and "distinct (map ParentIndex (filter isRmv (descriptors A)))"
  shows "paired A B"
  unfolding paired_def using assms(3) by (intro conjI ballI impI assms(1)) (use assms(2) in blast)+

lemma paired_grow:
  assumes "paired A B" and "filter isRmv (descriptors A') = filter isRmv (descriptors A)"
    and "set (descriptors B) \<subseteq> set (descriptors B')" and "modifiedHtlcs B \<subseteq> modifiedHtlcs B'"
  shows "paired A' B'"
proof (rule pairedI)
  have "{r \<in> set (descriptors A'). isRmv r} = {r \<in> set (descriptors A). isRmv r}"
    using arg_cong [OF assms(2), of set] by (simp only: set_filter)
  then have sub: "r \<in> set (descriptors A)" if "r \<in> set (descriptors A')" "isRmv r" for r
    using that by blast
  show "r \<in> set (descriptors A') \<Longrightarrow> isRmv r \<Longrightarrow> ParentIndex r \<in> modifiedHtlcs B'" for r
    using pairedD(1) [OF assms(1) sub] assms(4) by blast
  show "r \<in> set (descriptors A') \<Longrightarrow> isRmv r \<Longrightarrow>
      \<exists>a. a \<in> set (descriptors B') \<and> isAdd a \<and> HtlcIndex a = ParentIndex r \<and> Amount a = Amount r" for r
    using pairedD(2) [OF assms(1) sub] subsetD [OF assms(3)] by metis
  show "distinct (map ParentIndex (filter isRmv (descriptors A')))" unfolding assms(2) by (rule pairedD(3) [OF assms(1)])
qed

lemma paired_rmv:
  assumes "paired A B" and "descriptors A' = descriptors A @ [pd]" and "isRmv pd"
    and "ParentIndex pd \<notin> modifiedHtlcs B"
    and "a \<in> set (descriptors B)" and "isAdd a" and "HtlcIndex a = ParentIndex pd" and "Amount a = Amount pd"
    and "descriptors B' = descriptors B" and "modifiedHtlcs B' = insert (ParentIndex pd) (modifiedHtlcs B)"
  shows "paired A' B'"
proof (rule pairedI)
  have sub: "r \<in> set (descriptors A)" if "r \<in> set (descriptors A')" "r \<noteq> pd" for r
    using that unfolding assms(2) by auto
  show "r \<in> set (descriptors A') \<Longrightarrow> isRmv r \<Longrightarrow> ParentIndex r \<in> modifiedHtlcs B'" for r
    using pairedD(1) [OF assms(1) sub, of r] by (cases "r = pd") (simp_all add: assms(10))
  show "r \<in> set (descriptors A') \<Longrightarrow> isRmv r \<Longrightarrow>
      \<exists>a. a \<in> set (descriptors B') \<and> isAdd a \<and> HtlcIndex a = ParentIndex r \<and> Amount a = Amount r" for r
    using pairedD(2) [OF assms(1) sub, of r] assms(5-8) unfolding assms(9) by (cases "r = pd") blast+
  have "ParentIndex pd \<notin> ParentIndex ` {r \<in> set (descriptors A). isRmv r}"
  proof
    assume "ParentIndex pd \<in> ParentIndex ` {r \<in> set (descriptors A). isRmv r}"
    then obtain r where "ParentIndex pd = ParentIndex r" "r \<in> set (descriptors A)" "isRmv r" by (elim imageE CollectE conjE)
    then show False using pairedD(1) [OF assms(1)] assms(4) by simp
  qed
  then show "distinct (map ParentIndex (filter isRmv (descriptors A')))"
    using pairedD(3) [OF assms(1)] assms(2,3) by simp
qed

definition freshFor :: "updateLog \<Rightarrow> PaymentDescriptor \<Rightarrow> bool" where
  "freshFor u pd \<longleftrightarrow> LogIndex pd = logIndex u \<and> (\<forall>c. addHeight c pd = 0 \<and> removeHeight c pd = 0) \<and> \<not> isForwarded pd"

lemma both_sides: "P s \<Longrightarrow> P (\<not> s) \<Longrightarrow> P d"
  by (cases "d = s") auto

lemma counters_max:
  assumes "chan_inv T n lc" and "n < maxSteps"
  shows "logIndex (logOf lc s) \<noteq> - 1" and "htlcCounter (logOf lc s) \<noteq> - 1"
proof -
  have b: "unat (logIndex (logOf lc s)) \<le> n" "unat (htlcCounter (logOf lc s)) \<le> n"
    using chan_invD(2) [OF assms(1)] by (simp_all add: bounds_ok_def)
  show "logIndex (logOf lc s) \<noteq> - 1" using unat_inc [OF b(1) assms(2)] by auto
  show "htlcCounter (logOf lc s) \<noteq> - 1" using unat_inc [OF b(2) assms(2)] by auto
qed

text \<open>The log of side \<open>s\<close> grew by an entry that removes nothing; the other log is the same.\<close>

lemma logs_ok_push:
  assumes "logs_ok lc" and "wf_log (logOf lc' s)" and d: "descriptors (logOf lc' s) = descriptors (logOf lc s) @ [pd]"
    and "modifiedHtlcs (logOf lc' s) = modifiedHtlcs (logOf lc s)" and "\<not> isRmv pd" and m: "logOf lc' (\<not> s) = logOf lc (\<not> s)"
  shows "logs_ok lc'"
proof -
  note wf = logs_okD [OF assms(1)]
  have "paired (logOf lc' s) (logOf lc' (\<not> s))"
    by (rule paired_grow [OF wf(2) [of s]]) (simp_all add: m d assms(5))
  moreover have "paired (logOf lc' (\<not> s)) (logOf lc' (\<not> \<not> s))"
    using paired_grow [OF wf(2) [of "\<not> s"], of "logOf lc' (\<not> s)" "logOf lc' s"] assms(4)
    by (simp add: m d subset_insertI)
  ultimately show ?thesis unfolding logs_ok_def
    using both_sides [where P = "\<lambda>d. wf_log (logOf lc' d) \<and> paired (logOf lc' d) (logOf lc' (\<not> d))" and s = s] wf(1) m assms(2)
    by simp
qed

lemma append_add_inv:
  assumes inv: "chan_inv T n lc" and n: "n < maxSteps" and "isAdd pd" and f: "freshFor (logOf lc s) pd"
    and "HtlcIndex pd = htlcCounter (logOf lc s)" and l: "logOf lc' s = appendHtlc (logOf lc s) pd"
    and m: "logOf lc' (\<not> s) = logOf lc (\<not> s)" and "sameRest lc lc'"
  shows "chan_inv T (Suc n) lc'"
proof -
  note wf = logs_okD [OF chan_invD(1) [OF inv]]
  have k: "\<not> isRmv pd" "EntryType pd \<noteq> FeeUpdate" using assms(3) by (auto simp: isAdd_def isRmv_def)
  have d: "descriptors (logOf lc' s) = descriptors (logOf lc s) @ [pd]" "modifiedHtlcs (logOf lc' s) = modifiedHtlcs (logOf lc s)"
    unfolding l by (simp_all add: appendHtlc_def PushBack_def)
  have "wf_log (logOf lc' s)" unfolding l
    using wf_log_appendHtlc [OF wf(1) assms(3) _ assms(5) counters_max [OF inv n]] f by (simp add: freshFor_def)
  then have "logs_ok lc'" by (rule logs_ok_push [OF chan_invD(1) [OF inv] _ d k(1) m])
  moreover have "pushed (logOf lc s) pd (logOf lc' s)"
    unfolding pushed_def l using f k by (simp add: appendHtlc_def PushBack_def freshFor_def)
  ultimately show ?thesis using pushed_inv [OF inv n] assms(8) m by (simp add: sameLog_def)
qed

lemma append_fee_inv:
  assumes inv: "chan_inv T n lc" and n: "n < maxSteps" and "EntryType pd = FeeUpdate" and f: "freshFor (logOf lc s) pd"
    and "ToAtoms (Amount pd) \<in> feeRange" and l: "logOf lc' s = appendUpdate (logOf lc s) pd"
    and m: "logOf lc' (\<not> s) = logOf lc (\<not> s)" and "sameRest lc lc'"
  shows "chan_inv T (Suc n) lc'"
proof -
  note wf = logs_okD [OF chan_invD(1) [OF inv]]
  have k: "\<not> isRmv pd" "\<not> isAdd pd" using assms(3) by (auto simp: isAdd_def isRmv_def)
  have d: "descriptors (logOf lc' s) = descriptors (logOf lc s) @ [pd]" "modifiedHtlcs (logOf lc' s) = modifiedHtlcs (logOf lc s)"
    unfolding l by (simp_all add: appendUpdate_def PushBack_def)
  have "wf_log (logOf lc' s)" unfolding l
    using wf_log_appendUpdate [OF wf(1) k(2) _ counters_max(1) [OF inv n]] f by (simp add: freshFor_def)
  then have "logs_ok lc'" by (rule logs_ok_push [OF chan_invD(1) [OF inv] _ d k(1) m])
  moreover have "pushed (logOf lc s) pd (logOf lc' s)"
    unfolding pushed_def l using f assms(5) by (simp add: appendUpdate_def PushBack_def freshFor_def)
  ultimately show ?thesis using pushed_inv [OF inv n] assms(8) m by (simp add: sameLog_def)
qed

lemma append_rmv_inv:
  assumes inv: "chan_inv T n lc" and n: "n < maxSteps" and rm: "isRmv pd" and f: "freshFor (logOf lc s) pd"
    and lk: "lookupHtlc (logOf lc (\<not> s)) i = Some htlc" and nm: "\<not> htlcHasModification (logOf lc (\<not> s)) i"
    and pd: "Amount pd = Amount htlc" "ParentIndex pd = i"
    and l: "logOf lc' s = appendUpdate (logOf lc s) pd"
    and m: "logOf lc' (\<not> s) = markHtlcModified (logOf lc (\<not> s)) i" and r: "sameRest lc lc'"
  shows "chan_inv T (Suc n) lc'"
proof -
  note wf = logs_okD [OF chan_invD(1) [OF inv]]
  have k: "\<not> isAdd pd" "EntryType pd \<noteq> FeeUpdate" using rm by (auto simp: isAdd_def isRmv_def)
  have d: "descriptors (logOf lc' s) = descriptors (logOf lc s) @ [pd]" "modifiedHtlcs (logOf lc' s) = modifiedHtlcs (logOf lc s)"
    unfolding l by (simp_all add: appendUpdate_def PushBack_def)
  have e: "descriptors (logOf lc' (\<not> s)) = descriptors (logOf lc (\<not> s))"
    "modifiedHtlcs (logOf lc' (\<not> s)) = insert (ParentIndex pd) (modifiedHtlcs (logOf lc (\<not> s)))"
    unfolding m pd by (simp_all add: markHtlcModified_def)
  have a: "htlc \<in> set (descriptors (logOf lc (\<not> s)))" "isAdd htlc" "HtlcIndex htlc = ParentIndex pd" "Amount htlc = Amount pd"
    using lk pd by (simp_all add: lookupHtlc_iff [OF wf(1)])
  have "wf_log (logOf lc' s)" unfolding l
    using wf_log_appendUpdate [OF wf(1) k(1) _ counters_max(1) [OF inv n]] f by (simp add: freshFor_def)
  moreover have "wf_log (logOf lc' (\<not> s))" using wf(1) by (simp add: m wf_log_mark)
  moreover have "paired (logOf lc' s) (logOf lc' (\<not> s))"
    by (rule paired_rmv [OF wf(2) d(1) rm _ a e]) (use nm pd in \<open>simp add: htlcHasModification_def\<close>)
  moreover have "paired (logOf lc' (\<not> s)) (logOf lc' (\<not> \<not> s))"
    using paired_grow [OF wf(2) [of "\<not> s"], of "logOf lc' (\<not> s)" "logOf lc' s"] by (simp add: d e subset_insertI)
  ultimately have "logs_ok lc'" unfolding logs_ok_def
    using both_sides [where P = "\<lambda>d. wf_log (logOf lc' d) \<and> paired (logOf lc' d) (logOf lc' (\<not> d))" and s = s] by simp
  moreover have "pushed (logOf lc s) pd (logOf lc' s)"
    unfolding pushed_def l using f k by (simp add: appendUpdate_def PushBack_def freshFor_def)
  moreover have "sameLog (logOf lc (\<not> s)) (logOf lc' (\<not> s))" unfolding m by (simp add: sameLog_def markHtlcModified_def)
  ultimately show ?thesis using pushed_inv [OF inv n] r by blast
qed

lemmas entry_defs = freshFor_def addHeight_def removeHeight_def zeroPD_def isAdd_def isRmv_def sameRest_def

lemma AddHTLC_inv:
  assumes "chan_inv T n lc" and "n < maxSteps" and "AddHTLC lc htlc key = Inr (lc', i)"
  shows "chan_inv T (Suc n) lc'"
proof -
  have "lc' = lc\<lparr>localUpdateLog := appendHtlc (localUpdateLog lc) (htlcAddDescriptor lc htlc key)\<rparr>"
    using assms(3) by (auto simp: AddHTLC_def Let_def)
  then show ?thesis
    by (intro append_add_inv [OF assms(1,2), where s = True and pd = "htlcAddDescriptor lc htlc key"])
      (simp_all add: htlcAddDescriptor_def entry_defs)
qed

lemma ReceiveHTLC_inv:
  assumes "chan_inv T n lc" and "n < maxSteps" and "ReceiveHTLC lc htlc = Inr (lc', i)"
  shows "chan_inv T (Suc n) lc'"
proof -
  let ?pd = "zeroPD\<lparr>EntryType := Add, RHash := m_PaymentHash htlc, Timeout := m_Expiry htlc,
    Amount := m_Amount htlc, LogIndex := logIndex (remoteUpdateLog lc), HtlcIndex := htlcCounter (remoteUpdateLog lc),
    OnionBlob := m_OnionBlob htlc\<rparr>"
  have "lc' = lc\<lparr>remoteUpdateLog := appendHtlc (remoteUpdateLog lc) ?pd\<rparr>"
    using assms(3) by (auto simp: ReceiveHTLC_def Let_def split: if_splits)
  then show ?thesis
    by (intro append_add_inv [OF assms(1,2), where s = False and pd = ?pd]) (simp_all add: entry_defs)
qed

lemma UpdateFee_inv:
  assumes "chan_inv T n lc" and "n < maxSteps" and "UpdateFee lc fr = Inr lc'" and "fr \<in> feeRange"
  shows "chan_inv T (Suc n) lc'"
proof -
  let ?pd = "zeroPD\<lparr>LogIndex := logIndex (localUpdateLog lc), Amount := NewMAtomsFromAtoms fr, EntryType := FeeUpdate\<rparr>"
  have "lc' = lc\<lparr>localUpdateLog := appendUpdate (localUpdateLog lc) ?pd\<rparr>"
    using assms(3) by (auto simp: UpdateFee_def Let_def split: if_splits)
  moreover have "ToAtoms (Amount ?pd) \<in> feeRange" using assms(4) by (simp add: ToAtoms_NewMAtoms feeRange_def)
  ultimately show ?thesis
    by (intro append_fee_inv [OF assms(1,2), where s = True and pd = ?pd]) (simp_all add: entry_defs)
qed

lemma ReceiveUpdateFee_inv:
  assumes "chan_inv T n lc" and "n < maxSteps" and "ReceiveUpdateFee lc fr = Inr lc'" and "fr \<in> feeRange"
  shows "chan_inv T (Suc n) lc'"
proof -
  let ?pd = "zeroPD\<lparr>LogIndex := logIndex (remoteUpdateLog lc), Amount := NewMAtomsFromAtoms fr, EntryType := FeeUpdate\<rparr>"
  have "lc' = lc\<lparr>remoteUpdateLog := appendUpdate (remoteUpdateLog lc) ?pd\<rparr>"
    using assms(3) by (auto simp: ReceiveUpdateFee_def Let_def split: if_splits)
  moreover have "ToAtoms (Amount ?pd) \<in> feeRange" using assms(4) by (simp add: ToAtoms_NewMAtoms feeRange_def)
  ultimately show ?thesis
    by (intro append_fee_inv [OF assms(1,2), where s = False and pd = ?pd]) (simp_all add: entry_defs)
qed

lemma SettleHTLC_inv:
  assumes "chan_inv T n lc" and "n < maxSteps" and "SettleHTLC hash lc pre i src dst key = Inr lc'"
  shows "chan_inv T (Suc n) lc'"
proof -
  obtain htlc where h: "lookupHtlc (remoteUpdateLog lc) i = Some htlc" "\<not> htlcHasModification (remoteUpdateLog lc) i"
    and lc': "lc' = lc\<lparr>localUpdateLog := appendUpdate (localUpdateLog lc) (zeroPD\<lparr>Amount := Amount htlc, RPreimage := pre,
        LogIndex := logIndex (localUpdateLog lc), ParentIndex := i, EntryType := Settle, SourceRef := src, DestRef := dst,
        ClosedCircuitKey := key\<rparr>), remoteUpdateLog := markHtlcModified (remoteUpdateLog lc) i\<rparr>"
    using assms(3) by (auto simp: SettleHTLC_def Let_def split: option.splits if_splits)
  show ?thesis
    by (rule append_rmv_inv [OF assms(1,2), where s = True and htlc = htlc and i = i]) (simp_all add: lc' h entry_defs)
qed

lemma ReceiveHTLCSettle_inv:
  assumes "chan_inv T n lc" and "n < maxSteps" and "ReceiveHTLCSettle hash lc pre i = Inr lc'"
  shows "chan_inv T (Suc n) lc'"
proof -
  obtain htlc where h: "lookupHtlc (localUpdateLog lc) i = Some htlc" "\<not> htlcHasModification (localUpdateLog lc) i"
    and lc': "lc' = lc\<lparr>remoteUpdateLog := appendUpdate (remoteUpdateLog lc) (zeroPD\<lparr>Amount := Amount htlc, RPreimage := pre,
        ParentIndex := HtlcIndex htlc, RHash := RHash htlc, LogIndex := logIndex (remoteUpdateLog lc), EntryType := Settle\<rparr>),
        localUpdateLog := markHtlcModified (localUpdateLog lc) i\<rparr>"
    using assms(3) by (auto simp: ReceiveHTLCSettle_def Let_def split: option.splits if_splits)
  have i: "HtlcIndex htlc = i"
    using h(1) lookupHtlc_iff [OF logs_okD(1) [OF chan_invD(1) [OF assms(1)], of True]] by simp
  show ?thesis
    by (rule append_rmv_inv [OF assms(1,2), where s = False and htlc = htlc and i = i]) (simp_all add: lc' h i entry_defs)
qed

lemma FailHTLC_inv:
  assumes "chan_inv T n lc" and "n < maxSteps" and "FailHTLC lc i reason src dst key = Inr lc'"
  shows "chan_inv T (Suc n) lc'"
proof -
  obtain htlc where h: "lookupHtlc (remoteUpdateLog lc) i = Some htlc" "\<not> htlcHasModification (remoteUpdateLog lc) i"
    and lc': "lc' = lc\<lparr>localUpdateLog := appendUpdate (localUpdateLog lc) (zeroPD\<lparr>Amount := Amount htlc, RHash := RHash htlc,
        ParentIndex := i, LogIndex := logIndex (localUpdateLog lc), EntryType := Fail, FailReason := reason, SourceRef := src,
        DestRef := dst, ClosedCircuitKey := key\<rparr>), remoteUpdateLog := markHtlcModified (remoteUpdateLog lc) i\<rparr>"
    using assms(3) by (auto simp: FailHTLC_def Let_def split: option.splits if_splits)
  show ?thesis
    by (rule append_rmv_inv [OF assms(1,2), where s = True and htlc = htlc and i = i]) (simp_all add: lc' h entry_defs)
qed

lemma MalformedFailHTLC_inv:
  assumes "chan_inv T n lc" and "n < maxSteps" and "MalformedFailHTLC lc i code blob src = Inr lc'"
  shows "chan_inv T (Suc n) lc'"
proof -
  obtain htlc where h: "lookupHtlc (remoteUpdateLog lc) i = Some htlc" "\<not> htlcHasModification (remoteUpdateLog lc) i"
    and lc': "lc' = lc\<lparr>localUpdateLog := appendUpdate (localUpdateLog lc) (zeroPD\<lparr>Amount := Amount htlc, RHash := RHash htlc,
        ParentIndex := i, LogIndex := logIndex (localUpdateLog lc), EntryType := MalformedFail, FailCode := code,
        ShaOnionBlob := blob, SourceRef := src\<rparr>), remoteUpdateLog := markHtlcModified (remoteUpdateLog lc) i\<rparr>"
    using assms(3) by (auto simp: MalformedFailHTLC_def Let_def split: option.splits if_splits)
  show ?thesis
    by (rule append_rmv_inv [OF assms(1,2), where s = True and htlc = htlc and i = i]) (simp_all add: lc' h entry_defs)
qed

lemma ReceiveFailHTLC_inv:
  assumes "chan_inv T n lc" and "n < maxSteps" and "ReceiveFailHTLC lc i reason = Inr lc'"
  shows "chan_inv T (Suc n) lc'"
proof -
  obtain htlc where h: "lookupHtlc (localUpdateLog lc) i = Some htlc" "\<not> htlcHasModification (localUpdateLog lc) i"
    and lc': "lc' = lc\<lparr>remoteUpdateLog := appendUpdate (remoteUpdateLog lc) (zeroPD\<lparr>Amount := Amount htlc, RHash := RHash htlc,
        ParentIndex := HtlcIndex htlc, LogIndex := logIndex (remoteUpdateLog lc), EntryType := Fail, FailReason := reason\<rparr>),
        localUpdateLog := markHtlcModified (localUpdateLog lc) i\<rparr>"
    using assms(3) by (auto simp: ReceiveFailHTLC_def Let_def split: option.splits if_splits)
  have i: "HtlcIndex htlc = i"
    using h(1) lookupHtlc_iff [OF logs_okD(1) [OF chan_invD(1) [OF assms(1)], of True]] by simp
  show ?thesis
    by (rule append_rmv_inv [OF assms(1,2), where s = False and htlc = htlc and i = i]) (simp_all add: lc' h i entry_defs)
qed

end
