(* ===== verification/ChannelCommit.thy ===== *)
theory ChannelCommit
  imports ChannelInv
begin

text \<open>
  The invariant under the operations that add a commitment to a chain, \<open>SignNextCommitment\<close>
  (the remote chain) and \<open>ReceiveNewCommitment\<close> (the local chain). Both evaluate a view and
  write heights into the logs; \<open>extended\<close> says what they leave behind for either chain, and
  \<open>new_commitment_money\<close> is the conservation of the channel's funds.
\<close>

subsection \<open>Operations that add a commitment\<close>

lemma touch_other:
  assumes "d \<noteq> c"
  shows "inChain d (touch c h pd) = inChain d pd" "addHeight d (touch c h pd) = addHeight d pd"
    "removeHeight d (touch c h pd) = removeHeight d pd" "entryHeight d (touch c h pd) = entryHeight d pd"
proof -
  have d: "d = (\<not> c)" using assms by blast
  show "inChain d (touch c h pd) = inChain d pd" unfolding d by (rule inChain_touch(2))
  show a: "addHeight d (touch c h pd) = addHeight d pd" "removeHeight d (touch c h pd) = removeHeight d pd"
    unfolding d by (simp_all add: touch_def)
  show "entryHeight d (touch c h pd) = entryHeight d pd" by (simp add: entryHeight_def a)
qed

lemmas touch_neg [simp] = touch_other [where d = "\<not> c" and c = c for c, simplified]

lemma touch_own:
  shows "inChain c pd \<Longrightarrow> touch c h pd = pd"
    and "\<not> inChain c pd \<Longrightarrow> entryHeight c (touch c h pd) = h"
    and "addHeight c (touch c h pd) \<in> {addHeight c pd, h}" "removeHeight c (touch c h pd) \<in> {removeHeight c pd, h}"
    and "isAdd pd \<Longrightarrow> removeHeight c (touch c h pd) = removeHeight c pd"
    and "isRmv pd \<Longrightarrow> addHeight c (touch c h pd) = addHeight c pd"
    and "isForwarded (touch c h pd) = isForwarded pd" "core (touch c h pd) = core pd"
  by (auto simp: touch_def entryHeight_def core_def setAddHeight_def setRemoveHeight_def addHeight_def removeHeight_def
      isAdd_def isRmv_def)

lemma live_map:
  assumes "\<And>pd. sameEntry pd (f pd)" and "\<And>pd. sameEntry pd (g pd)"
  shows "live (map f xs) (map g ys) = map g (live xs ys)"
proof -
  have f: "isRmv (f pd) = isRmv pd" "ParentIndex (f pd) = ParentIndex pd" for pd
    using sameEntry_kind [OF assms(1) [of pd]] assms(1) [of pd] by (simp_all add: sameEntry_def)
  have g: "isAdd (g pd) = isAdd pd" "HtlcIndex (g pd) = HtlcIndex pd" for pd
    using sameEntry_kind [OF assms(2) [of pd]] assms(2) [of pd] by (simp_all add: sameEntry_def)
  have "{e \<in> set (map f xs). isRmv e} = f ` {e \<in> set xs. isRmv e}" by (auto simp: f)
  then have "parents (map f xs) = parents xs" by (simp only: image_image f)
  then show ?thesis by (simp add: live_def filter_map comp_def g)
qed

lemma amounts_core: "map core xs = map core ys \<Longrightarrow> amounts xs = amounts ys"
proof -
  assume "map core xs = map core ys"
  then have "map (fst \<circ> snd) (map core xs) = map (fst \<circ> snd) (map core ys)" by simp
  then have "map Amount xs = map Amount ys" by (simp add: core_def comp_def)
  then show ?thesis by (simp add: amounts_def)
qed

text \<open>The amounts a view adds up to: adds that stay, and removed adds, which the removals carry.\<close>

lemma view_amounts:
  assumes "chan_inv T n lc" and v: "\<And>s. v s = filter (P s) (descriptors (logOf lc s))"
    and par: "\<And>s r a. r \<in> set (v s) \<Longrightarrow> isRmv r \<Longrightarrow> a \<in> set (descriptors (logOf lc (\<not> s))) \<Longrightarrow>
      isAdd a \<Longrightarrow> HtlcIndex a = ParentIndex r \<Longrightarrow> P (\<not> s) a"
  shows "amounts (live (v (\<not> s)) (v s)) + amounts (filter isRmv (v (\<not> s))) = amounts (filter isAdd (v s))"
proof (rule live_amounts)
  note wf = logs_okD [OF chan_invD(1) [OF assms(1)]]
  show "wf_log (logOf lc s)" by (rule wf(1))
  show "v s = filter (P s) (descriptors (logOf lc s))" by (rule v)
  have p: "paired (logOf lc (\<not> s)) (logOf lc s)" using wf(2) [of "\<not> s"] by simp
  have "filter isRmv (v (\<not> s)) = filter (P (\<not> s)) (filter isRmv (descriptors (logOf lc (\<not> s))))"
    unfolding v filter_filter by (rule filter_cong) auto
  then show "distinct (map ParentIndex (filter isRmv (v (\<not> s))))"
    using distinct_map_filter [OF pairedD(3) [OF p]] by simp
  show "\<forall>r \<in> set (v (\<not> s)). isRmv r \<longrightarrow>
      (\<exists>a \<in> set (v s). isAdd a \<and> HtlcIndex a = ParentIndex r \<and> Amount a = Amount r)"
  proof (intro ballI impI)
    fix r assume r: "r \<in> set (v (\<not> s))" "isRmv r"
    then have "r \<in> set (descriptors (logOf lc (\<not> s)))" unfolding v set_filter by blast
    then obtain a where a: "a \<in> set (descriptors (logOf lc s))" "isAdd a" "HtlcIndex a = ParentIndex r" "Amount a = Amount r"
      using pairedD(2) [OF p _ r(2)] by blast
    have "P s a" using par [OF r, of a] a by simp
    then have "a \<in> set (v s)" using a(1) unfolding v set_filter by blast
    then show "\<exists>a \<in> set (v s). isAdd a \<and> HtlcIndex a = ParentIndex r \<and> Amount a = Amount r" using a by blast
  qed
qed

lemma amounts_view:
  assumes "heights_ok lc" and "idx s (tip (chainOf lc c)) \<le> i"
  shows "amounts (filter P (filter (\<lambda>pd. LogIndex pd < i) (descriptors (logOf lc s)))) =
    amounts (filter P (committed lc c s)) + fresh c P (filter (\<lambda>pd. LogIndex pd < i) (descriptors (logOf lc s)))"
proof -
  have k: "inChain c pd \<Longrightarrow> LogIndex pd < i" if "pd \<in> set (descriptors (logOf lc s))" for pd
    using assms that unfolding heights_ok_def by (meson order_less_le_trans)
  have "filter (\<lambda>pd. P pd \<and> inChain c pd) (filter (\<lambda>pd. LogIndex pd < i) (descriptors (logOf lc s))) = filter P (committed lc c s)"
    unfolding committed_def filter_filter by (rule filter_cong) (use k in auto)
  then show ?thesis
    using amounts_split [of P "filter (\<lambda>pd. LogIndex pd < i) (descriptors (logOf lc s))" "inChain c"]
    by (simp only: fresh_def)
qed

lemma new_commitment_money:
  assumes inv: "chan_inv T n lc" and mono: "\<And>s. idx s (tip (chainOf lc c)) \<le> ix s"
    and v: "\<And>s. v s = filter (\<lambda>pd. LogIndex pd < ix s) (descriptors (logOf lc s))"
    and tot: "commitTotal cm + fresh c isAdd (v True @ v False) =
      commitTotal (tip (chainOf lc c)) + fresh c isRmv (v True @ v False)"
    and par: "\<And>s r. r \<in> set (v s) \<Longrightarrow> isRmv r \<Longrightarrow>
      \<exists>a. lookupHtlc (logOf lc (\<not> s)) (ParentIndex r) = Some a \<and> addHeight c a \<noteq> 0"
  shows "commitTotal cm + amounts (live (v False) (v True)) + amounts (live (v True) (v False)) = T"
proof -
  note I = chan_invD [OF inv]
  note wf = logs_okD [OF I(1)]
  have P1: "inChain c a" if r: "r \<in> set (v s)" "isRmv r" and a: "a \<in> set (descriptors (logOf lc (\<not> s)))" "isAdd a"
      "HtlcIndex a = ParentIndex r" for s r a
  proof -
    have "lookupHtlc (logOf lc (\<not> s)) (ParentIndex r) = Some a" using a by (simp add: lookupHtlc_iff [OF wf(1)])
    then show ?thesis using par [OF r] a(2) by (simp add: inChain_def entry_kinds(2))
  qed
  have P2: "LogIndex a < ix d" if "inChain c a" "a \<in> set (descriptors (logOf lc d))" for a d
    using I(5) that mono [of d] unfolding heights_ok_def by (meson order_less_le_trans)
  have new: "amounts (live (v (\<not> s)) (v s)) + amounts (filter isRmv (v (\<not> s))) = amounts (filter isAdd (v s))" for s
    by (rule view_amounts [OF inv v]) (use P1 P2 in blast)
  have old: "amounts (live (committed lc c (\<not> s)) (committed lc c s)) + amounts (filter isRmv (committed lc c (\<not> s))) =
      amounts (filter isAdd (committed lc c s))" for s
  proof (rule view_amounts [OF inv committed_def])
    fix d r a assume "r \<in> set (committed lc c d)" "isRmv r" "a \<in> set (descriptors (logOf lc (\<not> d)))" "isAdd a"
      "HtlcIndex a = ParentIndex r"
    then show "inChain c a" using I(6) unfolding parents_ok_def committed_def set_filter by blast
  qed
  have split: "amounts (filter P (v s)) = amounts (filter P (committed lc c s)) + fresh c P (v s)" for P s
    unfolding v by (rule amounts_view [OF I(5) mono])
  let ?cm = "tip (chainOf lc c)"
  have out: "amounts (outgoingHTLCs ?cm) = amounts (live (committed lc c False) (committed lc c True))"
    and inc: "amounts (incomingHTLCs ?cm) = amounts (live (committed lc c True) (committed lc c False))"
    using I(7) amounts_core unfolding htlcs_ok_def by (metis side_simps(5,6))+
  have "commitTotal ?cm + amounts (outgoingHTLCs ?cm) + amounts (incomingHTLCs ?cm) = T"
    using I(8) tip_in(1) [OF chains_okD [OF I(3)]] unfolding money_ok_def by blast
  then have T: "T = commitTotal ?cm + (amounts (filter isAdd (committed lc c True)) - amounts (filter isRmv (committed lc c False))) +
      (amounts (filter isAdd (committed lc c False)) - amounts (filter isRmv (committed lc c True)))"
    using old [of True] old [of False] unfolding out inc by (simp add: eq_diff_eq [symmetric])
  have "commitTotal cm = commitTotal ?cm + fresh c isRmv (v True) + fresh c isRmv (v False)
      - fresh c isAdd (v True) - fresh c isAdd (v False)"
    using tot by (simp add: fresh_append algebra_simps)
  moreover have "amounts (live (v False) (v True)) = amounts (filter isAdd (v True)) - amounts (filter isRmv (v False))"
    "amounts (live (v True) (v False)) = amounts (filter isAdd (v False)) - amounts (filter isRmv (v True))"
    using new [of True] new [of False] by (simp_all add: eq_diff_eq)
  ultimately show ?thesis unfolding T split by simp
qed

definition touchAt :: "bool \<Rightarrow> u64 \<Rightarrow> u64 \<Rightarrow> PaymentDescriptor \<Rightarrow> PaymentDescriptor" where
  "touchAt c h i pd = (if LogIndex pd < i then touch c h pd else pd)"

lemma touchAt_same [simp]: "sameEntry pd (touchAt c h i pd)"
  by (simp add: touchAt_def)

lemma touchAt_kind [simp]:
  "isAdd (touchAt c h i pd) = isAdd pd" "isRmv (touchAt c h i pd) = isRmv pd"
  "LogIndex (touchAt c h i pd) = LogIndex pd" "HtlcIndex (touchAt c h i pd) = HtlcIndex pd"
  "ParentIndex (touchAt c h i pd) = ParentIndex pd" "EntryType (touchAt c h i pd) = EntryType pd"
  "Amount (touchAt c h i pd) = Amount pd" "core (touchAt c h i pd) = core pd"
  "isForwarded (touchAt c h i pd) = isForwarded pd"
  by (simp_all add: touchAt_def touch_own)

lemma touchLog_rewritten: "rewritten (\<lambda>x y. y = touchAt c h i x) u (touchLog c h i u)"
  unfolding rewritten_def touchLog_def by (simp add: list.rel_map touchAt_def list.rel_refl)

lemma touchLog_descriptors: "descriptors (touchLog c h i u) = map (touchAt c h i) (descriptors u)"
  by (simp add: touchLog_def touchAt_def)

lemma height_le_inc:
  assumes "chan_inv T n lc" and "n < maxSteps" and "h = height (tip (chainOf lc c)) + 1"
  shows "height (tip (chainOf lc c)) \<le> h" and "h \<noteq> 0" and "unat h \<le> Suc n"
proof -
  have "unat (height (tip (chainOf lc c))) \<le> n"
    using chan_invD(2,3) [OF assms(1)] tip_in(1) chains_okD unfolding bounds_ok_def by blast
  then show "height (tip (chainOf lc c)) \<le> h" "h \<noteq> 0" "unat h \<le> Suc n"
    using unat_inc [OF _ assms(2)] unat_inc_le [OF _ assms(2)] assms(3) by (auto simp: unat_eq_zero [symmetric])
qed

text \<open>A channel \<open>lc'\<close> that has a new commitment \<open>cm\<close> on chain \<open>c\<close>.\<close>

definition extended :: "u64 \<Rightarrow> LightningChannel \<Rightarrow> bool \<Rightarrow> commitment \<Rightarrow> LightningChannel \<Rightarrow> bool" where
  "extended T lc c cm lc' \<longleftrightarrow>
     (\<forall>d. chainOf lc' d = (if d = c then chainOf lc d @ [cm] else chainOf lc d)) \<and>
     (\<forall>s. logOf lc' s = touchLog c (height cm) (idx s cm) (logOf lc s)) \<and>
     height cm = height (tip (chainOf lc c)) + 1 \<and>
     (\<forall>s. idx s (tip (chainOf lc c)) \<le> idx s cm \<and> idx s cm \<le> logIndex (logOf lc s)) \<and>
     (\<forall>s. htlcsOf s cm = map (touch c (height cm))
        (live (filter (\<lambda>pd. LogIndex pd < idx (\<not> s) cm) (descriptors (logOf lc (\<not> s))))
              (filter (\<lambda>pd. LogIndex pd < idx s cm) (descriptors (logOf lc s))))) \<and>
     (\<forall>s r. r \<in> set (descriptors (logOf lc s)) \<longrightarrow> LogIndex r < idx s cm \<longrightarrow> isRmv r \<longrightarrow>
        (\<exists>a. lookupHtlc (logOf lc (\<not> s)) (ParentIndex r) = Some a \<and> addHeight c a \<noteq> 0)) \<and>
     c_feePerKB cm \<in> feeRange \<and>
     commitTotal cm + amounts (outgoingHTLCs cm) + amounts (incomingHTLCs cm) = T"

lemma tip_snoc [simp]: "tip (xs @ [cm]) = cm"
  by (simp add: tip_def)

lemma extended_heights:
  assumes inv: "chan_inv T n lc" and n: "n < maxSteps" and x: "extended T lc c cm lc'"
  shows "heights_ok lc'"
    and "\<And>pd s. pd \<in> set (descriptors (logOf lc s)) \<Longrightarrow>
      inChain c (touchAt c (height cm) (idx s cm) pd) \<longleftrightarrow> LogIndex pd < idx s cm"
proof -
  note I = chan_invD [OF inv]
  let ?h = "height cm"
  have h: "height (tip (chainOf lc c)) \<le> ?h" "?h \<noteq> 0"
    using height_le_inc [OF inv n, of ?h c] x by (simp_all add: extended_def)
  have ch: "tip (chainOf lc' d) = (if d = c then cm else tip (chainOf lc d))" for d
    using x by (simp add: extended_def)
  have old: "inChain d pd \<longleftrightarrow> LogIndex pd < idx s (tip (chainOf lc d))" "addHeight d pd \<le> height (tip (chainOf lc d))"
    "removeHeight d pd \<le> height (tip (chainOf lc d))" "isAdd pd \<Longrightarrow> removeHeight d pd = 0" "isRmv pd \<Longrightarrow> addHeight d pd = 0"
    if "pd \<in> set (descriptors (logOf lc s))" for pd s d
    using I(5) that unfolding heights_ok_def by blast+
  have mono: "idx s (tip (chainOf lc c)) \<le> idx s cm" for s using x by (simp add: extended_def)
  show own: "inChain c (touchAt c ?h (idx s cm) pd) \<longleftrightarrow> LogIndex pd < idx s cm"
    if "pd \<in> set (descriptors (logOf lc s))" for pd s
    using old(1) [OF that, of c] mono [of s] h(2) by (auto simp: touchAt_def inChain_touch)
  show "heights_ok lc'" unfolding heights_ok_def
  proof (intro allI ballI)
    fix s d e assume "e \<in> set (descriptors (logOf lc' s))"
    then obtain pd where pd: "pd \<in> set (descriptors (logOf lc s))" "e = touchAt c ?h (idx s cm) pd"
      using x unfolding extended_def by (auto simp: touchLog_descriptors simp del: set_map simp add: list.set_map)
    show "(inChain d e \<longleftrightarrow> LogIndex e < idx s (tip (chainOf lc' d))) \<and>
      addHeight d e \<le> height (tip (chainOf lc' d)) \<and> removeHeight d e \<le> height (tip (chainOf lc' d)) \<and>
      (isAdd e \<longrightarrow> removeHeight d e = 0) \<and> (isRmv e \<longrightarrow> addHeight d e = 0)"
    proof (cases "d = c")
      case True
      have "addHeight c pd \<le> ?h" "removeHeight c pd \<le> ?h"
        using old(2,3) [OF pd(1), of c] h(1) by (meson order_trans)+
      then have "addHeight c e \<le> ?h" "removeHeight c e \<le> ?h"
        using touch_own(3,4) [of c ?h pd] unfolding pd(2) touchAt_def by auto
      moreover have "isAdd e \<longrightarrow> removeHeight c e = 0" "isRmv e \<longrightarrow> addHeight c e = 0"
        using old(4,5) [OF pd(1), of c] by (auto simp: pd(2) touchAt_def touch_own(5,6))
      ultimately show ?thesis using own [OF pd(1)] by (simp add: True ch pd(2))
    next
      case False
      then show ?thesis using old [OF pd(1), of d] by (auto simp: ch pd(2) touchAt_def)
    qed
  qed
qed

lemma filter_touchAt:
  "filter (\<lambda>pd. LogIndex pd < i) (map (touchAt c h i) pds) = map (touch c h) (filter (\<lambda>pd. LogIndex pd < i) pds)"
  by (induction pds) (auto simp: touchAt_def)

lemma extended_htlcs:
  assumes inv: "chan_inv T n lc" and n: "n < maxSteps" and x: "extended T lc c cm lc'"
  shows "htlcs_ok lc'"
  unfolding htlcs_ok_def
proof (intro allI)
  fix s d
  note I = chan_invD [OF inv]
  let ?f = "\<lambda>s. touchAt c (height cm) (idx s cm)"
  let ?v = "\<lambda>s. filter (\<lambda>pd. LogIndex pd < idx s cm) (descriptors (logOf lc s))"
  have ds: "descriptors (logOf lc' s) = map (?f s) (descriptors (logOf lc s))" for s
    using x by (simp add: extended_def touchLog_descriptors)
  show "map core (htlcsOf s (tip (chainOf lc' d))) = map core (live (committed lc' d (\<not> s)) (committed lc' d s))"
  proof (cases "d = c")
    case True
    have com: "committed lc' c s = map (touch c (height cm)) (?v s)" for s
    proof -
      have "tip (chainOf lc' c) = cm" using x by (simp add: extended_def)
      then have "inChain c pd \<longleftrightarrow> LogIndex pd < idx s cm" if "pd \<in> set (descriptors (logOf lc' s))" for pd
        using extended_heights(1) [OF inv n x] that unfolding heights_ok_def by metis
      then have "committed lc' c s = filter (\<lambda>pd. LogIndex pd < idx s cm) (descriptors (logOf lc' s))"
        unfolding committed_def by (rule filter_cong [OF refl])
      then show ?thesis by (simp only: ds filter_touchAt)
    qed
    have "tip (chainOf lc' d) = cm" using x True by (simp add: extended_def)
    moreover have "htlcsOf s cm = map (touch c (height cm)) (live (?v (\<not> s)) (?v s))" using x by (simp add: extended_def)
    ultimately show ?thesis unfolding True com by (simp add: live_map)
  next
    case False
    then have d: "d = (\<not> c)" by blast
    have com: "committed lc' d s = map (?f s) (committed lc d s)" for s
    proof -
      have "inChain d (?f s pd) = inChain d pd" for pd by (simp add: touchAt_def d)
      then show ?thesis by (simp add: committed_def ds filter_map comp_def)
    qed
    have "tip (chainOf lc' d) = tip (chainOf lc d)" using x False by (simp add: extended_def)
    then show ?thesis using I(7) by (simp add: com live_map htlcs_ok_def comp_def)
  qed
qed

lemma extended_logs:
  assumes "logs_ok lc" and x: "extended T lc c cm lc'"
  shows "logs_ok lc'"
proof -
  have r: "rewritten (\<lambda>x y. y = touchAt c (height cm) (idx s cm) x) (logOf lc s) (logOf lc' s)" for s
    using x touchLog_rewritten by (simp add: extended_def)
  show ?thesis unfolding logs_ok_def
  proof (intro allI conjI)
    fix s
    show "wf_log (logOf lc' s)" by (rule wf_log_rewritten [OF logs_okD(1) [OF assms(1)] r]) simp
    show "paired (logOf lc' s) (logOf lc' (\<not> s))"
      by (rule paired_rewritten [OF logs_okD(2) [OF assms(1)] r r]) simp_all
  qed
qed

lemma extended_parents:
  assumes inv: "chan_inv T n lc" and n: "n < maxSteps" and x: "extended T lc c cm lc'"
  shows "parents_ok lc'"
  unfolding parents_ok_def
proof (intro allI ballI impI)
  fix s d e b
  note I = chan_invD [OF inv]
  let ?f = "\<lambda>s. touchAt c (height cm) (idx s cm)"
  have ds: "descriptors (logOf lc' s) = map (?f s) (descriptors (logOf lc s))" for s
    using x by (simp add: extended_def touchLog_descriptors)
  assume e: "e \<in> set (descriptors (logOf lc' s))" and b: "b \<in> set (descriptors (logOf lc' (\<not> s)))"
    and k: "isRmv e \<and> inChain d e \<and> isAdd b \<and> HtlcIndex b = ParentIndex e"
  obtain r where r: "r \<in> set (descriptors (logOf lc s))" "e = ?f s r" using e unfolding ds list.set_map by (rule imageE)
  obtain a where a: "a \<in> set (descriptors (logOf lc (\<not> s)))" "b = ?f (\<not> s) a" using b unfolding ds list.set_map by (rule imageE)
  have k': "isRmv r" "isAdd a" "HtlcIndex a = ParentIndex r" using k r(2) a(2) by simp_all
  show "inChain d b"
  proof (cases "d = c")
    case True
    have "LogIndex r < idx s cm" using extended_heights(2) [OF inv n x r(1)] k r(2) True by simp
    then obtain a0 where a0: "lookupHtlc (logOf lc (\<not> s)) (ParentIndex r) = Some a0" "addHeight c a0 \<noteq> 0"
      using x r(1) k'(1) unfolding extended_def by blast
    moreover have "lookupHtlc (logOf lc (\<not> s)) (ParentIndex r) = Some a"
      using a(1) k' by (simp add: lookupHtlc_iff [OF logs_okD(1) [OF I(1)]])
    ultimately have "inChain c a" using k'(2) by (simp add: inChain_def entry_kinds(2))
    then have "LogIndex a < idx (\<not> s) (tip (chainOf lc c))" using I(5) a(1) unfolding heights_ok_def by blast
    also have "\<dots> \<le> idx (\<not> s) cm" using x by (simp add: extended_def)
    finally show ?thesis using extended_heights(2) [OF inv n x a(1)] a(2) True by simp
  next
    case False
    then have d: "d = (\<not> c)" by blast
    have inv_d: "inChain d (?f s' pd) = inChain d pd" for pd s' by (simp add: touchAt_def d)
    have "inChain d r" using k r(2) inv_d by simp
    then have "inChain d a" using I(6) r(1) a(1) k' unfolding parents_ok_def by blast
    then show ?thesis using a(2) inv_d by simp
  qed
qed

lemma heights_okD:
  assumes "heights_ok lc" and "pd \<in> set (descriptors (logOf lc s))"
  shows "inChain c pd \<longleftrightarrow> LogIndex pd < idx s (tip (chainOf lc c))"
    "addHeight c pd \<le> height (tip (chainOf lc c))" "removeHeight c pd \<le> height (tip (chainOf lc c))"
    "isAdd pd \<Longrightarrow> removeHeight c pd = 0" "isRmv pd \<Longrightarrow> addHeight c pd = 0"
    "entryHeight c pd \<le> height (tip (chainOf lc c))"
proof -
  note h = assms(1) [unfolded heights_ok_def, rule_format, OF assms(2), of c]
  show "inChain c pd \<longleftrightarrow> LogIndex pd < idx s (tip (chainOf lc c))"
    "addHeight c pd \<le> height (tip (chainOf lc c))" "removeHeight c pd \<le> height (tip (chainOf lc c))"
    "isAdd pd \<Longrightarrow> removeHeight c pd = 0" "isRmv pd \<Longrightarrow> addHeight c pd = 0"
    "entryHeight c pd \<le> height (tip (chainOf lc c))"
    using h by (simp_all add: entryHeight_def)
qed

lemma extended_chains: "extended T lc c cm lc' \<Longrightarrow> chainOf lc' d = (if d = c then chainOf lc d @ [cm] else chainOf lc d)"
  by (simp add: extended_def)

lemma extended_mono: "extended T lc c cm lc' \<Longrightarrow> idx s (tip (chainOf lc c)) \<le> idx s cm"
  by (simp add: extended_def)

lemma extended_fields:
  assumes "extended T lc c cm lc'"
  shows "logIndex (logOf lc' s) = logIndex (logOf lc s)" "htlcCounter (logOf lc' s) = htlcCounter (logOf lc s)"
    "length (entries (logOf lc' s)) = length (entries (logOf lc s))"
    "descriptors (logOf lc' s) = map (touchAt c (height cm) (idx s cm)) (descriptors (logOf lc s))"
proof -
  have l: "logOf lc' s = touchLog c (height cm) (idx s cm) (logOf lc s)" using assms by (simp add: extended_def)
  show "logIndex (logOf lc' s) = logIndex (logOf lc s)" "htlcCounter (logOf lc' s) = htlcCounter (logOf lc s)"
    "length (entries (logOf lc' s)) = length (entries (logOf lc s))"
    unfolding l by (simp_all add: touchLog_def)
  show "descriptors (logOf lc' s) = map (touchAt c (height cm) (idx s cm)) (descriptors (logOf lc s))"
    unfolding l by (rule touchLog_descriptors)
qed

lemma extended_bounds:
  assumes inv: "chan_inv T n lc" and n: "n < maxSteps" and x: "extended T lc c cm lc'"
  shows "bounds_ok (Suc n) lc'"
proof -
  note B = chan_invD(2) [OF inv, unfolded bounds_ok_def] and f = extended_fields [OF x]
  have "unat (height k) \<le> Suc n" if "k \<in> set (chainOf lc' d)" for d k
  proof (cases "k = cm")
    case True
    then show ?thesis using height_le_inc(3) [OF inv n, of "height cm" c] x by (simp add: extended_def)
  next
    case False
    then have "k \<in> set (chainOf lc d)" using x that by (auto simp: extended_def split: if_splits)
    then show ?thesis using B by (auto intro: le_SucI)
  qed
  moreover have "unat (logIndex (logOf lc' s)) \<le> Suc n" "unat (htlcCounter (logOf lc' s)) \<le> Suc n" for s
    using B unfolding f by (auto intro: le_SucI)
  moreover have "length (entries (localUpdateLog lc')) + length (entries (remoteUpdateLog lc')) \<le> Suc n"
    using B f(3) [of True] f(3) [of False] by simp
  ultimately show ?thesis by (simp add: bounds_ok_def)
qed

lemma feeRates_map:
  assumes "\<And>pd. sameEntry pd (f pd)"
  shows "feeRates (map f pds) = feeRates pds"
proof -
  have f: "EntryType (f pd) = EntryType pd" "Amount (f pd) = Amount pd" for pd using assms by (simp_all add: sameEntry_def)
  have "{e \<in> set (map f pds). EntryType e = FeeUpdate} = f ` {e \<in> set pds. EntryType e = FeeUpdate}" by (auto simp: f)
  then show ?thesis by (simp only: feeRates_def image_image f)
qed

lemma extended_fees:
  assumes "fees_ok lc" and x: "extended T lc c cm lc'"
  shows "fees_ok lc'"
  using assms(1) x unfolding fees_ok_def extended_fields(4) [OF x]
  by (simp add: extended_def feeRates_map del: map_map)

lemma extended_money:
  assumes "money_ok T lc" and x: "extended T lc c cm lc'"
  shows "money_ok T lc'"
  using assms unfolding money_ok_def extended_def by auto

text \<open>A new commitment of the remote chain, made when the chain has only its tail.\<close>

lemma extended_fwd_remote:
  assumes inv: "chan_inv T n lc" and n: "n < maxSteps" and x: "extended T lc True cm lc'" and "length (remoteCommitChain lc) = 1"
  shows "fwd_ok lc'"
proof -
  note I = chan_invD [OF inv]
  obtain k where k: "remoteCommitChain lc = [k]" using assms(4) by (cases "remoteCommitChain lc") auto
  have r': "remoteCommitChain lc' = [k, cm]" "localCommitChain lc' = localCommitChain lc"
    using extended_chains [OF x, of True] extended_chains [OF x, of False] k by simp_all
  have ds: "descriptors (remoteUpdateLog lc') = map (touchAt True (height cm) (theirMessageIndex cm)) (descriptors (remoteUpdateLog lc))"
    using extended_fields(4) [OF x, of False] by simp
  have le: "theirMessageIndex k \<le> theirMessageIndex cm"
    using extended_mono [OF x, of False] k by (simp add: tip_def)
  show ?thesis unfolding fwd_ok_def r'
  proof (intro conjI ballI impI)
    show "theirMessageIndex (tail [k, cm]) \<le> theirMessageIndex (tip [k, cm])" using le by (simp add: tail_def tip_def)
    fix e assume "e \<in> set (descriptors (remoteUpdateLog lc'))" and ne: "EntryType e \<noteq> FeeUpdate"
    then obtain pd where pd: "pd \<in> set (descriptors (remoteUpdateLog lc))" "e = touchAt True (height cm) (theirMessageIndex cm) pd"
      unfolding ds list.set_map by (auto elim: imageE)
    have npd: "EntryType pd \<noteq> FeeUpdate" using ne pd(2) by simp
    note F = I(10) [unfolded fwd_ok_def k, THEN conjunct2, rule_format, OF pd(1) npd]
    have ic: "inChain True pd \<longleftrightarrow> LogIndex pd < theirMessageIndex k"
      using heights_okD(1) [OF I(5), of pd False True] pd(1) k by (simp add: tip_def)
    show "isForwarded e \<longleftrightarrow> LogIndex e < theirMessageIndex (tail [k, cm])" using F by (simp add: pd(2) tail_def)
    show "entryHeight True e = height (tip [k, cm])" if "theirMessageIndex (tail [k, cm]) \<le> LogIndex e \<and> inChain True e"
    proof -
      have n: "\<not> inChain True pd" using that ic by (simp add: tail_def pd(2) leD)
      then have "LogIndex pd < theirMessageIndex cm" using that by (auto simp: pd(2) touchAt_def split: if_splits)
      then show ?thesis using touch_own(2) [OF n] by (simp add: pd(2) touchAt_def tip_def)
    qed
    show "entryHeight False e \<le> height m" if "m \<in> set (localCommitChain lc)" "LogIndex e < theirMessageIndex m" for m
    proof -
      have "entryHeight False e = entryHeight False pd" by (simp add: pd(2) touchAt_def touch_other)
      then show ?thesis using F that by (simp add: pd(2))
    qed
  qed
qed

lemma extended_fwd_local:
  assumes inv: "chan_inv T n lc" and n: "n < maxSteps" and x: "extended T lc False cm lc'"
  shows "fwd_ok lc'"
proof -
  note I = chan_invD [OF inv]
  have r': "remoteCommitChain lc' = remoteCommitChain lc" "localCommitChain lc' = localCommitChain lc @ [cm]"
    using extended_chains [OF x, of True] extended_chains [OF x, of False] by simp_all
  have ds: "descriptors (remoteUpdateLog lc') = map (touchAt False (height cm) (theirMessageIndex cm)) (descriptors (remoteUpdateLog lc))"
    using extended_fields(4) [OF x, of False] by simp
  have h: "height (tip (localCommitChain lc)) \<le> height cm"
    using height_le_inc(1) [OF inv n, of "height cm" False] x by (simp add: extended_def)
  show ?thesis unfolding fwd_ok_def r'
  proof (intro conjI ballI impI)
    show "theirMessageIndex (tail (remoteCommitChain lc)) \<le> theirMessageIndex (tip (remoteCommitChain lc))"
      using I(10) by (simp add: fwd_ok_def)
    fix e assume "e \<in> set (descriptors (remoteUpdateLog lc'))" and ne: "EntryType e \<noteq> FeeUpdate"
    then obtain pd where pd: "pd \<in> set (descriptors (remoteUpdateLog lc))" "e = touchAt False (height cm) (theirMessageIndex cm) pd"
      unfolding ds list.set_map by (auto elim: imageE)
    have npd: "EntryType pd \<noteq> FeeUpdate" using ne pd(2) by simp
    note F = I(10) [unfolded fwd_ok_def, THEN conjunct2, rule_format, OF pd(1) npd]
    have ic: "inChain False pd \<longleftrightarrow> LogIndex pd < theirMessageIndex (tip (localCommitChain lc))"
      and hh: "entryHeight False pd \<le> height (tip (localCommitChain lc))"
      using heights_okD(1,6) [OF I(5), of pd False False] pd(1) by simp_all
    have t: "entryHeight True e = entryHeight True pd" "inChain True e = inChain True pd"
      by (simp_all add: pd(2) touchAt_def touch_other)
    show "isForwarded e \<longleftrightarrow> LogIndex e < theirMessageIndex (tail (remoteCommitChain lc))" using F by (simp add: pd(2))
    show "entryHeight True e = height (tip (remoteCommitChain lc))"
      if "theirMessageIndex (tail (remoteCommitChain lc)) \<le> LogIndex e \<and> inChain True e"
      using F that unfolding t by (simp add: pd(2))
    show "entryHeight False e \<le> height m" if m: "m \<in> set (localCommitChain lc @ [cm])" "LogIndex e < theirMessageIndex m" for m
    proof (cases "m \<in> set (localCommitChain lc)")
      case True
      have "theirMessageIndex m \<le> theirMessageIndex (tip (localCommitChain lc))"
        using idx_le_tip [OF I(4), of m False] True by simp
      then have "inChain False pd" using ic m(2) by (simp add: pd(2))
      then have "e = pd" by (simp add: pd(2) touchAt_def touch_own(1))
      then show ?thesis using F True m(2) by simp
    next
      case False
      then have "m = cm" using m(1) by simp
      then show ?thesis using touch_own(1,2) [of False pd "height cm"] hh h
        by (cases "inChain False pd") (auto simp: pd(2) touchAt_def intro: order_trans)
    qed
  qed
qed

text \<open>\<open>fetchCommitmentView\<close> with the indices that signing and receiving use.\<close>

lemma smallLogs_inv:
  assumes "chan_inv T n lc" and "n < maxSteps"
  shows "smallLogs lc"
proof -
  note F = chan_invD(9) [OF assms(1), unfolded fees_ok_def]
  have "length (entries (localUpdateLog lc)) + length (entries (remoteUpdateLog lc)) \<le> 2 ^ 25"
    using chan_invD(2) [OF assms(1)] assms(2) by (simp add: bounds_ok_def maxSteps_def)
  moreover have "feeRates (descriptors (localUpdateLog lc)) \<subseteq> feeRange" "feeRates (descriptors (remoteUpdateLog lc)) \<subseteq> feeRange"
    using F [THEN conjunct2, rule_format, of True] F [THEN conjunct2, rule_format, of False] by simp_all
  ultimately show ?thesis using F by (simp add: smallLogs_def chainOf_def)
qed

lemma fetch_extended:
  assumes inv: "chan_inv T n lc" and n: "n < maxSteps"
    and san: "validateCommitmentSanity lc t i c None None = Inr ()"
    and ftc: "fetchCommitmentView tenv senv lc c i ih t th = (lc1, Inr cm)"
    and mono: "ourMessageIndex (tip (chainOf lc c)) \<le> i" "theirMessageIndex (tip (chainOf lc c)) \<le> t"
      "i \<le> logIndex (localUpdateLog lc)" "t \<le> logIndex (remoteUpdateLog lc)"
    and ch: "\<And>d. chainOf lc' d = (if d = c then chainOf lc1 d @ [cm] else chainOf lc1 d)"
    and lg: "\<And>s. logOf lc' s = logOf lc1 s"
  shows "extended T lc c cm lc'" and "ourMessageIndex cm = i" and "theirMessageIndex cm = t"
    and "\<exists>r s. lc1 = lc\<lparr>localUpdateLog := localUpdateLog lc1, remoteUpdateLog := remoteUpdateLog lc1,
      channelState := (channelState lc)\<lparr>TotalMAtomsReceived := r, TotalMAtomsSent := s\<rparr>\<rparr>"
proof -
  note I = chan_invD [OF inv]
  have wf: "wf_log (localUpdateLog lc)" "wf_log (remoteUpdateLog lc)"
    using logs_okD(1) [OF I(1), of True] logs_okD(1) [OF I(1), of False] by simp_all
  note S = fetchCommitmentView_spec [OF wf smallLogs_inv [OF inv n] san ftc refl, folded chainOf_def]
  define h where "h = height (tip (chainOf lc c)) + 1"
  obtain r s where lc1: "lc1 = lc\<lparr>localUpdateLog := touchLog c h i (localUpdateLog lc),
      remoteUpdateLog := touchLog c h t (remoteUpdateLog lc),
      channelState := (channelState lc)\<lparr>TotalMAtomsReceived := r, TotalMAtomsSent := s\<rparr>\<rparr>"
    using S(1) unfolding h_def by blast
  show oi: "ourMessageIndex cm = i" and ti: "theirMessageIndex cm = t" by (rule S)+
  show "\<exists>r s. lc1 = lc\<lparr>localUpdateLog := localUpdateLog lc1, remoteUpdateLog := remoteUpdateLog lc1,
      channelState := (channelState lc)\<lparr>TotalMAtomsReceived := r, TotalMAtomsSent := s\<rparr>\<rparr>"
    by (rule exI [of _ r], rule exI [of _ s]) (simp add: lc1)
  have hc: "height cm = h" by (simp add: S(2) h_def)
  let ?v = "\<lambda>s. filter (\<lambda>pd. LogIndex pd < idx s cm) (descriptors (logOf lc s))"
  have v: "?v True = oursAt lc i" "?v False = theirsAt lc t" by (simp_all add: oi ti)
  have 1: "\<forall>d. chainOf lc' d = (if d = c then chainOf lc d @ [cm] else chainOf lc d)"
    unfolding ch lc1 by (simp add: chainOf_def)
  have 2: "\<forall>s. logOf lc' s = touchLog c (height cm) (idx s cm) (logOf lc s)"
    unfolding lg all_bool_eq by (simp add: lc1 hc oi ti)
  have 3: "\<forall>s. idx s (tip (chainOf lc c)) \<le> idx s cm \<and> idx s cm \<le> logIndex (logOf lc s)"
    unfolding all_bool_eq using mono by (simp add: oi ti)
  have 4: "\<forall>s. htlcsOf s cm = map (touch c (height cm)) (live (?v (\<not> s)) (?v s))"
    unfolding all_bool_eq not_True_eq_False not_False_eq_True v using S(7,8) by (simp add: hc h_def)
  have par: "\<exists>a. lookupHtlc (logOf lc (\<not> s)) (ParentIndex r) = Some a \<and> addHeight c a \<noteq> 0"
    if "r \<in> set (?v s)" "isRmv r" for s r
  proof (cases s)
    case True
    then have s: "s = True" by simp
    have "r \<in> set (oursAt lc i)" using that(1) unfolding s v .
    then show ?thesis using S(11) [rule_format, OF _ that(2)] by (simp add: s)
  next
    case False
    then have s: "s = False" by simp
    have "r \<in> set (theirsAt lc t)" using that(1) unfolding s v .
    then show ?thesis using S(12) [rule_format, OF _ that(2)] by (simp add: s)
  qed
  have 5: "\<forall>s r. r \<in> set (descriptors (logOf lc s)) \<longrightarrow> LogIndex r < idx s cm \<longrightarrow> isRmv r \<longrightarrow>
        (\<exists>a. lookupHtlc (logOf lc (\<not> s)) (ParentIndex r) = Some a \<and> addHeight c a \<noteq> 0)"
  proof (intro allI impI)
    fix s r assume "r \<in> set (descriptors (logOf lc s))" "LogIndex r < idx s cm" and r: "isRmv r"
    then have "r \<in> set (?v s)" by (simp only: set_filter mem_Collect_eq)
    then show "\<exists>a. lookupHtlc (logOf lc (\<not> s)) (ParentIndex r) = Some a \<and> addHeight c a \<noteq> 0" using r by (rule par)
  qed
  have tot: "commitTotal cm + fresh c isAdd (?v True @ ?v False) =
      commitTotal (tip (chainOf lc c)) + fresh c isRmv (?v True @ ?v False)"
    unfolding v by (rule S(9))
  have "commitTotal cm + amounts (live (?v False) (?v True)) + amounts (live (?v True) (?v False)) = T"
    by (rule new_commitment_money [OF inv, where c = c and ix = "\<lambda>s. idx s cm" and v = ?v, OF _ refl tot par]) (use 3 in blast)
  moreover have "amounts (htlcsOf s cm) = amounts (live (?v (\<not> s)) (?v s))" for s
    using 4 by (simp add: amounts_map)
  from this [of True] this [of False]
  have "amounts (outgoingHTLCs cm) = amounts (live (?v False) (?v True))" "amounts (incomingHTLCs cm) = amounts (live (?v True) (?v False))"
    by simp_all
  ultimately have 6: "commitTotal cm + amounts (outgoingHTLCs cm) + amounts (incomingHTLCs cm) = T" by simp
  show "extended T lc c cm lc'" unfolding extended_def
    by (intro conjI 1 2 3 4 5 6) (simp_all add: hc h_def S(10))
qed

lemma tail_snoc [simp]: "xs \<noteq> [] \<Longrightarrow> tail (xs @ [cm]) = tail xs"
  by (simp add: tail_def)

lemma order_okD:
  assumes "order_ok lc"
  shows "sorted (map (idx s) (chainOf lc s))" "idx s (tip (chainOf lc (\<not> s))) \<le> idx s (tail (chainOf lc s))"
    "idx s (tip (chainOf lc s)) \<le> logIndex (logOf lc s)"
  using assms by (simp_all add: order_ok_def)

lemma extended_order:
  assumes inv: "chan_inv T n lc" and x: "extended T lc c cm lc'" and le: "idx (\<not> c) cm \<le> idx (\<not> c) (tail (chainOf lc (\<not> c)))"
  shows "order_ok lc'"
proof -
  note I = chan_invD [OF inv]
  note O = order_okD [OF I(4)] and ch = extended_chains [OF x] and ne = chains_okD [OF I(3)]
  note f = extended_fields(1) [OF x]
  have "idx c k \<le> idx c cm" if "k \<in> set (chainOf lc c)" for k
    using idx_le_tip [OF I(4) that] extended_mono [OF x] by (rule order_trans)
  then have "sorted (map (idx c) (chainOf lc' c))" using O(1) [of c] by (simp add: ch sorted_append)
  moreover have "idx c cm \<le> logIndex (logOf lc' c)" using x by (simp add: f) (simp add: extended_def)
  ultimately have "sorted (map (idx s) (chainOf lc' s)) \<and> idx s (tip (chainOf lc' (\<not> s))) \<le> idx s (tail (chainOf lc' s)) \<and>
      idx s (tip (chainOf lc' s)) \<le> logIndex (logOf lc' s)" for s
    using O [of s] le ne by (cases "s = c") (auto simp: ch f)
  then show ?thesis by (simp add: order_ok_def)
qed

definition consecutive :: "commitmentChain \<Rightarrow> bool" where
  "consecutive ch \<longleftrightarrow> (\<forall>k < length ch. height (ch ! k) = height (hd ch) + of_nat k)"

lemma consecutive_tip: "consecutive ch \<Longrightarrow> ch \<noteq> [] \<Longrightarrow> height (tip ch) = height (tail ch) + of_nat (length ch - 1)"
  by (simp add: consecutive_def tip_def tail_def last_conv_nth)

lemma consecutive_snoc:
  assumes "consecutive ch" and "ch \<noteq> []" and "height cm = height (tip ch) + 1"
  shows "consecutive (ch @ [cm])"
  unfolding consecutive_def
proof (intro allI impI)
  fix k assume k: "k < length (ch @ [cm])"
  show "height ((ch @ [cm]) ! k) = height (hd (ch @ [cm])) + of_nat k"
  proof (cases "k < length ch")
    case True
    then show ?thesis using assms(1,2) by (simp add: consecutive_def nth_append)
  next
    case False
    then have k': "k = length ch" using k by simp
    have "height cm = height (hd ch) + (of_nat (length ch - 1) + 1)"
      using consecutive_tip [OF assms(1,2)] assms(3) by (simp add: tail_def add.assoc)
    also have "of_nat (length ch - 1) + 1 = (of_nat k :: u64)"
      using assms(2) k' by (metis One_nat_def Suc_pred add.commute length_greater_0_conv of_nat_Suc)
    finally show ?thesis using assms(2) k' by simp
  qed
qed

lemma consecutive_tl:
  assumes "consecutive ch" and "tl ch \<noteq> []"
  shows "consecutive (tl ch)" and "height (tail (tl ch)) = height (tail ch) + 1"
proof -
  have n: "height (ch ! k) = height (hd ch) + of_nat k" if "k < length ch" for k
    using assms(1) that by (simp add: consecutive_def)
  obtain a b cs where ch: "ch = a # b # cs" using assms(2) by (metis list.collapse list.sel(2))
  have b: "height b = height a + 1" using n [of 1] by (simp add: ch)
  then show "height (tail (tl ch)) = height (tail ch) + 1" by (simp add: ch tail_def)
  show "consecutive (tl ch)" unfolding consecutive_def
  proof (intro allI impI)
    fix k assume "k < length (tl ch)"
    then show "height (tl ch ! k) = height (hd (tl ch)) + of_nat k" using n [of "Suc k"] b by (simp add: ch)
  qed
qed

lemma chains_ok_alt:
  "chains_ok lc \<longleftrightarrow> (\<forall>c. chainOf lc c \<noteq> [] \<and> consecutive (chainOf lc c)) \<and>
     LocalCommitment (channelState lc) = tail (localCommitChain lc) \<and>
     RemoteCommitment (channelState lc) = tail (remoteCommitChain lc) \<and>
     currentHeight lc = height (tail (localCommitChain lc)) \<and>
     (commitDiff (bucket lc) = None \<longrightarrow> length (remoteCommitChain lc) = 1) \<and>
     (\<forall>d. commitDiff (bucket lc) = Some d \<longrightarrow>
        length (remoteCommitChain lc) = 2 \<and> diffCommitment d = tip (remoteCommitChain lc))"
  unfolding chains_ok_def consecutive_def ..

lemma chains_okD2:
  assumes "chains_ok lc"
  shows "chainOf lc c \<noteq> []" "consecutive (chainOf lc c)" "LocalCommitment (channelState lc) = tail (localCommitChain lc)"
    "RemoteCommitment (channelState lc) = tail (remoteCommitChain lc)"
    "currentHeight lc = height (tail (localCommitChain lc))"
    "commitDiff (bucket lc) = None \<Longrightarrow> length (remoteCommitChain lc) = 1"
    "commitDiff (bucket lc) = Some d \<Longrightarrow> length (remoteCommitChain lc) = 2"
    "commitDiff (bucket lc) = Some d \<Longrightarrow> diffCommitment d = tip (remoteCommitChain lc)"
  using assms unfolding chains_ok_alt by blast+

lemma extended_inv:
  assumes inv: "chan_inv T n lc" and n: "n < maxSteps" and x: "extended T lc c cm lc'"
    and le: "idx (\<not> c) cm \<le> idx (\<not> c) (tail (chainOf lc (\<not> c)))" and "chains_ok lc'" and "fwd_ok lc'"
  shows "chan_inv T (Suc n) lc'"
  unfolding chan_inv_def
  using extended_logs [OF chan_invD(1) [OF inv] x] extended_bounds [OF inv n x] assms(5,6) extended_order [OF inv x le]
    extended_heights(1) [OF inv n x] extended_parents [OF inv n x] extended_htlcs [OF inv n x]
    extended_money [OF chan_invD(8) [OF inv] x] extended_fees [OF chan_invD(9) [OF inv] x]
  by (intro conjI)

lemma SignNextCommitment_cases:
  assumes "SignNextCommitment tenv senv dbOk lc = (lc', Inr cm)"
  obtains lc1 where "\<not> hasUnackedCommitment (remoteCommitChain lc)"
    "RemoteNextRevocation (channelState lc) \<noteq> None"
    "validateCommitmentSanity lc (theirMessageIndex (tail (localCommitChain lc))) (logIndex (localUpdateLog lc)) True None None = Inr ()"
    "fetchCommitmentView tenv senv lc True (logIndex (localUpdateLog lc)) (htlcCounter (localUpdateLog lc))
       (theirMessageIndex (tail (localCommitChain lc))) (theirHtlcIndex (tail (localCommitChain lc))) = (lc1, Inr cm)"
    "lc' = lc1\<lparr>bucket := (bucket lc1)\<lparr>lastWasRevoke := False, commitDiff := Some (createCommitDiff lc1 cm)\<rparr>,
       remoteCommitChain := remoteCommitChain lc1 @ [cm]\<rparr>"
  using assms unfolding SignNextCommitment_def Let_def
  by (auto simp: AppendRemoteCommitChain_def addCommitment_def split: if_splits sum.splits prod.splits)

lemma ReceiveNewCommitment_cases:
  assumes "ReceiveNewCommitment H tenv senv lc = (lc', Inr cm)"
  obtains lc1 where
    "validateCommitmentSanity lc (logIndex (remoteUpdateLog lc)) (ourMessageIndex (tail (remoteCommitChain lc))) False None None = Inr ()"
    "fetchCommitmentView tenv senv lc False (ourMessageIndex (tail (remoteCommitChain lc))) (ourHtlcIndex (tail (remoteCommitChain lc)))
       (logIndex (remoteUpdateLog lc)) (htlcCounter (remoteUpdateLog lc)) = (lc1, Inr cm)"
    "verifies senv cm" "lc' = lc1\<lparr>localCommitChain := localCommitChain lc1 @ [cm]\<rparr>"
  using assms unfolding ReceiveNewCommitment_def Let_def
  by (auto simp: addCommitment_def split: if_splits sum.splits prod.splits)

end
