(* ===== verification/ChannelRun.thy ===== *)
theory ChannelRun
  imports ChannelCommit
begin

text \<open>
  The invariant under the rest of the operations: signing, receiving and revoking commitments,
  and receiving a revocation, which forwards the entries that became irrevocable and compacts
  the logs. \<open>reachable_inv\<close> puts them together.
\<close>

lemma SignNextCommitment_extended:
  assumes inv: "chan_inv T n lc" and n: "n < maxSteps" and s: "SignNextCommitment tenv senv dbOk lc = (lc', Inr cm)"
  shows "extended T lc True cm lc'" and "ourMessageIndex cm = logIndex (localUpdateLog lc)"
    and "theirMessageIndex cm = theirMessageIndex (tail (localCommitChain lc))"
    and "length (remoteCommitChain lc) = 1" and "chains_ok lc'"
    and "\<exists>d. commitDiff (bucket lc') = Some d \<and> d = createCommitDiff lc' cm"
proof -
  note I = chan_invD [OF inv]
  obtain lc1 where c: "\<not> hasUnackedCommitment (remoteCommitChain lc)"
    "validateCommitmentSanity lc (theirMessageIndex (tail (localCommitChain lc))) (logIndex (localUpdateLog lc)) True None None = Inr ()"
    "fetchCommitmentView tenv senv lc True (logIndex (localUpdateLog lc)) (htlcCounter (localUpdateLog lc))
       (theirMessageIndex (tail (localCommitChain lc))) (theirHtlcIndex (tail (localCommitChain lc))) = (lc1, Inr cm)"
    and lc': "lc' = lc1\<lparr>bucket := (bucket lc1)\<lparr>lastWasRevoke := False, commitDiff := Some (createCommitDiff lc1 cm)\<rparr>,
       remoteCommitChain := remoteCommitChain lc1 @ [cm]\<rparr>"
    using SignNextCommitment_cases [OF s] by metis
  have mono: "ourMessageIndex (tip (chainOf lc True)) \<le> logIndex (localUpdateLog lc)"
    "theirMessageIndex (tip (chainOf lc True)) \<le> theirMessageIndex (tail (localCommitChain lc))"
    "logIndex (localUpdateLog lc) \<le> logIndex (localUpdateLog lc)"
    "theirMessageIndex (tail (localCommitChain lc)) \<le> logIndex (remoteUpdateLog lc)"
    using order_okD(3) [OF I(4), of True] order_okD(2) [OF I(4), of False]
      idx_le_log(1) [OF I(4,3), of "tail (localCommitChain lc)" False] tip_in(2) [of "localCommitChain lc"] chains_okD [OF I(3), of False]
    by simp_all
  have ch: "chainOf lc' d = (if d = True then chainOf lc1 d @ [cm] else chainOf lc1 d)" for d
    by (cases d) (simp_all add: lc')
  have lg: "logOf lc' s = logOf lc1 s" for s by (cases s) (simp_all add: lc')
  note F = fetch_extended [OF inv n c(2,3) mono, of lc', OF ch lg]
  show x: "extended T lc True cm lc'" "ourMessageIndex cm = logIndex (localUpdateLog lc)"
    "theirMessageIndex cm = theirMessageIndex (tail (localCommitChain lc))"
    by (rule F)+
  have "remoteCommitChain lc \<noteq> []" using chains_okD [OF I(3), of True] by simp
  then show len: "length (remoteCommitChain lc) = 1" using c(1) by (simp add: hasUnackedCommitment_def) (simp add: le_Suc_eq not_le less_2_cases_iff)
  obtain r q where lc1: "lc1 = lc\<lparr>localUpdateLog := localUpdateLog lc1, remoteUpdateLog := remoteUpdateLog lc1,
      channelState := (channelState lc)\<lparr>TotalMAtomsReceived := r, TotalMAtomsSent := q\<rparr>\<rparr>"
    using F(4) by blast
  have k: "localCommitChain lc1 = localCommitChain lc" "remoteCommitChain lc1 = remoteCommitChain lc"
    "currentHeight lc1 = currentHeight lc" "LocalCommitment (channelState lc1) = LocalCommitment (channelState lc)"
    "RemoteCommitment (channelState lc1) = RemoteCommitment (channelState lc)"
    by (subst lc1; simp)+
  have "createCommitDiff lc' cm = createCommitDiff lc1 cm" by (simp add: createCommitDiff_def lc')
  then show "\<exists>d. commitDiff (bucket lc') = Some d \<and> d = createCommitDiff lc' cm" by (simp add: lc')
  have "consecutive (chainOf lc' d)" "chainOf lc' d \<noteq> []" for d
    using consecutive_snoc [OF chains_okD2(2,1) [OF I(3)], of cm True] chains_okD2(1,2) [OF I(3), of d] x(1)
    by (cases d; simp add: lc' k extended_def)+
  moreover have "diffCommitment (createCommitDiff lc1 cm) = cm" by (simp add: createCommitDiff_def Let_def)
  ultimately show "chains_ok lc'"
    using chains_okD2(3-5) [OF I(3)] len \<open>remoteCommitChain lc \<noteq> []\<close> unfolding chains_ok_alt by (simp add: lc' k)
qed

lemma SignNextCommitment_inv:
  assumes inv: "chan_inv T n lc" and n: "n < maxSteps" and s: "SignNextCommitment tenv senv dbOk lc = (lc', Inr cm)"
  shows "chan_inv T (Suc n) lc'"
proof -
  note S = SignNextCommitment_extended [OF inv n s]
  show ?thesis
    by (rule extended_inv [OF inv n S(1) _ S(5) extended_fwd_remote [OF inv n S(1,4)]]) (simp add: S(3))
qed

lemma ReceiveNewCommitment_extended:
  assumes inv: "chan_inv T n lc" and n: "n < maxSteps" and s: "ReceiveNewCommitment H tenv senv lc = (lc', Inr cm)"
  shows "extended T lc False cm lc'" and "theirMessageIndex cm = logIndex (remoteUpdateLog lc)"
    and "ourMessageIndex cm = ourMessageIndex (tail (remoteCommitChain lc))" and "chains_ok lc'"
proof -
  note I = chan_invD [OF inv]
  obtain lc1 where c:
    "validateCommitmentSanity lc (logIndex (remoteUpdateLog lc)) (ourMessageIndex (tail (remoteCommitChain lc))) False None None = Inr ()"
    "fetchCommitmentView tenv senv lc False (ourMessageIndex (tail (remoteCommitChain lc))) (ourHtlcIndex (tail (remoteCommitChain lc)))
       (logIndex (remoteUpdateLog lc)) (htlcCounter (remoteUpdateLog lc)) = (lc1, Inr cm)"
    and lc': "lc' = lc1\<lparr>localCommitChain := localCommitChain lc1 @ [cm]\<rparr>"
    using ReceiveNewCommitment_cases [OF s] by metis
  have mono: "ourMessageIndex (tip (chainOf lc False)) \<le> ourMessageIndex (tail (remoteCommitChain lc))"
    "theirMessageIndex (tip (chainOf lc False)) \<le> logIndex (remoteUpdateLog lc)"
    "ourMessageIndex (tail (remoteCommitChain lc)) \<le> logIndex (localUpdateLog lc)"
    "logIndex (remoteUpdateLog lc) \<le> logIndex (remoteUpdateLog lc)"
    using order_okD(3) [OF I(4), of False] order_okD(2) [OF I(4), of True]
      idx_le_log(1) [OF I(4,3), of "tail (remoteCommitChain lc)" True] tip_in(2) [of "remoteCommitChain lc"] chains_okD [OF I(3), of True]
    by simp_all
  have ch: "chainOf lc' d = (if d = False then chainOf lc1 d @ [cm] else chainOf lc1 d)" for d
    by (cases d) (simp_all add: lc')
  have lg: "logOf lc' s = logOf lc1 s" for s by (cases s) (simp_all add: lc')
  note F = fetch_extended [OF inv n c mono, of lc', OF ch lg]
  show x: "extended T lc False cm lc'" "theirMessageIndex cm = logIndex (remoteUpdateLog lc)"
    "ourMessageIndex cm = ourMessageIndex (tail (remoteCommitChain lc))"
    by (rule F)+
  obtain r q where lc1: "lc1 = lc\<lparr>localUpdateLog := localUpdateLog lc1, remoteUpdateLog := remoteUpdateLog lc1,
      channelState := (channelState lc)\<lparr>TotalMAtomsReceived := r, TotalMAtomsSent := q\<rparr>\<rparr>"
    using F(4) by blast
  have k: "localCommitChain lc1 = localCommitChain lc" "remoteCommitChain lc1 = remoteCommitChain lc"
    "currentHeight lc1 = currentHeight lc" "LocalCommitment (channelState lc1) = LocalCommitment (channelState lc)"
    "RemoteCommitment (channelState lc1) = RemoteCommitment (channelState lc)" "bucket lc1 = bucket lc"
    by (subst lc1; simp)+
  have "consecutive (chainOf lc' d)" "chainOf lc' d \<noteq> []" for d
    using consecutive_snoc [OF chains_okD2(2,1) [OF I(3)], of cm False] chains_okD2(1,2) [OF I(3), of d] x(1)
    by (cases d; simp add: lc' k extended_def)+
  then have C: "\<forall>d. chainOf lc' d \<noteq> [] \<and> consecutive (chainOf lc' d)" by blast
  have e: "LocalCommitment (channelState lc') = LocalCommitment (channelState lc)"
    "RemoteCommitment (channelState lc') = RemoteCommitment (channelState lc)" "currentHeight lc' = currentHeight lc"
    "bucket lc' = bucket lc" "remoteCommitChain lc' = remoteCommitChain lc"
    "tail (localCommitChain lc') = tail (localCommitChain lc)"
    using chains_okD [OF I(3), of False] by (simp_all add: lc' k)
  show "chains_ok lc'" using I(3) unfolding chains_ok_alt e by (elim conjE, intro conjI C)
qed

lemma ReceiveNewCommitment_inv:
  assumes inv: "chan_inv T n lc" and n: "n < maxSteps" and s: "ReceiveNewCommitment H tenv senv lc = (lc', Inr cm)"
  shows "chan_inv T (Suc n) lc'"
proof -
  note S = ReceiveNewCommitment_extended [OF inv n s]
  show ?thesis
    by (rule extended_inv [OF inv n S(1) _ S(4) extended_fwd_local [OF inv n S(1)]]) (simp add: S(3))
qed

lemma fwd_okD:
  assumes "fwd_ok lc"
  shows "theirMessageIndex (tail (remoteCommitChain lc)) \<le> theirMessageIndex (tip (remoteCommitChain lc))"
    and "pd \<in> set (descriptors (remoteUpdateLog lc)) \<Longrightarrow> EntryType pd \<noteq> FeeUpdate \<Longrightarrow>
      isForwarded pd \<longleftrightarrow> LogIndex pd < theirMessageIndex (tail (remoteCommitChain lc))"
    and "pd \<in> set (descriptors (remoteUpdateLog lc)) \<Longrightarrow> EntryType pd \<noteq> FeeUpdate \<Longrightarrow>
      theirMessageIndex (tail (remoteCommitChain lc)) \<le> LogIndex pd \<Longrightarrow> inChain True pd \<Longrightarrow>
      entryHeight True pd = height (tip (remoteCommitChain lc))"
    and "pd \<in> set (descriptors (remoteUpdateLog lc)) \<Longrightarrow> EntryType pd \<noteq> FeeUpdate \<Longrightarrow>
      cm \<in> set (localCommitChain lc) \<Longrightarrow> LogIndex pd < theirMessageIndex cm \<Longrightarrow> entryHeight False pd \<le> height cm"
  using assms unfolding fwd_ok_def by blast+

lemma fwd_okI:
  assumes "theirMessageIndex (tail (remoteCommitChain lc)) \<le> theirMessageIndex (tip (remoteCommitChain lc))"
    and "\<And>pd. pd \<in> set (descriptors (remoteUpdateLog lc)) \<Longrightarrow> EntryType pd \<noteq> FeeUpdate \<Longrightarrow>
      isForwarded pd \<longleftrightarrow> LogIndex pd < theirMessageIndex (tail (remoteCommitChain lc))"
    and "\<And>pd. pd \<in> set (descriptors (remoteUpdateLog lc)) \<Longrightarrow> EntryType pd \<noteq> FeeUpdate \<Longrightarrow>
      theirMessageIndex (tail (remoteCommitChain lc)) \<le> LogIndex pd \<Longrightarrow> inChain True pd \<Longrightarrow>
      entryHeight True pd = height (tip (remoteCommitChain lc))"
    and "\<And>pd cm. pd \<in> set (descriptors (remoteUpdateLog lc)) \<Longrightarrow> EntryType pd \<noteq> FeeUpdate \<Longrightarrow>
      cm \<in> set (localCommitChain lc) \<Longrightarrow> LogIndex pd < theirMessageIndex cm \<Longrightarrow> entryHeight False pd \<le> height cm"
  shows "fwd_ok lc"
  unfolding fwd_ok_def using assms by (intro conjI ballI impI) blast+

subsection \<open>Revoking our commitment\<close>

lemma tip_tl: "tl ch \<noteq> [] \<Longrightarrow> tip (tl ch) = tip ch"
  by (simp add: tip_def last_tl)

lemma RevokeCurrentCommitment_success:
  assumes "RevokeCurrentCommitment H point dbOk lc = (lc', Inr msg)"
  shows "generateRevocation H point lc (currentHeight lc) = Inr msg" "tl (localCommitChain lc) \<noteq> []"
    "commitDiff (bucket lc') = commitDiff (bucket lc)"
    "lc' = lc\<lparr>localCommitChain := tl (localCommitChain lc), currentHeight := currentHeight lc + 1, bucket := bucket lc',
       channelState := (channelState lc)\<lparr>LocalCommitment := tail (tl (localCommitChain lc))\<rparr>\<rparr>"
  using assms unfolding RevokeCurrentCommitment_def Let_def
  by (auto simp: UpdateCommitment_def advanceTail_def split: if_splits sum.splits)

lemma RevokeCurrentCommitment_inv:
  assumes inv: "chan_inv T n lc" and s: "RevokeCurrentCommitment H point dbOk lc = (lc', Inr msg)"
  shows "chan_inv T (Suc n) lc'"
proof -
  note I = chan_invD [OF inv]
  note tl = RevokeCurrentCommitment_success(2) [OF s] and bk = RevokeCurrentCommitment_success(3) [OF s]
  have k: "localUpdateLog lc' = localUpdateLog lc" "remoteUpdateLog lc' = remoteUpdateLog lc"
    "localCommitChain lc' = tl (localCommitChain lc)" "remoteCommitChain lc' = remoteCommitChain lc"
    "currentHeight lc' = currentHeight lc + 1" "LocalCommitment (channelState lc') = tail (tl (localCommitChain lc))"
    "RemoteCommitment (channelState lc') = RemoteCommitment (channelState lc)"
    by (subst RevokeCurrentCommitment_success(4) [OF s]; simp)+
  obtain a b cs where abc: "localCommitChain lc = a # b # cs" using tl by (metis list.collapse list.sel(2))
  have lg: "logOf lc' d = logOf lc d" for d by (cases d) (simp_all add: k)
  have ch: "chainOf lc' True = chainOf lc True" "chainOf lc' False = tl (chainOf lc False)" by (simp_all add: k)
  have tp: "tip (chainOf lc' c) = tip (chainOf lc c)" for c using ch tip_tl [OF tl] by (cases c) simp_all
  have sub: "set (chainOf lc' c) \<subseteq> set (chainOf lc c)" for c
    using ch abc by (cases c) auto
  show ?thesis unfolding chan_inv_def
  proof (intro conjI)
    show "logs_ok lc'" using I(1) by (simp add: logs_ok_def lg)
    have "unat (height cm) \<le> n" if "cm \<in> set (chainOf lc' c)" for c cm
      using I(2) subsetD [OF sub that] unfolding bounds_ok_def by blast
    then have "bounds_ok n lc'" using I(2) unfolding bounds_ok_def lg k by blast
    then show "bounds_ok (Suc n) lc'" unfolding bounds_ok_def by (meson le_SucI)
    have "chainOf lc' c \<noteq> [] \<and> consecutive (chainOf lc' c)" for c
    proof (cases c)
      case True
      then show ?thesis using chains_okD2(1,2) [OF I(3), of True] ch(1) by simp
    next
      case False
      then show ?thesis using consecutive_tl(1) [OF chains_okD2(2) [OF I(3), of False]] tl by (simp add: k)
    qed
    then have C: "\<forall>c. chainOf lc' c \<noteq> [] \<and> consecutive (chainOf lc' c)" by blast
    have "height (tail (localCommitChain lc')) = height (tail (localCommitChain lc)) + 1"
      using consecutive_tl(2) [OF chains_okD2(2) [OF I(3), of False]] tl by (simp add: k)
    then have "currentHeight lc' = height (tail (localCommitChain lc'))" using chains_okD2(5) [OF I(3)] by (simp add: k(5))
    moreover have "LocalCommitment (channelState lc') = tail (localCommitChain lc')" by (simp add: k)
    ultimately show "chains_ok lc'" using I(3) unfolding chains_ok_alt bk k(4,7)
      by (elim conjE, intro conjI C)
    have o: "idx False (tail (chainOf lc False)) \<le> idx False (tail (chainOf lc' False))"
      using order_okD(1) [OF I(4), of False] by (simp add: k abc tail_def)
    have "sorted (map (idx d) (chainOf lc' d)) \<and> idx d (tip (chainOf lc' (\<not> d))) \<le> idx d (tail (chainOf lc' d)) \<and>
        idx d (tip (chainOf lc' d)) \<le> logIndex (logOf lc' d)" for d
    proof (cases d)
      case True
      then show ?thesis unfolding tp lg using order_okD [OF I(4), of True] ch by simp
    next
      case False
      have "sorted (map (idx False) (chainOf lc' False))" using order_okD(1) [OF I(4), of False] by (simp add: k abc)
      then show ?thesis unfolding tp lg using order_okD(2,3) [OF I(4), of False] o False by (auto intro: order_trans)
    qed
    then show "order_ok lc'" by (simp add: order_ok_def)
    show "heights_ok lc'" using I(5) unfolding heights_ok_def tp lg .
    show "parents_ok lc'" using I(6) unfolding parents_ok_def lg .
    show "fees_ok lc'" using I(9) unfolding fees_ok_def tp lg .
    show "htlcs_ok lc'" using I(7) unfolding htlcs_ok_def tp committed_def lg .
    show "money_ok T lc'" using I(8) sub unfolding money_ok_def by blast
    have mem: "cm \<in> set (localCommitChain lc') \<Longrightarrow> cm \<in> set (localCommitChain lc)" for cm using sub [of False] by auto
    show "fwd_ok lc'" by (rule fwd_okI; unfold k(2,4)) (use fwd_okD [OF I(10)] mem in auto)
  qed
qed

subsection \<open>Receiving a revocation\<close>

text \<open>What the forwarding loop may do to an entry.\<close>

definition forwarded :: "PaymentDescriptor \<Rightarrow> PaymentDescriptor \<Rightarrow> bool" where
  "forwarded pd pd' \<longleftrightarrow> (\<exists>a d f. pd' = pd\<lparr>SourceRef := a, DestRef := d, isForwarded := f\<rparr>)"

lemma forwarded_same: "forwarded pd pd' \<Longrightarrow> sameEntry pd pd'"
  by (auto simp: forwarded_def sameEntry_def)

lemma forwarded_heights:
  "forwarded pd pd' \<Longrightarrow> addHeight c pd' = addHeight c pd \<and> removeHeight c pd' = removeHeight c pd \<and> inChain c pd' = inChain c pd \<and>
     isAdd pd' = isAdd pd \<and> isRmv pd' = isRmv pd \<and> core pd' = core pd \<and> entryHeight c pd' = entryHeight c pd"
  by (auto simp: forwarded_def addHeight_def removeHeight_def inChain_def isAdd_def isRmv_def core_def entryHeight_def)

definition shouldFwd :: "u64 \<Rightarrow> u64 \<Rightarrow> PaymentDescriptor \<Rightarrow> bool" where
  "shouldFwd rt lt pd \<longleftrightarrow> EntryType pd \<noteq> FeeUpdate \<and> (shouldFwdAdd rt lt pd \<or> shouldFwdRmv rt lt pd)"

lemma forwardLoop_spec:
  "list_all2 (\<lambda>x y. fst y = fst x \<and> forwarded (snd x) (snd y) \<and>
      (isForwarded (snd y) \<longleftrightarrow> isForwarded (snd x) \<or> shouldFwd rt lt (snd x)))
     ents (fw_entries (forwardLoop src rt lt ai si ents))"
proof (induction src rt lt ai si ents rule: forwardLoop.induct)
  case (2 src rt lt ai si ent ents)
  have id: "forwarded (snd ent) (snd ent)" unfolding forwarded_def
    by (intro exI [of _ "SourceRef (snd ent)"] exI [of _ "DestRef (snd ent)"] exI [of _ "isForwarded (snd ent)"]) simp
  have f1: "forwarded (snd ent) (snd ent\<lparr>SourceRef := x, isForwarded := True\<rparr>)" for x unfolding forwarded_def
    by (intro exI [of _ x] exI [of _ "DestRef (snd ent)"] exI [of _ True]) simp
  have f2: "forwarded (snd ent) (snd ent\<lparr>DestRef := x, isForwarded := True\<rparr>)" for x unfolding forwarded_def
    by (intro exI [of _ "SourceRef (snd ent)"] exI [of _ x] exI [of _ True]) simp
  show ?case using 2 id f1 f2 by (auto simp: Let_def shouldFwd_def)
qed simp

lemma rewritten_refl: "(\<And>pd. P pd pd) \<Longrightarrow> rewritten P u u"
  by (simp add: rewritten_def list.rel_refl)

lemma forwarded_refl: "forwarded pd pd"
  unfolding forwarded_def
  by (intro exI [of _ "SourceRef pd"] exI [of _ "DestRef pd"] exI [of _ "isForwarded pd"]) simp

text \<open>The parts of the invariant that do not look at references and flags.\<close>

definition logs_inv :: "LightningChannel \<Rightarrow> bool" where
  "logs_inv lc \<longleftrightarrow> logs_ok lc \<and> heights_ok lc \<and> parents_ok lc \<and> htlcs_ok lc \<and> fees_ok lc"

lemma logs_inv_forwarded:
  assumes inv: "logs_inv lc" and r: "\<And>s. rewritten forwarded (logOf lc s) (logOf lc' s)" and ch: "\<And>c. tip (chainOf lc' c) = tip (chainOf lc c)"
  shows "logs_inv lc'"
proof -
  have I: "logs_ok lc" "heights_ok lc" "parents_ok lc" "htlcs_ok lc" "fees_ok lc" using inv by (simp_all add: logs_inv_def)
  note la = rewritten_descriptors [OF r]
  have bwd: "\<exists>pd \<in> set (descriptors (logOf lc s)). forwarded pd e" if "e \<in> set (descriptors (logOf lc' s))" for e s
    by (rule list_all2_setD(1) [OF la that])
  have 1: "logs_ok lc'" unfolding logs_ok_def
  proof (intro allI conjI)
    fix s
    show "wf_log (logOf lc' s)" by (rule wf_log_rewritten [OF logs_okD(1) [OF I(1)] r]) (rule forwarded_same)
    show "paired (logOf lc' s) (logOf lc' (\<not> s))"
      by (rule paired_rewritten [OF logs_okD(2) [OF I(1)] r r]) (rule forwarded_same, assumption)+
  qed
  have 2: "heights_ok lc'" unfolding heights_ok_def ch
  proof (intro allI ballI)
    fix s c e assume "e \<in> set (descriptors (logOf lc' s))"
    then obtain pd where pd: "pd \<in> set (descriptors (logOf lc s))" "forwarded pd e" using bwd by blast
    have "LogIndex e = LogIndex pd" using forwarded_same [OF pd(2)] by (simp add: sameEntry_def)
    then show "(inChain c e \<longleftrightarrow> LogIndex e < idx s (tip (chainOf lc c))) \<and>
      addHeight c e \<le> height (tip (chainOf lc c)) \<and> removeHeight c e \<le> height (tip (chainOf lc c)) \<and>
      (isAdd e \<longrightarrow> removeHeight c e = 0) \<and> (isRmv e \<longrightarrow> addHeight c e = 0)"
      using heights_okD [OF I(2) pd(1), of c] forwarded_heights [OF pd(2), of c] by simp
  qed
  have 3: "parents_ok lc'" unfolding parents_ok_def
  proof (intro allI ballI impI)
    fix s c e b assume e: "e \<in> set (descriptors (logOf lc' s))" and b: "b \<in> set (descriptors (logOf lc' (\<not> s)))"
      and k: "isRmv e \<and> inChain c e \<and> isAdd b \<and> HtlcIndex b = ParentIndex e"
    obtain x where x: "x \<in> set (descriptors (logOf lc s))" "forwarded x e" using bwd [OF e] by blast
    obtain y where y: "y \<in> set (descriptors (logOf lc (\<not> s)))" "forwarded y b" using bwd [OF b] by blast
    have "isRmv x \<and> inChain c x \<and> isAdd y \<and> HtlcIndex y = ParentIndex x"
      using k forwarded_heights [OF x(2), of c] forwarded_heights [OF y(2), of c] forwarded_same [OF x(2)] forwarded_same [OF y(2)]
      by (simp add: sameEntry_def)
    then have "inChain c y" using I(3) x(1) y(1) unfolding parents_ok_def by blast
    then show "inChain c b" using forwarded_heights [OF y(2), of c] by simp
  qed
  have par: "parents (committed lc' c s) = parents (committed lc c s)" for c s
  proof -
    have k: "ParentIndex y = ParentIndex x \<and> (inChain c y \<and> isRmv y) = (inChain c x \<and> isRmv x)" if "forwarded x y" for x y
      using forwarded_heights [OF that, of c] forwarded_same [OF that] by (simp add: sameEntry_def)
    have m: "map ParentIndex (filter (\<lambda>pd. inChain c pd \<and> isRmv pd) (descriptors (logOf lc' s))) =
        map ParentIndex (filter (\<lambda>pd. inChain c pd \<and> isRmv pd) (descriptors (logOf lc s)))"
      by (rule list_all2_map_filter [OF la k])
    have "ParentIndex ` {e \<in> set (descriptors (logOf lc' s)). inChain c e \<and> isRmv e} =
        ParentIndex ` {e \<in> set (descriptors (logOf lc s)). inChain c e \<and> isRmv e}"
      using arg_cong [OF m, of set] by (simp only: list.set_map set_filter)
    moreover have "{e \<in> set (committed l c s). isRmv e} = {e \<in> set (descriptors (logOf l s)). inChain c e \<and> isRmv e}" for l
      unfolding committed_def set_filter by blast
    ultimately show ?thesis by simp
  qed
  have 4: "htlcs_ok lc'" unfolding htlcs_ok_def ch
  proof (intro allI)
    fix s c
    let ?Q = "\<lambda>e. inChain c e \<and> isAdd e \<and> HtlcIndex e \<notin> parents (committed lc c (\<not> s))"
    have k: "core y = core x \<and> ?Q y = ?Q x" if "forwarded x y" for x y
      using forwarded_heights [OF that, of c] forwarded_same [OF that] by (simp add: sameEntry_def)
    have lv: "live (committed l c (\<not> s)) (committed l c s) =
        filter (\<lambda>e. inChain c e \<and> isAdd e \<and> HtlcIndex e \<notin> parents (committed l c (\<not> s))) (descriptors (logOf l s))" for l
      by (simp add: live_def committed_def)
    have "map core (htlcsOf s (tip (chainOf lc c))) = map core (live (committed lc c (\<not> s)) (committed lc c s))"
      using I(4) by (simp add: htlcs_ok_def)
    also have "\<dots> = map core (live (committed lc' c (\<not> s)) (committed lc' c s))"
      unfolding lv par by (rule list_all2_map_filter [OF la k, symmetric])
    finally show "map core (htlcsOf s (tip (chainOf lc c))) = map core (live (committed lc' c (\<not> s)) (committed lc' c s))" .
  qed
  have "feeRates (descriptors (logOf lc' s)) = feeRates (descriptors (logOf lc s))" for s
  proof -
    have k: "ToAtoms (Amount y) = ToAtoms (Amount x) \<and> (EntryType y = FeeUpdate) = (EntryType x = FeeUpdate)" if "forwarded x y" for x y
      using forwarded_same [OF that] by (simp add: sameEntry_def)
    show ?thesis unfolding feeRates_def
      using arg_cong [OF list_all2_map_filter [where f = "\<lambda>e. ToAtoms (Amount e)" and Q = "\<lambda>e. EntryType e = FeeUpdate", OF la [of s] k], of set]
      by (simp only: list.set_map set_filter)
  qed
  then have 5: "fees_ok lc'" using I(5) by (simp add: fees_ok_def ch)
  show ?thesis unfolding logs_inv_def by (intro conjI 1 2 3 4 5)
qed

text \<open>Compaction drops removals together with the adds they remove, so the live adds stay.\<close>

lemma evictable_inChain: "evictable lt rt pd \<Longrightarrow> isRmv pd \<Longrightarrow> inChain c pd"
  by (simp add: evictable_def inChain_def removeHeight_def)

lemma live_compact:
  assumes A: "descriptors A' = filter (kept lt rt B) (descriptors A)"
    and B: "descriptors B' = filter (kept lt rt A) (descriptors B)"
  shows "live (filter (inChain c) (descriptors B')) (filter (inChain c) (descriptors A')) =
    live (filter (inChain c) (descriptors B)) (filter (inChain c) (descriptors A))"
proof -
  have "(kept lt rt B e \<and> HtlcIndex e \<notin> parents (filter (inChain c) (descriptors B'))) \<longleftrightarrow>
      HtlcIndex e \<notin> parents (filter (inChain c) (descriptors B))" if e: "isAdd e" for e
  proof
    assume l: "kept lt rt B e \<and> HtlcIndex e \<notin> parents (filter (inChain c) (descriptors B'))"
    show "HtlcIndex e \<notin> parents (filter (inChain c) (descriptors B))"
    proof
      assume "HtlcIndex e \<in> parents (filter (inChain c) (descriptors B))"
      then obtain r where r: "r \<in> set (descriptors B)" "inChain c r" "isRmv r" "HtlcIndex e = ParentIndex r"
        unfolding set_filter by blast
      have "\<not> evictable lt rt r"
      proof
        assume "evictable lt rt r"
        then have "HtlcIndex e \<in> freed lt rt (descriptors B)" using r by blast
        then show False using l e by (simp add: kept_def)
      qed
      then have "kept lt rt A r" using r(3) by (simp add: kept_def entry_kinds)
      then have "HtlcIndex e \<in> parents (filter (inChain c) (descriptors B'))"
        unfolding B set_filter using r by blast
      then show False using l by blast
    qed
  next
    assume n: "HtlcIndex e \<notin> parents (filter (inChain c) (descriptors B))"
    have "HtlcIndex e \<notin> freed lt rt (descriptors B)"
    proof
      assume "HtlcIndex e \<in> freed lt rt (descriptors B)"
      then obtain r where "r \<in> set (descriptors B)" "evictable lt rt r" "isRmv r" "HtlcIndex e = ParentIndex r" by blast
      then have "HtlcIndex e \<in> parents (filter (inChain c) (descriptors B))"
        using evictable_inChain unfolding set_filter by blast
      then show False using n by blast
    qed
    then have "kept lt rt B e" using e evictable_nonAdd by (auto simp: kept_def)
    moreover have "parents (filter (inChain c) (descriptors B')) \<subseteq> parents (filter (inChain c) (descriptors B))"
      unfolding B set_filter by blast
    ultimately show "kept lt rt B e \<and> HtlcIndex e \<notin> parents (filter (inChain c) (descriptors B'))" using n by blast
  qed
  then show ?thesis unfolding live_def A filter_filter by (intro filter_cong refl) blast
qed

lemma logs_inv_compact:
  assumes inv: "logs_inv lc" and ch: "\<And>c. tip (chainOf lc' c) = tip (chainOf lc c)"
    and cp: "compactLogs (localUpdateLog lc) (remoteUpdateLog lc) lt rt = Inr (localUpdateLog lc', remoteUpdateLog lc')"
  shows "logs_inv lc'" and "\<And>s. sameCounters (logOf lc s) (logOf lc' s)"
    and "\<And>s. descriptors (logOf lc' s) = filter (kept lt rt (logOf lc (\<not> s))) (descriptors (logOf lc s))"
proof -
  have I: "logs_ok lc" "heights_ok lc" "parents_ok lc" "htlcs_ok lc" "fees_ok lc" using inv by (simp_all add: logs_inv_def)
  have w: "wf_log (localUpdateLog lc)" "wf_log (remoteUpdateLog lc)"
    "paired (localUpdateLog lc) (remoteUpdateLog lc)" "paired (remoteUpdateLog lc) (localUpdateLog lc)"
    using logs_okD [OF I(1), of True] logs_okD [OF I(1), of False] by simp_all
  obtain A B where c: "compactLogs (localUpdateLog lc) (remoteUpdateLog lc) lt rt = Inr (A, B)" "wf_log A" "wf_log B"
    "sameCounters (localUpdateLog lc) A" "sameCounters (remoteUpdateLog lc) B"
    "entries A = filter (\<lambda>x. kept lt rt (remoteUpdateLog lc) (snd x)) (entries (localUpdateLog lc))"
    "entries B = filter (\<lambda>x. kept lt rt (localUpdateLog lc) (snd x)) (entries (remoteUpdateLog lc))" "paired A B" "paired B A"
    using compactLogs_spec [OF w] by blast
  have AB: "localUpdateLog lc' = A" "remoteUpdateLog lc' = B" using c(1) cp by simp_all
  show ds: "descriptors (logOf lc' s) = filter (kept lt rt (logOf lc (\<not> s))) (descriptors (logOf lc s))" for s
    using c(6,7) by (cases s) (simp_all add: AB map_snd_filter)
  show "sameCounters (logOf lc s) (logOf lc' s)" for s using c(4,5) by (cases s) (simp_all add: AB)
  have sub: "e \<in> set (descriptors (logOf lc s))" if "e \<in> set (descriptors (logOf lc' s))" for e s
    using that unfolding ds set_filter by blast
  have 1: "logs_ok lc'" using c(2,3,8,9) by (simp add: logs_ok_def all_bool_eq AB)
  have 2: "heights_ok lc'" unfolding heights_ok_def ch
    by (intro allI ballI conjI impI) (use heights_okD [OF I(2) sub] in blast)+
  have 3: "parents_ok lc'" unfolding parents_ok_def using I(3) sub unfolding parents_ok_def by blast
  have 4: "htlcs_ok lc'" unfolding htlcs_ok_def ch
  proof (intro allI)
    fix s c
    have "descriptors (logOf lc' (\<not> s)) = filter (kept lt rt (logOf lc s)) (descriptors (logOf lc (\<not> s)))" using ds [of "\<not> s"] by simp
    note lv = live_compact [OF ds [of s] this, of c]
    show "map core (htlcsOf s (tip (chainOf lc c))) = map core (live (committed lc' c (\<not> s)) (committed lc' c s))"
      using I(4) unfolding htlcs_ok_def committed_def lv by blast
  qed
  have "feeRates (descriptors (logOf lc' s)) \<subseteq> feeRange" for s
    using I(5) feeRates_filter unfolding fees_ok_def ds by (meson subset_trans)
  then have 5: "fees_ok lc'" using I(5) by (simp add: fees_ok_def ch)
  show "logs_inv lc'" unfolding logs_inv_def by (intro conjI 1 2 3 4 5)
qed

definition fwdLoop :: "ShortChannelID \<Rightarrow> LightningChannel \<Rightarrow> forwards" where
  "fwdLoop source lc = forwardLoop source (height (tail (remoteCommitChain lc)) + 1) (height (tail (localCommitChain lc))) 0 0
     (entries (remoteUpdateLog lc))"

definition fwdLog :: "ShortChannelID \<Rightarrow> LightningChannel \<Rightarrow> updateLog" where
  "fwdLog source lc = (remoteUpdateLog lc)\<lparr>entries := fw_entries (fwdLoop source lc)\<rparr>"

lemma ReceiveRevocation_success:
  assumes "ReceiveRevocation H point source dbOk lc msg = (lc', Inr res)"
  shows "\<exists>d. commitDiff (bucket lc) = Some d \<and> RemoteCommitment (channelState lc') = diffCommitment d"
    and "localCommitChain lc' = localCommitChain lc" "remoteCommitChain lc' = tl (remoteCommitChain lc)"
    "currentHeight lc' = currentHeight lc" "LocalCommitment (channelState lc') = LocalCommitment (channelState lc)"
    "commitDiff (bucket lc') = None"
    "compactLogs (localUpdateLog lc) (fwdLog source lc) (height (tail (localCommitChain lc)))
       (height (tail (remoteCommitChain lc)) + 1) = Inr (localUpdateLog lc', remoteUpdateLog lc')"
    "fst (snd res) = addsToForward (fwdLoop source lc)" "snd (snd res) = settleFailsToForward (fwdLoop source lc)"
    "AddNextEntry H (chanStore (channelState lc)) (Revocation msg) = Inr (chanStore (channelState lc'))"
    "RemoteCurrentRevocation (channelState lc) = Some (point (Revocation msg))"
    "RemoteCurrentRevocation (channelState lc') = RemoteNextRevocation (channelState lc)"
    "RemoteNextRevocation (channelState lc') = Some (NextRevocationKey msg)"
  using assms unfolding ReceiveRevocation_def Let_def fwdLog_def fwdLoop_def
  by (auto simp: AdvanceCommitChainTail_def advanceTail_def split: sum.splits option.splits if_splits)

lemma fwdLog_list:
  "list_all2 (\<lambda>x y. fst y = fst x \<and> forwarded (snd x) (snd y) \<and> (isForwarded (snd y) \<longleftrightarrow> isForwarded (snd x) \<or>
      shouldFwd (height (tail (remoteCommitChain lc)) + 1) (height (tail (localCommitChain lc))) (snd x)))
     (entries (remoteUpdateLog lc)) (entries (fwdLog source lc))"
  unfolding fwdLog_def fwdLoop_def by (simp add: forwardLoop_spec)

lemma fwdLog_rewritten: "rewritten forwarded (remoteUpdateLog lc) (fwdLog source lc)"
  using fwdLog_list [of lc source] unfolding rewritten_def
  by (auto simp: fwdLog_def elim: list.rel_mono_strong)

lemma fwdLog_mem:
  assumes "e \<in> set (descriptors (fwdLog source lc))"
  shows "\<exists>pd \<in> set (descriptors (remoteUpdateLog lc)). forwarded pd e \<and> (isForwarded e \<longleftrightarrow> isForwarded pd \<or>
      shouldFwd (height (tail (remoteCommitChain lc)) + 1) (height (tail (localCommitChain lc))) pd)"
proof -
  obtain y where y: "y \<in> set (entries (fwdLog source lc))" "e = snd y" using assms by auto
  obtain x where x: "x \<in> set (entries (remoteUpdateLog lc))" "forwarded (snd x) e" "isForwarded e \<longleftrightarrow> isForwarded (snd x) \<or>
      shouldFwd (height (tail (remoteCommitChain lc)) + 1) (height (tail (localCommitChain lc))) (snd x)"
    using list_all2_setD(1) [OF fwdLog_list y(1)] y(2) by blast
  then show ?thesis by (intro bexI [of _ "snd x"]) simp_all
qed

text \<open>An entry is forwarded in the step that makes it irrevocable for the remote party.\<close>

lemma shouldFwd_iff:
  assumes inv: "chan_inv T n lc" and k: "remoteCommitChain lc = [k, m]"
    and pd: "pd \<in> set (descriptors (remoteUpdateLog lc))" "EntryType pd \<noteq> FeeUpdate"
  shows "isForwarded pd \<or> shouldFwd (height k + 1) (height (tail (localCommitChain lc))) pd \<longleftrightarrow> LogIndex pd < theirMessageIndex m"
    and "isForwarded pd \<longleftrightarrow> LogIndex pd < theirMessageIndex k" "theirMessageIndex k \<le> theirMessageIndex m"
proof -
  note I = chan_invD [OF inv]
  have t: "tail (remoteCommitChain lc) = k" "tip (remoteCommitChain lc) = m" by (simp_all add: k tail_def tip_def)
  show le: "theirMessageIndex k \<le> theirMessageIndex m" using fwd_okD(1) [OF I(10)] by (simp add: t)
  show f: "isForwarded pd \<longleftrightarrow> LogIndex pd < theirMessageIndex k" using fwd_okD(2) [OF I(10) pd] by (simp add: t)
  have hm: "height m = height k + 1" using consecutive_tip [OF chains_okD2(2) [OF I(3), of True]] by (simp add: k t tail_def tip_def)
  have ic: "inChain True pd \<longleftrightarrow> LogIndex pd < theirMessageIndex m"
    using heights_okD(1) [OF I(5), of pd False True] pd(1) by (simp add: t)
  have kinds: "isAdd pd \<and> EntryType pd = Add \<or> isRmv pd \<and> EntryType pd \<noteq> Add" using pd(2) by (cases "EntryType pd") (auto simp: isAdd_def isRmv_def)
  have loc: "inChain False pd \<and> entryHeight False pd \<le> height (tail (localCommitChain lc))" if "LogIndex pd < theirMessageIndex m"
  proof -
    have ne: "localCommitChain lc \<noteq> []" using chains_okD [OF I(3), of False] by simp
    have "theirMessageIndex m \<le> theirMessageIndex (tail (localCommitChain lc))" using order_okD(2) [OF I(4), of False] by (simp add: t)
    then have lt: "LogIndex pd < theirMessageIndex (tail (localCommitChain lc))" using that by (rule order_less_le_trans [rotated])
    also have "\<dots> \<le> theirMessageIndex (tip (localCommitChain lc))" using idx_le_tip [OF I(4), of "tail (localCommitChain lc)" False] tip_in(2) [OF ne] by simp
    finally have "inChain False pd" using heights_okD(1) [OF I(5), of pd False False] pd(1) by simp
    then show ?thesis using fwd_okD(4) [OF I(10) pd tip_in(2) [OF ne] lt] by blast
  qed
  show "isForwarded pd \<or> shouldFwd (height k + 1) (height (tail (localCommitChain lc))) pd \<longleftrightarrow> LogIndex pd < theirMessageIndex m"
  proof
    assume "isForwarded pd \<or> shouldFwd (height k + 1) (height (tail (localCommitChain lc))) pd"
    then show "LogIndex pd < theirMessageIndex m"
    proof
      assume "isForwarded pd"
      then show ?thesis using f le by (simp add: order_less_le_trans)
    next
      assume "shouldFwd (height k + 1) (height (tail (localCommitChain lc))) pd"
      then have "inChain True pd" using kinds
        by (auto simp: shouldFwd_def shouldFwdAdd_def shouldFwdRmv_def inChain_def addHeight_def removeHeight_def entry_kinds(2))
      then show ?thesis using ic by simp
    qed
  next
    assume lt: "LogIndex pd < theirMessageIndex m"
    show "isForwarded pd \<or> shouldFwd (height k + 1) (height (tail (localCommitChain lc))) pd"
    proof (cases "LogIndex pd < theirMessageIndex k")
      case True
      then show ?thesis using f by simp
    next
      case False
      then have "entryHeight True pd = height k + 1" using fwd_okD(3) [OF I(10) pd] ic lt hm by (simp add: t)
      then show ?thesis using kinds loc [OF lt] ic lt pd(2)
        by (auto simp: shouldFwd_def shouldFwdAdd_def shouldFwdRmv_def entryHeight_def inChain_def addHeight_def removeHeight_def
            entry_kinds(2) word_neq_0_conv)
    qed
  qed
qed

lemma ReceiveRevocation_inv:
  assumes inv: "chan_inv T n lc" and s: "ReceiveRevocation H point source dbOk lc msg = (lc', Inr res)"
  shows "chan_inv T (Suc n) lc'"
proof -
  note I = chan_invD [OF inv] and S = ReceiveRevocation_success [OF s]
  obtain d where d: "commitDiff (bucket lc) = Some d" "RemoteCommitment (channelState lc') = diffCommitment d" using S(1) by blast
  obtain k m where km: "remoteCommitChain lc = [k, m]"
    using chains_okD2(7) [OF I(3) d(1)] by (auto simp: numeral_2_eq_2 length_Suc_conv)
  have t: "tail (remoteCommitChain lc) = k" "tip (remoteCommitChain lc) = m" "diffCommitment d = m" "remoteCommitChain lc' = [m]"
    using chains_okD2(8) [OF I(3) d(1)] S(3) by (simp_all add: km tail_def tip_def)
  define lc1 where "lc1 = lc\<lparr>remoteUpdateLog := fwdLog source lc\<rparr>"
  have tp1: "tip (chainOf lc1 c) = tip (chainOf lc c)" for c by (cases c) (simp_all add: lc1_def)
  have tp: "tip (chainOf lc' c) = tip (chainOf lc1 c)" for c
    using S(2) by (cases c) (simp_all add: lc1_def t, simp add: tip_def)
  have "rewritten forwarded (logOf lc c) (logOf lc1 c)" for c
    using fwdLog_rewritten rewritten_refl [of forwarded, OF forwarded_refl] by (cases c) (simp_all add: lc1_def)
  moreover have "logs_inv lc" using I by (simp add: logs_inv_def)
  ultimately have L1: "logs_inv lc1" using logs_inv_forwarded tp1 by blast
  have cp: "compactLogs (localUpdateLog lc1) (remoteUpdateLog lc1) (height (tail (localCommitChain lc))) (height k + 1) =
      Inr (localUpdateLog lc', remoteUpdateLog lc')" using S(7) by (simp add: lc1_def t)
  note C = logs_inv_compact [OF L1 tp cp]
  have L: "logs_ok lc'" "heights_ok lc'" "parents_ok lc'" "htlcs_ok lc'" "fees_ok lc'" using C(1) by (simp_all add: logs_inv_def)
  have cnt: "logIndex (logOf lc' c) = logIndex (logOf lc c)" "htlcCounter (logOf lc' c) = htlcCounter (logOf lc c)"
    "length (entries (logOf lc' c)) \<le> length (entries (logOf lc c))" for c
  proof -
    have l1: "logIndex (logOf lc1 c) = logIndex (logOf lc c)" "htlcCounter (logOf lc1 c) = htlcCounter (logOf lc c)"
      "length (entries (logOf lc1 c)) = length (entries (logOf lc c))"
      using rewritten_fields [OF fwdLog_rewritten] by (cases c; simp add: lc1_def)+
    show "logIndex (logOf lc' c) = logIndex (logOf lc c)" "htlcCounter (logOf lc' c) = htlcCounter (logOf lc c)"
      using C(2) [of c] l1 by (simp_all add: sameCounters_def)
    have "length (descriptors (logOf lc' c)) \<le> length (descriptors (logOf lc1 c))" unfolding C(3) by (rule length_filter_le)
    then show "length (entries (logOf lc' c)) \<le> length (entries (logOf lc c))" using l1(3) by simp
  qed
  have sub: "set (chainOf lc' c) \<subseteq> set (chainOf lc c)" for c using S(2) t(4) km by (cases c) simp_all
  have bd: "bounds_ok (Suc n) lc'"
  proof -
    have "unat (height cm) \<le> Suc n" if "cm \<in> set (chainOf lc' c)" for c cm
      using I(2) subsetD [OF sub that] unfolding bounds_ok_def by (meson le_SucI)
    moreover have "length (entries (localUpdateLog lc')) + length (entries (remoteUpdateLog lc')) \<le> Suc n"
      using cnt(3) [of True] cnt(3) [of False] I(2) by (simp add: bounds_ok_def)
    moreover have "unat (logIndex (logOf lc c)) \<le> Suc n" "unat (htlcCounter (logOf lc c)) \<le> Suc n" for c
      using I(2) unfolding bounds_ok_def by (meson le_SucI)+
    ultimately show ?thesis by (simp add: bounds_ok_def cnt)
  qed
  have "chainOf lc' c \<noteq> [] \<and> consecutive (chainOf lc' c)" for c
    using chains_okD2(1,2) [OF I(3), of False] S(2) t(4) by (cases c) (simp_all add: consecutive_def)
  then have co: "chains_ok lc'"
    using chains_okD2(3,5) [OF I(3)] S(2,4,5,6) d(2) t(3,4) unfolding chains_ok_alt by (simp add: tail_def)
  have or: "order_ok lc'"
  proof -
    have "ourMessageIndex k \<le> ourMessageIndex m" using order_okD(1) [OF I(4), of True] by (simp add: km)
    then have "idx c (tail (chainOf lc c)) \<le> idx c (tail (chainOf lc' c))" for c
      using S(2) t by (cases c) (simp_all add: tail_def)
    moreover have "sorted (map (idx c) (chainOf lc' c))" for c using order_okD(1) [OF I(4), of False] S(2) t(4) by (cases c) simp_all
    ultimately show ?thesis using order_okD(2,3) [OF I(4)] unfolding order_ok_def tp tp1 cnt by (meson order_trans)
  qed
  have mo: "money_ok T lc'" using I(8) sub unfolding money_ok_def by blast
  have fw: "fwd_ok lc'"
  proof (rule fwd_okI)
    show "theirMessageIndex (tail (remoteCommitChain lc')) \<le> theirMessageIndex (tip (remoteCommitChain lc'))"
      by (simp add: t(4) tail_def tip_def)
    fix e assume e: "e \<in> set (descriptors (remoteUpdateLog lc'))" and ne: "EntryType e \<noteq> FeeUpdate"
    have "descriptors (remoteUpdateLog lc') = filter (kept (height (tail (localCommitChain lc))) (height k + 1) (localUpdateLog lc))
        (descriptors (fwdLog source lc))" using C(3) [of False] by (simp add: lc1_def)
    then have "e \<in> set (descriptors (fwdLog source lc))" using e by (simp only: set_filter mem_Collect_eq)
    then obtain pd where pd: "pd \<in> set (descriptors (remoteUpdateLog lc))" "forwarded pd e"
      and fe: "isForwarded e \<longleftrightarrow> isForwarded pd \<or> shouldFwd (height k + 1) (height (tail (localCommitChain lc))) pd"
      using fwdLog_mem [of e source lc] unfolding t by blast
    have k1: "EntryType pd \<noteq> FeeUpdate" "LogIndex e = LogIndex pd" using forwarded_same [OF pd(2)] ne by (simp_all add: sameEntry_def)
    show "isForwarded e \<longleftrightarrow> LogIndex e < theirMessageIndex (tail (remoteCommitChain lc'))"
      using shouldFwd_iff(1) [OF inv km pd(1) k1(1)] fe by (simp add: t(4) tail_def k1(2))
    show "entryHeight True e = height (tip (remoteCommitChain lc'))"
      if "theirMessageIndex (tail (remoteCommitChain lc')) \<le> LogIndex e" "inChain True e"
      using heights_okD(1) [OF L(2), of e False True] that e by (simp add: t(4) tail_def tip_def leD)
    show "entryHeight False e \<le> height cm" if "cm \<in> set (localCommitChain lc')" "LogIndex e < theirMessageIndex cm" for cm
      using fwd_okD(4) [OF I(10) pd(1) k1(1), of cm] that forwarded_heights [OF pd(2), of False] by (simp add: S(2) k1(2))
  qed
  show ?thesis unfolding chan_inv_def by (intro conjI L bd co or mo fw)
qed

lemma chan_step_inv:
  assumes "chan_step lc lc'" and "chan_inv T n lc" and "n < maxSteps"
  shows "chan_inv T (Suc n) lc'"
  using assms(1)
proof cases
  case add then show ?thesis by (rule AddHTLC_inv [OF assms(2,3)])
next
  case receive_add then show ?thesis by (rule ReceiveHTLC_inv [OF assms(2,3)])
next
  case settle then show ?thesis by (rule SettleHTLC_inv [OF assms(2,3)])
next
  case receive_settle then show ?thesis by (rule ReceiveHTLCSettle_inv [OF assms(2,3)])
next
  case fail then show ?thesis by (rule FailHTLC_inv [OF assms(2,3)])
next
  case fail_malformed then show ?thesis by (rule MalformedFailHTLC_inv [OF assms(2,3)])
next
  case receive_fail then show ?thesis by (rule ReceiveFailHTLC_inv [OF assms(2,3)])
next
  case update_fee then show ?thesis by (rule UpdateFee_inv [OF assms(2,3)])
next
  case receive_fee then show ?thesis by (rule ReceiveUpdateFee_inv [OF assms(2,3)])
next
  case sign then show ?thesis by (rule SignNextCommitment_inv [OF assms(2,3)])
next
  case receive_commitment then show ?thesis by (rule ReceiveNewCommitment_inv [OF assms(2,3)])
next
  case revoke then show ?thesis by (rule RevokeCurrentCommitment_inv [OF assms(2)])
next
  case receive_revocation then show ?thesis by (rule ReceiveRevocation_inv [OF assms(2)])
qed

lemma reachable_inv: "reachable T n lc \<Longrightarrow> chan_inv T n lc"
proof (induction rule: reachable.induct)
  case (start lc)
  then show ?case by (rule opened_inv)
next
  case (step n lc lc')
  then show ?case using chan_step_inv by blast
qed

end
