(* ===== verification/ChannelProps.thy ===== *)
theory ChannelProps
  imports ChannelRun
begin

text \<open>
  What the channel state machine of \<^verbatim>\<open>lnwallet/channel.go\<close> promises, for every run of its
  operations from an opened channel. The lemmas read the invariant \<open>chan_inv\<close>; the example
  channel at the end of the first part is run by the operations themselves and instantiates
  each property.
\<close>

subsection \<open>Consequences of the invariant\<close>

lemma committed_indices:
  assumes "chan_inv T n lc"
  shows "committed lc c s = filter (\<lambda>pd. LogIndex pd < idx s (tip (chainOf lc c))) (descriptors (logOf lc s))"
  unfolding committed_def
  by (rule filter_cong [OF refl]) (rule heights_okD(1) [OF chan_invD(5) [OF assms]])

lemma tip_htlcs:
  assumes "chan_inv T n lc"
  shows "map core (htlcsOf s (tip (chainOf lc c))) =
    map core (live (filter (\<lambda>pd. LogIndex pd < idx (\<not> s) (tip (chainOf lc c))) (descriptors (logOf lc (\<not> s))))
                   (filter (\<lambda>pd. LogIndex pd < idx s (tip (chainOf lc c))) (descriptors (logOf lc s))))"
  using chan_invD(7) [OF assms] unfolding htlcs_ok_def committed_indices [OF assms] by blast

lemma updateMsgOf_refs [simp]:
  "updateMsgOf (pd\<lparr>SourceRef := a, isForwarded := f\<rparr>) = updateMsgOf pd"
  "updateMsgOf (pd\<lparr>DestRef := d, isForwarded := f\<rparr>) = updateMsgOf pd"
  by (simp_all add: updateMsgOf_def split: updateType.split)

lemma forwardLoop_adds:
  "map (\<lambda>pd. (LogIndex pd, updateMsgOf pd)) (addsToForward (forwardLoop src rt lt ai si ents)) =
   map (\<lambda>pd. (LogIndex pd, updateMsgOf pd))
     (filter (\<lambda>pd. EntryType pd \<noteq> FeeUpdate \<and> \<not> isForwarded pd \<and> shouldFwdAdd rt lt pd) (map snd ents))"
  by (induction src rt lt ai si ents rule: forwardLoop.induct) (auto simp: Let_def)

lemma forwardLoop_settleFails:
  "map (\<lambda>pd. (LogIndex pd, updateMsgOf pd)) (settleFailsToForward (forwardLoop src rt lt ai si ents)) =
   map (\<lambda>pd. (LogIndex pd, updateMsgOf pd))
     (filter (\<lambda>pd. EntryType pd \<noteq> FeeUpdate \<and> \<not> isForwarded pd \<and> shouldFwdRmv rt lt pd) (map snd ents))"
  by (induction src rt lt ai si ents rule: forwardLoop.induct) (auto simp: Let_def shouldFwdAdd_def shouldFwdRmv_def)

lemma revocation_chain:
  assumes inv: "chan_inv T n lc" and s: "ReceiveRevocation H point source dbOk lc msg = (lc', Inr res)"
  obtains k m where "remoteCommitChain lc = [k, m]" "remoteCommitChain lc' = [m]"
proof -
  note I = chan_invD [OF inv] and S = ReceiveRevocation_success [OF s]
  obtain d where d: "commitDiff (bucket lc) = Some d" using S(1) by blast
  obtain k m where "remoteCommitChain lc = [k, m]"
    using chains_okD2(7) [OF I(3) d] by (auto simp: numeral_2_eq_2 length_Suc_conv)
  then show ?thesis using S(3) that by simp
qed

text \<open>The entries of the remote log that a revocation makes irrevocable.\<close>

definition lockedIn :: "LightningChannel \<Rightarrow> PaymentDescriptor list" where
  "lockedIn lc = filter (\<lambda>pd. theirMessageIndex (tail (remoteCommitChain lc)) \<le> LogIndex pd \<and>
      LogIndex pd < theirMessageIndex (tip (remoteCommitChain lc))) (descriptors (remoteUpdateLog lc))"

lemma forward_filter:
  assumes inv: "chan_inv T n lc" and km: "remoteCommitChain lc = [k, m]" and a: "\<And>pd. P pd \<Longrightarrow> EntryType pd \<noteq> FeeUpdate"
    and Q: "\<And>pd. EntryType pd \<noteq> FeeUpdate \<and> Q pd \<longleftrightarrow> P pd \<and> shouldFwd (height k + 1) (height (tail (localCommitChain lc))) pd"
  shows "filter (\<lambda>pd. EntryType pd \<noteq> FeeUpdate \<and> \<not> isForwarded pd \<and> Q pd) (descriptors (remoteUpdateLog lc)) = filter P (lockedIn lc)"
proof -
  have t: "tail (remoteCommitChain lc) = k" "tip (remoteCommitChain lc) = m" by (simp_all add: km tail_def tip_def)
  show ?thesis unfolding lockedIn_def t filter_filter
  proof (rule filter_cong [OF refl])
    fix pd assume pd: "pd \<in> set (descriptors (remoteUpdateLog lc))"
    show "(EntryType pd \<noteq> FeeUpdate \<and> \<not> isForwarded pd \<and> Q pd) =
      ((theirMessageIndex k \<le> LogIndex pd \<and> LogIndex pd < theirMessageIndex m) \<and> P pd)"
      using shouldFwd_iff(1,2) [OF inv km pd] a [of pd] Q [of pd] linorder_not_less [of "LogIndex pd" "theirMessageIndex k"] by blast
  qed
qed

lemma forward_lists:
  assumes inv: "chan_inv T n lc" and s: "ReceiveRevocation H point source dbOk lc msg = (lc', Inr (pkg, adds, sfs))"
  shows "pkgAdds pkg = map (\<lambda>pd. (LogIndex pd, updateMsgOf pd)) (filter isAdd (lockedIn lc))"
    and "pkgSettleFails pkg = map (\<lambda>pd. (LogIndex pd, updateMsgOf pd)) (filter isRmv (lockedIn lc))"
    and "map LogIndex adds = map fst (pkgAdds pkg)" "map LogIndex sfs = map fst (pkgSettleFails pkg)"
proof -
  obtain k m where km: "remoteCommitChain lc = [k, m]" by (rule revocation_chain [OF inv s])
  have t: "tail (remoteCommitChain lc) = k" by (simp add: km tail_def)
  let ?g = "\<lambda>pd. (LogIndex pd, updateMsgOf pd)" and ?fw = "forwardLoop source (height k + 1) (height (tail (localCommitChain lc))) 0 0 (entries (remoteUpdateLog lc))"
  have e: "pkgAdds pkg = map ?g adds" "pkgSettleFails pkg = map ?g sfs" "adds = addsToForward ?fw" "sfs = settleFailsToForward ?fw"
    using s unfolding ReceiveRevocation_def Let_def t by (auto split: sum.splits option.splits if_splits)
  have rk: "isRmv pd \<longleftrightarrow> EntryType pd \<noteq> Add \<and> EntryType pd \<noteq> FeeUpdate" for pd by (cases "EntryType pd") (simp_all add: isRmv_def)
  show "pkgAdds pkg = map ?g (filter isAdd (lockedIn lc))"
    unfolding e(1,3) forwardLoop_adds
    by (subst forward_filter [OF inv km, where P = isAdd])
      (auto simp: isAdd_def shouldFwd_def shouldFwdAdd_def shouldFwdRmv_def)
  show "pkgSettleFails pkg = map ?g (filter isRmv (lockedIn lc))"
    unfolding e(2,4) forwardLoop_settleFails
    by (subst forward_filter [OF inv km, where P = isRmv])
      (use rk in \<open>auto simp: shouldFwd_def shouldFwdAdd_def shouldFwdRmv_def\<close>)
  show "map LogIndex adds = map fst (pkgAdds pkg)" "map LogIndex sfs = map fst (pkgSettleFails pkg)" unfolding e by simp_all
qed

lemma revocation_accepted:
  assumes inv: "chan_inv T n lc"
  shows "\<not> isl (snd (ReceiveRevocation H point source dbOk lc msg)) \<longleftrightarrow>
    \<not> isl (AddNextEntry H (chanStore (channelState lc)) (Revocation msg)) \<and>
    RemoteCurrentRevocation (channelState lc) = Some (point (Revocation msg)) \<and>
    hasUnackedCommitment (remoteCommitChain lc) \<and> dbOk"
proof -
  note I = chan_invD [OF inv]
  have unacked: "commitDiff (bucket lc) = None \<longleftrightarrow> \<not> hasUnackedCommitment (remoteCommitChain lc)"
    using chains_okD2(6,7) [OF I(3)] by (cases "commitDiff (bucket lc)") (auto simp: hasUnackedCommitment_def)
  have L1: "wf_log (localUpdateLog lc)" "wf_log (remoteUpdateLog lc)" "paired (localUpdateLog lc) (remoteUpdateLog lc)"
    "paired (remoteUpdateLog lc) (localUpdateLog lc)"
    using logs_okD [OF I(1), of True] logs_okD [OF I(1), of False] by simp_all
  have w: "wf_log (fwdLog source lc)" by (rule wf_log_rewritten [OF L1(2) fwdLog_rewritten]) (rule forwarded_same)
  have p: "paired (localUpdateLog lc) (fwdLog source lc)" "paired (fwdLog source lc) (localUpdateLog lc)"
    by (rule paired_rewritten [OF L1(3) rewritten_refl [of forwarded, OF forwarded_refl] fwdLog_rewritten], (rule forwarded_same, assumption)+)
      (rule paired_rewritten [OF L1(4) fwdLog_rewritten rewritten_refl [of forwarded, OF forwarded_refl]], (rule forwarded_same, assumption)+)
  obtain A B where cp: "compactLogs (localUpdateLog lc) (fwdLog source lc) (height (tail (localCommitChain lc))) (height (tail (remoteCommitChain lc)) + 1) = Inr (A, B)"
    using compactLogs_spec [OF L1(1) w p] by blast
  show ?thesis
    using cp unacked unfolding ReceiveRevocation_def Let_def fwdLog_def fwdLoop_def
    by (auto simp: AdvanceCommitChainTail_def split: sum.splits option.splits if_splits)
qed

lemma clean_no_htlcs:
  assumes inv: "chan_inv T n lc" and clean: "IsChannelClean sha lc"
  shows "outgoingHTLCs (tip (chainOf lc c)) = []" "incomingHTLCs (tip (chainOf lc c)) = []" "chainOf lc c = [tip (chainOf lc c)]"
proof -
  note I = chan_invD [OF inv]
  have len: "length (chainOf lc c) = 1" for c
    using clean chains_okD2(1) [OF I(3), of c] by (cases c; cases "chainOf lc c") (auto simp: IsChannelClean_def hasUnackedCommitment_def not_less_eq_eq)
  show one: "chainOf lc c = [tip (chainOf lc c)]" for c
    using len [of c] by (cases "chainOf lc c") (auto simp: tip_def)
  have ix: "idx s (tip (chainOf lc True)) = idx s (tip (chainOf lc False))" for s
    using clean by (cases s) (auto simp: IsChannelClean_def oweCommitment_def Let_def)
  have same: "map core (htlcsOf s (tip (chainOf lc True))) = map core (htlcsOf s (tip (chainOf lc False)))" for s
    unfolding tip_htlcs [OF inv] ix ..
  have tl: "tail (chainOf lc c) = tip (chainOf lc c)" for c using len [of c] by (cases "chainOf lc c") (auto simp: tail_def tip_def)
  have ow: "core ` set (commitHtlcs (tip (chainOf lc True))) = core ` set (commitHtlcs (tip (chainOf lc False)))"
    using arg_cong [OF same [of True], of set] arg_cong [OF same [of False], of set] by (simp add: commitHtlcs_def image_Un)
  have blob: "OnionBlob a = OnionBlob b" if "core a = core b" for a b using that by (simp add: core_def)
  have cs: "LocalCommitment (channelState lc) = tip (chainOf lc False)" "RemoteCommitment (channelState lc) = tip (chainOf lc True)"
    using chains_okD2(3,4) [OF I(3)] tl [of True] tl [of False] by (simp_all only: side_simps)
  have sub: "\<exists>b \<in> set (commitHtlcs (tip (chainOf lc True))). sha (OnionBlob a) = sha (OnionBlob b)"
    if "a \<in> set (commitHtlcs (tip (chainOf lc False)))" for a
  proof -
    have "core a \<in> core ` set (commitHtlcs (tip (chainOf lc True)))" unfolding ow using that by (rule imageI)
    then obtain b where "core a = core b" "b \<in> set (commitHtlcs (tip (chainOf lc True)))" by (rule imageE)
    then show ?thesis using blob [of a b] by auto
  qed
  have none: "commitHtlcs (tip (chainOf lc False)) = []"
  proof (rule ccontr)
    assume "commitHtlcs (tip (chainOf lc False)) \<noteq> []"
    then obtain a where a: "a \<in> set (commitHtlcs (tip (chainOf lc False)))" by (meson list.set_sel(1))
    have "ActiveHtlcs sha (channelState lc) = []" using clean by (simp add: IsChannelClean_def)
    then have "sha (OnionBlob a) \<notin> (\<lambda>htlc. sha (OnionBlob htlc)) ` set (commitHtlcs (tip (chainOf lc True)))"
      using a unfolding ActiveHtlcs_def cs Let_def filter_empty_conv by (rule bspec)
    then show False using sub [OF a] by (simp add: image_iff)
  qed
  then have "commitHtlcs (tip (chainOf lc c)) = []" using ow by (cases c) auto
  then show "outgoingHTLCs (tip (chainOf lc c)) = []" "incomingHTLCs (tip (chainOf lc c)) = []" by (simp_all add: commitHtlcs_def)
qed

lemma touch_updateMsg: "updateMsgOf (touch c h pd) = updateMsgOf pd"
  using touch_same [of pd c h] unfolding touch_def setAddHeight_def setRemoveHeight_def
  by (simp add: updateMsgOf_def split: updateType.split)

lemma touch_new:
  assumes h: "addHeight c pd < h" "removeHeight c pd < h"
  shows "addHeight c (touch c h pd) = h \<or> removeHeight c (touch c h pd) = h \<longleftrightarrow> \<not> inChain c pd"
  using assms by (auto simp: touch_def)

lemma diff_updates:
  assumes inv: "chan_inv T n lc" and n: "n < maxSteps" and s: "SignNextCommitment tenv senv dbOk lc = (lc', Inr cm)"
  shows "LogUpdates (createCommitDiff lc' cm) = map (\<lambda>pd. (LogIndex pd, updateMsgOf pd))
    (filter (\<lambda>pd. ourMessageIndex (tip (remoteCommitChain lc)) \<le> LogIndex pd) (descriptors (localUpdateLog lc)))"
proof -
  note E = SignNextCommitment_extended [OF inv n s] and I = chan_invD [OF inv]
  have h: "height cm = height (tip (chainOf lc True)) + 1" using E(1) by (simp add: extended_def)
  have less: "height (tip (chainOf lc True)) < height cm"
    using height_le_inc [OF inv n h] h by (simp add: order_less_le)
  let ?t = "touch True (height cm)"
  have all: "map (touchAt True (height cm) (ourMessageIndex cm)) (descriptors (localUpdateLog lc)) = map ?t (descriptors (localUpdateLog lc))"
  proof (rule map_cong [OF refl])
    fix pd assume "pd \<in> set (descriptors (localUpdateLog lc))"
    then have "LogIndex pd < logIndex (localUpdateLog lc)" using wf_logD(3) [OF logs_okD(1) [OF I(1), of True]] by auto
    then show "touchAt True (height cm) (ourMessageIndex cm) pd = ?t pd" by (simp add: touchAt_def E(2))
  qed
  have d: "descriptors (localUpdateLog lc') = map ?t (descriptors (localUpdateLog lc))"
    using extended_fields(4) [OF E(1), of True] all by simp
  have "LogUpdates (createCommitDiff lc' cm) = map (\<lambda>pd. (LogIndex pd, updateMsgOf pd))
      (filter (\<lambda>pd. addHeight True (?t pd) = height cm \<or> removeHeight True (?t pd) = height cm) (descriptors (localUpdateLog lc)))"
    unfolding createCommitDiff_def Let_def d
    by (simp add: filter_map comp_def touch_updateMsg addHeight_def removeHeight_def)
  also have "filter (\<lambda>pd. addHeight True (?t pd) = height cm \<or> removeHeight True (?t pd) = height cm) (descriptors (localUpdateLog lc)) =
      filter (\<lambda>pd. ourMessageIndex (tip (remoteCommitChain lc)) \<le> LogIndex pd) (descriptors (localUpdateLog lc))"
  proof (rule filter_cong [OF refl])
    fix pd assume pd: "pd \<in> set (descriptors (localUpdateLog lc))"
    then have pd': "pd \<in> set (descriptors (logOf lc True))" by simp
    note H = heights_okD [OF I(5) pd', of True]
    have "addHeight True pd < height cm" "removeHeight True pd < height cm" using H(2,3) less by (simp_all add: order_le_less_trans)
    from touch_new [OF this] show "(addHeight True (?t pd) = height cm \<or> removeHeight True (?t pd) = height cm) =
        (ourMessageIndex (tip (remoteCommitChain lc)) \<le> LogIndex pd)" using H(1) by (simp add: linorder_not_less)
  qed
  finally show ?thesis .
qed

subsection \<open>An example channel\<close>

text \<open>A channel of a million atoms, opened and run by the operations of the model: the peer
  adds an HTLC and has it committed on both sides; or we add one and sign for it.\<close>

definition exCfg :: ChannelConfig where
  "exCfg = \<lparr>DustLimit = 6030, ChanReserve = 10000, MaxPendingAmount = 900000000, MinHTLC = 1000, MaxAcceptedHtlcs = 483\<rparr>"

definition exCommit :: "bool \<Rightarrow> commitment" where
  "exCommit ours = \<lparr>height = 0, isOurs = ours, ourMessageIndex = 0, theirMessageIndex = 0, ourHtlcIndex = 0,
     theirHtlcIndex = 0, txn = [], ourBalance = 596000000, theirBalance = 400000000, fee = 4000, c_feePerKB = 10000,
     dustLimit = 6030, outgoingHTLCs = [], incomingHTLCs = []\<rparr>"

definition exSecret :: bytes where
  "exSecret = replicate 32 7"

definition exOpen :: LightningChannel where
  "exOpen = \<lparr>currentHeight = 0, remoteCommitChain = [exCommit False], localCommitChain = [exCommit True],
     channelState = \<lparr>ChanType = SingleFunderTweaklessBit, IsInitiator = True, Capacity = 1000000, LocalChanCfg = exCfg,
       RemoteChanCfg = exCfg, TotalMAtomsSent = 0, TotalMAtomsReceived = 0, LocalCommitment = exCommit True,
       RemoteCommitment = exCommit False, RemoteCurrentRevocation = Some exSecret, RemoteNextRevocation = Some exSecret,
       chanProducer = NewRevocationProducer (replicate 32 9), chanStore = NewRevocationStore\<rparr>,
     localUpdateLog = newUpdateLog 0 0, remoteUpdateLog = newUpdateLog 0 0,
     bucket = \<lparr>commitDiff = None, unsignedAckedUpdates = [], remoteUnsignedLocalUpdates = [], lastWasRevoke = False\<rparr>\<rparr>"

definition exTx :: txEnv where
  "exTx = \<lparr>txChecks = (\<lambda>_ _ _. True), txSerializeSize = (\<lambda>_. 150)\<rparr>"

definition exSign :: signEnv where
  "exSign = \<lparr>htlcOutputsFound = (\<lambda>_. True), signs = (\<lambda>_. True), verifies = (\<lambda>_. True)\<rparr>"

definition exAdd :: "u64 \<Rightarrow> u64 \<Rightarrow> addMsg" where
  "exAdd i amt = \<lparr>m_ID = i, m_Amount = amt, m_PaymentHash = replicate 32 1, m_Expiry = 100, m_OnionBlob = [1]\<rparr>"

definition exH :: "bytes \<Rightarrow> ShaHash" where
  "exH b = b"

definition exRun1 :: "chan_error + (LightningChannel \<times> u64)" where
  "exRun1 = ReceiveHTLC exOpen (exAdd 0 50000000)"

definition exRun2 :: "LightningChannel \<times> (chan_error + commitment)" where
  "exRun2 = ReceiveNewCommitment exH exTx exSign (fst (projr exRun1))"

definition exRun3 :: "LightningChannel \<times> (chan_error + RevokeAndAck)" where
  "exRun3 = RevokeCurrentCommitment exH exH True (fst exRun2)"

definition exRun4 :: "LightningChannel \<times> (chan_error + commitment)" where
  "exRun4 = SignNextCommitment exTx exSign True (fst exRun3)"

definition exRun5 :: "LightningChannel \<times> (chan_error + (FwdPkg \<times> PaymentDescriptor list \<times> PaymentDescriptor list))" where
  "exRun5 = ReceiveRevocation exH exH zeroChanID True (fst exRun4) \<lparr>Revocation = exSecret, NextRevocationKey = exSecret\<rparr>"

definition exOut1 :: "chan_error + (LightningChannel \<times> u64)" where
  "exOut1 = AddHTLC exOpen (exAdd 0 50000000) None"

definition exOut2 :: "LightningChannel \<times> (chan_error + commitment)" where
  "exOut2 = SignNextCommitment exTx exSign True (fst (projr exOut1))"

lemma ex_opened: "opened 1000000000 exOpen"
  unfolding opened_def
  by (intro conjI exI [of _ "exCommit True"] exI [of _ "exCommit False"])
    (simp_all add: exOpen_def exCommit_def commitTotal_def NewMAtomsFromAtoms_def feeRange_def)

lemma ex_ok:
  "\<not> isl exRun1" "\<not> isl (snd exRun2)" "\<not> isl (snd exRun3)" "\<not> isl (snd exRun4)"
  "\<not> isl (snd exRun5)" "\<not> isl exOut1" "\<not> isl (snd exOut2)"
  by code_simp+

lemma snd_ok: "\<not> isl (snd x) \<Longrightarrow> x = (fst x, Inr (projr (snd x)))"
  by (cases x; cases "snd x") auto

lemma res_ok: "\<not> isl x \<Longrightarrow> x = Inr (fst (projr x), snd (projr x))"
  by (cases x) auto

lemma run_step: "reachable T n lc \<Longrightarrow> chan_step lc lc' \<Longrightarrow> n < 100 \<Longrightarrow> reachable T (n + 1) lc'"
  using reachable.step [of T n lc lc'] by (simp add: maxSteps_def)

lemma ex_steps:
  "chan_step exOpen (fst (projr exRun1))" "chan_step (fst (projr exRun1)) (fst exRun2)"
  "chan_step (fst exRun2) (fst exRun3)" "chan_step (fst exRun3) (fst exRun4)" "chan_step (fst exRun4) (fst exRun5)"
  "chan_step exOpen (fst (projr exOut1))" "chan_step (fst (projr exOut1)) (fst exOut2)"
  by (rule chan_step.receive_add [OF res_ok [OF ex_ok(1), unfolded exRun1_def], folded exRun1_def]
      chan_step.receive_commitment [OF snd_ok [OF ex_ok(2), unfolded exRun2_def], folded exRun2_def]
      chan_step.revoke [OF snd_ok [OF ex_ok(3), unfolded exRun3_def], folded exRun3_def]
      chan_step.sign [OF snd_ok [OF ex_ok(4), unfolded exRun4_def], folded exRun4_def]
      chan_step.receive_revocation [OF snd_ok [OF ex_ok(5), unfolded exRun5_def], folded exRun5_def]
      chan_step.add [OF res_ok [OF ex_ok(6), unfolded exOut1_def], folded exOut1_def]
      chan_step.sign [OF snd_ok [OF ex_ok(7), unfolded exOut2_def], folded exOut2_def])+

lemma ex_reachable:
  "reachable 1000000000 0 exOpen"
  "reachable 1000000000 1 (fst (projr exRun1))"
  "reachable 1000000000 4 (fst exRun4)"
  "reachable 1000000000 5 (fst exRun5)"
  "reachable 1000000000 1 (fst (projr exOut1))"
proof -
  show 0: "reachable 1000000000 0 exOpen" by (rule reachable.start [OF ex_opened])
  show 1: "reachable 1000000000 1 (fst (projr exRun1))" using run_step [OF 0 ex_steps(1)] by simp
  have 2: "reachable 1000000000 2 (fst exRun2)" using run_step [OF 1 ex_steps(2)] by (simp add: numeral_2_eq_2)
  have 3: "reachable 1000000000 3 (fst exRun3)" using run_step [OF 2 ex_steps(3)] by simp
  show 4: "reachable 1000000000 4 (fst exRun4)" using run_step [OF 3 ex_steps(4)] by simp
  show "reachable 1000000000 5 (fst exRun5)" using run_step [OF 4 ex_steps(5)] by simp
  show "reachable 1000000000 1 (fst (projr exOut1))" using run_step [OF 0 ex_steps(6)] by simp
qed

subsection \<open>Properties of every run\<close>



text \<open>C8. What the newest commitment of a chain pays. Its HTLCs are exactly the adds of a log
  below the commitment's index that no settle or fail of the other log, below its other index,
  has removed; in the order of the log, with their amounts, hashes and timeouts.\<close>

theorem commitment_htlcs:
  fixes remoteChain :: bool
  assumes "reachable T n lc"
  defines "cm \<equiv> tip (commitChainOf lc remoteChain)"
  defines "ours \<equiv> filter (\<lambda>pd. LogIndex pd < ourMessageIndex cm) (descriptors (localUpdateLog lc))"
  defines "theirs \<equiv> filter (\<lambda>pd. LogIndex pd < theirMessageIndex cm) (descriptors (remoteUpdateLog lc))"
  shows "map core (outgoingHTLCs cm) =
      map core (filter (\<lambda>a. isAdd a \<and> \<not> (\<exists>r \<in> set theirs. isRmv r \<and> ParentIndex r = HtlcIndex a)) ours) \<and>
    map core (incomingHTLCs cm) =
      map core (filter (\<lambda>a. isAdd a \<and> \<not> (\<exists>r \<in> set ours. isRmv r \<and> ParentIndex r = HtlcIndex a)) theirs)"
proof -
  have l: "live others pds = filter (\<lambda>a. isAdd a \<and> \<not> (\<exists>r \<in> set others. isRmv r \<and> ParentIndex r = HtlcIndex a)) pds" for others pds
    unfolding live_def by (rule filter_cong) (auto simp: image_iff)
  show ?thesis
    using tip_htlcs [OF reachable_inv [OF assms(1)], of True remoteChain] tip_htlcs [OF reachable_inv [OF assms(1)], of False remoteChain]
    unfolding chainOf_def l cm_def ours_def theirs_def by (simp only: side_simps simp_thms)
qed

theorem commitment_htlcs_witness:
  "map core (incomingHTLCs (tip (commitChainOf (fst exRun5) False))) =
     map core (filter (\<lambda>a. isAdd a \<and> \<not> (\<exists>r \<in> set (filter (\<lambda>pd. LogIndex pd < ourMessageIndex (tip (commitChainOf (fst exRun5) False)))
          (descriptors (localUpdateLog (fst exRun5)))). isRmv r \<and> ParentIndex r = HtlcIndex a))
       (filter (\<lambda>pd. LogIndex pd < theirMessageIndex (tip (commitChainOf (fst exRun5) False))) (descriptors (remoteUpdateLog (fst exRun5))))) \<and>
   map HtlcIndex (incomingHTLCs (tip (commitChainOf (fst exRun5) False))) = [0]"
proof -
  have "map HtlcIndex (incomingHTLCs (tip (commitChainOf (fst exRun5) False))) = [0]" by code_simp
  then show ?thesis using commitment_htlcs [OF ex_reachable(4), of False] by (simp only: simp_thms)
qed

text \<open>C4. A revocation is forwarded from exactly once. The forwarding package of
  \<open>ReceiveRevocation\<close> holds the adds, and the settles and fails, of the remote log from the
  index of the commitment revoked up to the index of the new tail, in log order; and the lists
  handed to the switch are these entries.\<close>

theorem forwards_exactly_once:
  assumes "reachable T n lc" and "ReceiveRevocation H point source dbOk lc msg = (lc', Inr (pkg, adds, sfs))"
  shows "pkgAdds pkg = map (\<lambda>pd. (LogIndex pd, updateMsgOf pd)) (filter isAdd (lockedIn lc)) \<and>
    pkgSettleFails pkg = map (\<lambda>pd. (LogIndex pd, updateMsgOf pd)) (filter isRmv (lockedIn lc)) \<and>
    map LogIndex adds = map fst (pkgAdds pkg) \<and> map LogIndex sfs = map fst (pkgSettleFails pkg) \<and>
    tail (remoteCommitChain lc') = tip (remoteCommitChain lc)"
proof -
  note inv = reachable_inv [OF assms(1)]
  obtain k m where "remoteCommitChain lc = [k, m]" "remoteCommitChain lc' = [m]" by (rule revocation_chain [OF inv assms(2)])
  then have "tail (remoteCommitChain lc') = tip (remoteCommitChain lc)" by (simp add: tail_def tip_def)
  then show ?thesis using forward_lists [OF inv assms(2)] by blast
qed

theorem forwards_exactly_once_witness:
  "(case snd exRun5 of Inl _ \<Rightarrow> False | Inr (pkg, adds, sfs) \<Rightarrow>
      pkgAdds pkg = map (\<lambda>pd. (LogIndex pd, updateMsgOf pd)) (filter isAdd (lockedIn (fst exRun4))) \<and>
      map LogIndex adds = map fst (pkgAdds pkg)) \<and>
   map LogIndex (lockedIn (fst exRun4)) = [0]"
proof -
  obtain pkg adds sfs where r: "projr (snd exRun5) = (pkg, adds, sfs)" by (cases "projr (snd exRun5)") auto
  have s: "exRun5 = (fst exRun5, Inr (pkg, adds, sfs))" using snd_ok [OF ex_ok(5)] r by simp
  have "map LogIndex (lockedIn (fst exRun4)) = [0]" by code_simp
  moreover have "snd exRun5 = Inr (pkg, adds, sfs)" by (subst s) simp
  moreover note forwards_exactly_once [OF ex_reachable(3) s [unfolded exRun5_def]]
  ultimately show ?thesis by simp
qed

text \<open>C9. A valid revocation is never refused. In a reachable channel, \<open>ReceiveRevocation\<close>
  succeeds exactly when the secret fits the store of revoked secrets, its point is the one the
  peer announced, a commitment awaits revocation and the database writes. In particular the
  compaction of the logs never meets the nil element it would panic on.\<close>

theorem revocation_always_accepted:
  assumes "reachable T n lc"
  shows "\<not> isl (snd (ReceiveRevocation H point source dbOk lc msg)) \<longleftrightarrow>
    \<not> isl (AddNextEntry H (chanStore (channelState lc)) (Revocation msg)) \<and>
    RemoteCurrentRevocation (channelState lc) = Some (point (Revocation msg)) \<and>
    hasUnackedCommitment (remoteCommitChain lc) \<and> dbOk"
  by (rule revocation_accepted [OF reachable_inv [OF assms]])

theorem revocation_always_accepted_witness:
  "\<not> isl (AddNextEntry exH (chanStore (channelState (fst exRun4))) exSecret) \<and>
   RemoteCurrentRevocation (channelState (fst exRun4)) = Some (exH exSecret) \<and>
   hasUnackedCommitment (remoteCommitChain (fst exRun4))"
  using revocation_always_accepted [OF ex_reachable(3), of exH exH zeroChanID True "\<lparr>Revocation = exSecret, NextRevocationKey = exSecret\<rparr>"]
    ex_ok(5) by (simp add: exRun5_def)

text \<open>C18. The commitment diff written to disk before a signature is sent holds exactly the
  updates the peer has not yet seen committed: the entries of our log from the index of the
  previous remote commitment on, in log order.\<close>

theorem commit_diff_exact:
  assumes "reachable T n lc" and "n < maxSteps" and "SignNextCommitment tenv senv dbOk lc = (lc', Inr cm)"
  shows "\<exists>d. commitDiff (bucket lc') = Some d \<and> diffCommitment d = cm \<and>
    LogUpdates d = map (\<lambda>pd. (LogIndex pd, updateMsgOf pd))
      (filter (\<lambda>pd. ourMessageIndex (tip (remoteCommitChain lc)) \<le> LogIndex pd) (descriptors (localUpdateLog lc)))"
  using SignNextCommitment_extended(6) [OF reachable_inv [OF assms(1)] assms(2,3)]
    diff_updates [OF reachable_inv [OF assms(1)] assms(2,3)]
  by (auto simp: createCommitDiff_def Let_def)

theorem commit_diff_exact_witness:
  "\<exists>d. commitDiff (bucket (fst exOut2)) = Some d \<and> map fst (LogUpdates d) = [0]"
proof -
  have e: "SignNextCommitment exTx exSign True (fst (projr exOut1)) = (fst exOut2, Inr (projr (snd exOut2)))"
    using snd_ok [OF ex_ok(7)] unfolding exOut2_def .
  have "map LogIndex (filter (\<lambda>pd. ourMessageIndex (tip (remoteCommitChain (fst (projr exOut1)))) \<le> LogIndex pd)
      (descriptors (localUpdateLog (fst (projr exOut1))))) = [0]" by code_simp
  moreover have "1 < maxSteps" by (simp add: maxSteps_def)
  ultimately show ?thesis using commit_diff_exact [OF ex_reachable(5) _ e] by (auto simp: comp_def)
qed

text \<open>C19. When \<open>IsChannelClean\<close> lets a cooperative close start, nothing is in flight: each
  chain is one commitment without HTLCs, whose balances and fee are the whole channel.\<close>

theorem clean_channel:
  assumes "reachable T n lc" and "IsChannelClean sha lc" and "cm \<in> set (localCommitChain lc @ remoteCommitChain lc)"
  shows "outgoingHTLCs cm = [] \<and> incomingHTLCs cm = [] \<and> ourBalance cm + theirBalance cm + NewMAtomsFromAtoms (fee cm) = T"
proof -
  note inv = reachable_inv [OF assms(1)]
  obtain c where c: "cm \<in> set (chainOf lc c)" using assms(3) by (metis Un_iff set_append side_simps(7,8))
  then have cm: "cm = tip (chainOf lc c)" using clean_no_htlcs(3) [OF inv assms(2), of c] by (metis empty_iff list.set(1) set_ConsD)
  have e: "outgoingHTLCs cm = []" "incomingHTLCs cm = []" unfolding cm by (rule clean_no_htlcs [OF inv assms(2)])+
  have "commitTotal cm + amounts (outgoingHTLCs cm) + amounts (incomingHTLCs cm) = T"
    using chan_invD(8) [OF inv, unfolded money_ok_def, rule_format, OF c] .
  then show ?thesis using e by (simp add: commitTotal_def algebra_simps)
qed

theorem clean_channel_witness:
  "outgoingHTLCs (exCommit True) = [] \<and>
   ourBalance (exCommit True) + theirBalance (exCommit True) + NewMAtomsFromAtoms (fee (exCommit True)) = 1000000000"
proof -
  have "IsChannelClean (\<lambda>b. b) exOpen" by code_simp
  moreover have "exCommit True \<in> set (localCommitChain exOpen @ remoteCommitChain exOpen)" by (simp add: exOpen_def)
  ultimately show ?thesis using clean_channel [OF ex_reachable(1)] by simp
qed




lemma reachable_length: "reachable T n lc \<Longrightarrow> n \<le> maxSteps"
  by (induction rule: reachable.induct) simp_all

text \<open>C17. The channel and the store of secrets fit together. The revocation that
  \<open>RevokeCurrentCommitment\<close> sends is the secret of the commitment it drops: a peer whose store
  holds the secrets of all earlier commitments accepts it, and then finds it under the height of
  that commitment, so that it could punish its broadcast.\<close>

theorem peer_accepts_revocation:
  assumes "reachable T n lc" and "chanProducer (channelState lc) = NewRevocationProducer r"
    and "RevokeCurrentCommitment H point dbOk lc = (lc', Inr msg)"
    and "length hs = unat (height (tail (localCommitChain lc)))"
    and "\<forall>k < length hs. AtIndex H (NewRevocationProducer r) (word_of_nat k) = Inr (hs ! k)"
    and "addAll (AddNextEntry H) NewRevocationStore hs = Inr st"
  shows "\<exists>st'. AddNextEntry H st (Revocation msg) = Inr st' \<and>
    LookUp H st' (height (tail (localCommitChain lc))) = Inr (Revocation msg)"
proof -
  note I = chan_invD [OF reachable_inv [OF assms(1)]]
  let ?h = "height (tail (localCommitChain lc))" and ?hs = "hs @ [Revocation msg]"
  have cur: "currentHeight lc = ?h" using chains_okD2(5) [OF I(3)] by simp
  have at: "AtIndex H (NewRevocationProducer r) ?h = Inr (Revocation msg)"
    using RevokeCurrentCommitment_success(1) [OF assms(3)]
    by (auto simp: generateRevocation_def cur assms(2) bindR_Inr_iff mapErr_Inr_iff)
  have "unat ?h \<le> maxSteps"
    using I(2) tip_in(2) [of "localCommitChain lc"] chains_okD2(1) [OF I(3), of False] reachable_length [OF assms(1)]
    unfolding bounds_ok_def by (metis le_trans side_simps(8))
  then have len: "length ?hs \<le> topIndex" using assms(4) by (simp add: maxSteps_def topIndex_def)
  have all: "AtIndex H (NewRevocationProducer r) (word_of_nat k) = Inr (?hs ! k)" if "k < length ?hs" for k
  proof (cases "k < length hs")
    case True
    then show ?thesis using assms(5) by (simp add: nth_append)
  next
    case False
    then have k: "k = unat ?h" using that assms(4) by simp
    have "word_of_nat k = ?h" unfolding k by simp
    then show ?thesis using at assms(4) k by (simp add: nth_append)
  qed
  obtain s where s: "addAll (AddNextEntry H) NewRevocationStore ?hs = Inr s" using addAll_producer [OF len all] by blast
  then have "AddNextEntry H st (Revocation msg) = Inr s" using assms(6) by (simp add: addAll_snoc)
  moreover have "LookUp H s ?h = Inr (Revocation msg)"
    using LookUp_held [OF revocation.holds_addAll_new [OF s], of ?h] assms(4) by (simp add: nth_append)
  ultimately show ?thesis by blast
qed

theorem peer_accepts_revocation_witness:
  "\<exists>st'. AddNextEntry exH NewRevocationStore (Revocation (projr (snd exRun3))) = Inr st' \<and>
     LookUp exH st' 0 = Inr (Revocation (projr (snd exRun3)))"
proof -
  have s: "RevokeCurrentCommitment exH exH True (fst exRun2) = (fst exRun3, Inr (projr (snd exRun3)))"
    using snd_ok [OF ex_ok(3)] unfolding exRun3_def .
  have p: "root (chanProducer (channelState (fst exRun2))) = root (NewRevocationProducer (replicate 32 9))" by code_simp
  then have p': "chanProducer (channelState (fst exRun2)) = NewRevocationProducer (replicate 32 9)" by simp
  have h: "height (tail (localCommitChain (fst exRun2))) = 0" by code_simp
  have r: "reachable 1000000000 2 (fst exRun2)" using run_step [OF ex_reachable(2) ex_steps(2)] by (simp add: numeral_2_eq_2)
  show ?thesis using peer_accepts_revocation [OF r p' s, of "[]" NewRevocationStore] by (simp add: h)
qed

end
