(* ===== verification/Circuit.thy ===== *)
theory Circuit
  imports UpdateLog
begin

text \<open>
  Package \<^verbatim>\<open>htlcswitch\<close>, \<^verbatim>\<open>circuit.go\<close>: payment circuits and their encoding on disk, with
  the circuit keys of \<^verbatim>\<open>channeldb/channel.go\<close> and the error encrypters of
  \<^verbatim>\<open>htlcswitch/hop/error_encryptor.go\<close>. A public key is its compressed serialization;
  \<open>validKey\<close> stands for what \<open>secp256k1.ParsePubKey\<close> accepts and \<open>extract\<close> for the onion
  processor's extracter. Writing to a \<open>bytes.Buffer\<close> does not fail.
\<close>

subsection \<open>Circuit keys\<close>

datatype circuit_error =
    ErrInvalidCircuitKeyLen
  | ErrIO io_error
  | ErrParsePubKey
  | UnknownEncrypterType u8
  | ErrReextract u16
  | ErrIncorrectExtracter

definition CircuitKeyBytes :: "CircuitKey \<Rightarrow> bytes" where
  "CircuitKeyBytes k = be_bytes 8 (unat (ToUint64 (ck_ChanID k))) @ be_bytes 8 (unat (ck_HtlcID k))"

definition SetBytes :: "bytes \<Rightarrow> circuit_error + CircuitKey" where
  "SetBytes bs =
     (if length bs \<noteq> 16 then Inl ErrInvalidCircuitKeyLen
      else Inr \<lparr>ck_ChanID = NewShortChanIDFromInt (word_of_nat (be_val (take 8 bs))),
                ck_HtlcID = word_of_nat (be_val (drop 8 bs))\<rparr>)"

definition CircuitKeyDecode :: "bytes \<Rightarrow> circuit_error + (CircuitKey \<times> bytes)" where
  "CircuitKeyDecode r =
     bindR (mapErr ErrIO (ReadFull 16 r)) (\<lambda>(scratch, r').
       Inr (\<lparr>ck_ChanID = NewShortChanIDFromInt (word_of_nat (be_val (take 8 scratch))),
             ck_HtlcID = word_of_nat (be_val (drop 8 scratch))\<rparr>, r'))"

definition AddRefEncode :: "AddRef \<Rightarrow> bytes" where
  "AddRefEncode a = be_bytes 8 (unat (ar_Height a)) @ be_bytes 2 (unat (ar_Index a))"

definition AddRefDecode :: "bytes \<Rightarrow> circuit_error + (AddRef \<times> bytes)" where
  "AddRefDecode r =
     bindR (mapErr ErrIO (ReadFull 8 r)) (\<lambda>(h, r1).
     bindR (mapErr ErrIO (ReadFull 2 r1)) (\<lambda>(i, r2).
       Inr (\<lparr>ar_Height = word_of_nat (be_val h), ar_Index = word_of_nat (be_val i)\<rparr>, r2)))"

subsection \<open>Error encrypters\<close>

text \<open>The Sphinx encrypter has its ephemeral key and, once extracted, the onion encrypter.\<close>

datatype ErrorEncrypter = SphinxErrorEncrypter bytes "bytes option" | mockObfuscator

definition EncrypterTypeNone :: u8 where "EncrypterTypeNone = 0"
definition EncrypterTypeSphinx :: u8 where "EncrypterTypeSphinx = 1"
definition EncrypterTypeMock :: u8 where "EncrypterTypeMock = 2"

fun EncrypterType :: "ErrorEncrypter \<Rightarrow> u8" where
  "EncrypterType (SphinxErrorEncrypter k s) = EncrypterTypeSphinx"
| "EncrypterType mockObfuscator = EncrypterTypeMock"

fun EncrypterEncode :: "ErrorEncrypter \<Rightarrow> bytes" where
  "EncrypterEncode (SphinxErrorEncrypter k s) = k"
| "EncrypterEncode mockObfuscator = []"

definition SphinxDecode :: "(bytes \<Rightarrow> bool) \<Rightarrow> bytes \<Rightarrow> circuit_error + (ErrorEncrypter \<times> bytes)" where
  "SphinxDecode validKey r =
     bindR (mapErr ErrIO (ReadFull 33 r)) (\<lambda>(ephemeral, r').
       if validKey ephemeral then Inr (SphinxErrorEncrypter ephemeral None, r')
       else Inl ErrParsePubKey)"

fun Reextract ::
  "(bytes \<Rightarrow> ErrorEncrypter \<times> u16) \<Rightarrow> ErrorEncrypter \<Rightarrow> circuit_error + ErrorEncrypter" where
  "Reextract extract (SphinxErrorEncrypter k s) =
     (case extract k of (obfuscator, failcode) \<Rightarrow>
        if failcode \<noteq> 0 then Inl (ErrReextract failcode)
        else (case obfuscator of
                SphinxErrorEncrypter k' s' \<Rightarrow> Inr (SphinxErrorEncrypter k s')
              | mockObfuscator \<Rightarrow> Inl ErrIncorrectExtracter))"
| "Reextract extract mockObfuscator = Inr mockObfuscator"

subsection \<open>Circuits\<close>

record PaymentCircuit =
  pc_AddRef :: AddRef
  Incoming :: CircuitKey
  Outgoing :: "CircuitKey option"
  PaymentHash :: bytes
  IncomingAmount :: u64
  OutgoingAmount :: u64
  pc_Encrypter :: "ErrorEncrypter option"
  LoadedFromDisk :: bool

definition EmptyCircuitKey :: CircuitKey where
  "EmptyCircuitKey = \<lparr>ck_ChanID = zeroChanID, ck_HtlcID = 0\<rparr>"

definition HasKeystone :: "PaymentCircuit \<Rightarrow> bool" where
  "HasKeystone c \<longleftrightarrow> Outgoing c \<noteq> None"

definition InKey :: "PaymentCircuit \<Rightarrow> CircuitKey" where
  "InKey c = Incoming c"

definition OutKey :: "PaymentCircuit \<Rightarrow> CircuitKey" where
  "OutKey c = (case Outgoing c of Some k \<Rightarrow> k | None \<Rightarrow> EmptyCircuitKey)"

text \<open>The fields of a packet a circuit is made of.\<close>

record htlcPacket =
  incomingChanID :: ShortChannelID
  incomingHTLCID :: u64
  sourceRef :: "AddRef option"
  incomingAmount :: u64
  pkt_amount :: u64
  obfuscator :: "ErrorEncrypter option"

definition makePaymentCircuit :: "bytes \<Rightarrow> htlcPacket \<Rightarrow> PaymentCircuit" where
  "makePaymentCircuit hash pkt =
     \<lparr>pc_AddRef = (case sourceRef pkt of Some r \<Rightarrow> r | None \<Rightarrow> \<lparr>ar_Height = 0, ar_Index = 0\<rparr>),
      Incoming = \<lparr>ck_ChanID = incomingChanID pkt, ck_HtlcID = incomingHTLCID pkt\<rparr>,
      Outgoing = None, PaymentHash = hash, IncomingAmount = incomingAmount pkt,
      OutgoingAmount = pkt_amount pkt, pc_Encrypter = obfuscator pkt, LoadedFromDisk = False\<rparr>"

definition CircuitEncode :: "PaymentCircuit \<Rightarrow> bytes" where
  "CircuitEncode c =
     AddRefEncode (pc_AddRef c) @ CircuitKeyBytes (Incoming c) @ PaymentHash c @
     be_bytes 8 (unat (IncomingAmount c)) @ be_bytes 8 (unat (OutgoingAmount c)) @
     (case pc_Encrypter c of
        None \<Rightarrow> [EncrypterTypeNone]
      | Some e \<Rightarrow> EncrypterType e # EncrypterEncode e)"

definition CircuitDecode :: "(bytes \<Rightarrow> bool) \<Rightarrow> bytes \<Rightarrow> circuit_error + (PaymentCircuit \<times> bytes)" where
  "CircuitDecode validKey r =
     bindR (AddRefDecode r) (\<lambda>(ref, r1).
     bindR (CircuitKeyDecode r1) (\<lambda>(inKey, r2).
     bindR (mapErr ErrIO (ReadFull 32 r2)) (\<lambda>(hash, r3).
     bindR (mapErr ErrIO (ReadFull 8 r3)) (\<lambda>(ia, r4).
     bindR (mapErr ErrIO (ReadFull 8 r4)) (\<lambda>(oa, r5).
     bindR (mapErr ErrIO (ReadFull 1 r5)) (\<lambda>(ty, r6).
       let c = \<lparr>pc_AddRef = ref, Incoming = inKey, Outgoing = None, PaymentHash = hash,
                IncomingAmount = word_of_nat (be_val ia), OutgoingAmount = word_of_nat (be_val oa),
                pc_Encrypter = None, LoadedFromDisk = False\<rparr>
       in if hd ty = EncrypterTypeNone then Inr (c, r6)
          else if hd ty = EncrypterTypeSphinx then
            bindR (SphinxDecode validKey r6) (\<lambda>(e, r7). Inr (c\<lparr>pc_Encrypter := Some e\<rparr>, r7))
          else if hd ty = EncrypterTypeMock then Inr (c\<lparr>pc_Encrypter := Some mockObfuscator\<rparr>, r6)
          else Inl (UnknownEncrypterType (hd ty))))))))"

definition decodeCircuit ::
  "(bytes \<Rightarrow> bool) \<Rightarrow> (bytes \<Rightarrow> ErrorEncrypter \<times> u16) \<Rightarrow> bytes \<Rightarrow> circuit_error + PaymentCircuit" where
  "decodeCircuit validKey extract v =
     bindR (CircuitDecode validKey v) (\<lambda>(circuit, _).
       case pc_Encrypter circuit of
         None \<Rightarrow> Inr circuit
       | Some e \<Rightarrow>
           bindR (Reextract extract e) (\<lambda>e'. Inr (circuit\<lparr>pc_Encrypter := Some e'\<rparr>)))"

subsection \<open>Round trips\<close>

definition wf_key :: "CircuitKey \<Rightarrow> bool" where
  "wf_key k \<longleftrightarrow> small_id (ck_ChanID k)"

fun wf_encrypter :: "(bytes \<Rightarrow> bool) \<Rightarrow> ErrorEncrypter \<Rightarrow> bool" where
  "wf_encrypter validKey (SphinxErrorEncrypter k s) \<longleftrightarrow> length k = 33 \<and> validKey k"
| "wf_encrypter validKey mockObfuscator \<longleftrightarrow> True"

definition wf_circuit :: "(bytes \<Rightarrow> bool) \<Rightarrow> PaymentCircuit \<Rightarrow> bool" where
  "wf_circuit validKey c \<longleftrightarrow> wf_key (Incoming c) \<and> length (PaymentHash c) = 32 \<and>
     (\<forall>e. pc_Encrypter c = Some e \<longrightarrow> wf_encrypter validKey e)"

lemma word_be_bytes [simp]:
  "word_of_nat (be_val (be_bytes 8 (unat (w :: u64)))) = w"
  "word_of_nat (be_val (be_bytes 2 (unat (v :: u16)))) = v"
  using unat_less_u64 [of w] unat_less_u16 [of v] by simp_all

lemma length_CircuitKeyBytes [simp]: "length (CircuitKeyBytes k) = 16"
  by (simp add: CircuitKeyBytes_def)

lemma SetBytes_Bytes [simp]: "wf_key k \<Longrightarrow> SetBytes (CircuitKeyBytes k) = Inr k"
  by (simp add: SetBytes_def CircuitKeyBytes_def wf_key_def)

lemma CircuitKeyBytes_inj:
  "wf_key k \<Longrightarrow> wf_key k' \<Longrightarrow> CircuitKeyBytes k = CircuitKeyBytes k' \<longleftrightarrow> k = k'"
  using SetBytes_Bytes [of k] SetBytes_Bytes [of k'] by (metis sum.inject(2))

lemma SetBytes_wf: "SetBytes b = Inr k \<Longrightarrow> wf_key k \<and> CircuitKeyBytes k = b"
  by (auto simp: SetBytes_def wf_key_def CircuitKeyBytes_def word_of_nat_be_val split: if_splits)

lemma CircuitKeyDecode_Bytes [simp]:
  "wf_key k \<Longrightarrow> CircuitKeyDecode (CircuitKeyBytes k @ r) = Inr (k, r)"
  by (simp add: CircuitKeyDecode_def) (simp add: CircuitKeyBytes_def wf_key_def)

lemma AddRefDecode_Encode [simp]: "AddRefDecode (AddRefEncode a @ r) = Inr (a, r)"
  by (simp add: AddRefDecode_def AddRefEncode_def)

text \<open>What a circuit is after it was written and read: without its keystone, which another
  bucket holds, and with its encrypter still to extract.\<close>

fun stripEncrypter :: "ErrorEncrypter \<Rightarrow> ErrorEncrypter" where
  "stripEncrypter (SphinxErrorEncrypter k s) = SphinxErrorEncrypter k None"
| "stripEncrypter mockObfuscator = mockObfuscator"

definition stored :: "PaymentCircuit \<Rightarrow> PaymentCircuit" where
  "stored c = c\<lparr>Outgoing := None, LoadedFromDisk := False,
                pc_Encrypter := map_option stripEncrypter (pc_Encrypter c)\<rparr>"

lemma CircuitDecode_Encode:
  assumes "wf_circuit validKey c"
  shows "CircuitDecode validKey (CircuitEncode c @ r) = Inr (stored c, r)"
proof (cases "pc_Encrypter c")
  case None
  then show ?thesis using assms
    by (simp add: CircuitDecode_def CircuitEncode_def wf_circuit_def stored_def EncrypterTypeNone_def)
next
  case (Some e)
  then show ?thesis using assms
    by (cases e)
      (simp_all add: CircuitDecode_def CircuitEncode_def wf_circuit_def stored_def SphinxDecode_def
        EncrypterTypeNone_def EncrypterTypeSphinx_def EncrypterTypeMock_def)
qed

end
