(* ===== verification/CircuitMap.thy ===== *)
theory CircuitMap
  imports Circuit
begin

text \<open>
  Package \<^verbatim>\<open>htlcswitch\<close>, \<^verbatim>\<open>circuit_map.go\<close>: the map of payment circuits. The pointers the Go maps share
  are numbers into a store; the database is two optional buckets; the outcome of a
  transaction's write is an argument. The mutex makes each method one step, except that
  the write of a transaction happens between two critical sections.
\<close>

subsection \<open>State\<close>

datatype cm_error =
    ErrCorruptedCircuitMap
  | ErrUnknownCircuit
  | ErrCircuitClosing
  | ErrDuplicateKeystone
  | ErrDecode circuit_error
  | ErrDatabase
  | ErrFetchChannels

type_synonym bucket = "bytes \<rightharpoonup> bytes"

text \<open>The two buckets of the database, each absent until it is created.\<close>

record circuitDisk =
  circuitAddKey :: "bucket option"
  circuitKeystoneKey :: "bucket option"

text \<open>Circuits are shared by pointer between \<open>pending\<close> and \<open>opened\<close>: a pointer is a number,
  \<open>heap\<close> what it points to, \<open>nextPtr\<close> the next one to allocate.\<close>

record circuitMap =
  heap :: "nat \<Rightarrow> PaymentCircuit"
  nextPtr :: nat
  pending :: "CircuitKey \<rightharpoonup> nat"
  opened :: "CircuitKey \<rightharpoonup> nat"
  closed :: "CircuitKey set"
  hashIndex :: "bytes \<rightharpoonup> CircuitKey set"
  disk :: circuitDisk

record Keystone =
  ks_InKey :: CircuitKey
  ks_OutKey :: CircuitKey

record CircuitFwdActions =
  Adds :: "nat list"
  Drops :: "nat list"
  Fails :: "nat list"

text \<open>A transaction: an error of its closure rolls it back, as does a failed commit.\<close>

definition dbUpdate :: "bool \<Rightarrow> (circuitDisk \<Rightarrow> cm_error + circuitDisk) \<Rightarrow> circuitDisk \<Rightarrow> circuitDisk \<times> cm_error option" where
  "dbUpdate dbOk f d =
     (case f d of
        Inl err \<Rightarrow> (d, Some err)
      | Inr d' \<Rightarrow> if dbOk then (d', None) else (d, Some ErrDatabase))"

definition onBucket :: "bucket option \<Rightarrow> (bucket \<Rightarrow> bucket) \<Rightarrow> cm_error + bucket option" where
  "onBucket b f = (case b of None \<Rightarrow> Inl ErrCorruptedCircuitMap | Some m \<Rightarrow> Inr (Some (f m)))"

definition onAdds :: "(bucket \<Rightarrow> bucket) \<Rightarrow> circuitDisk \<Rightarrow> cm_error + circuitDisk" where
  "onAdds f d = bindR (onBucket (circuitAddKey d) f) (\<lambda>b. Inr (d\<lparr>circuitAddKey := b\<rparr>))"

definition onKeystones :: "(bucket \<Rightarrow> bucket) \<Rightarrow> circuitDisk \<Rightarrow> cm_error + circuitDisk" where
  "onKeystones f d = bindR (onBucket (circuitKeystoneKey d) f) (\<lambda>b. Inr (d\<lparr>circuitKeystoneKey := b\<rparr>))"

definition newPaymentCircuit :: "bytes \<Rightarrow> htlcPacket \<Rightarrow> circuitMap \<Rightarrow> circuitMap \<times> nat" where
  "newPaymentCircuit hash pkt cm =
     (cm\<lparr>heap := (heap cm)(nextPtr cm := makePaymentCircuit hash pkt), nextPtr := nextPtr cm + 1\<rparr>,
      nextPtr cm)"

subsection \<open>The hash index\<close>

definition addCircuitToHashIndex :: "nat \<Rightarrow> circuitMap \<Rightarrow> circuitMap" where
  "addCircuitToHashIndex p cm =
     (let c = heap cm p;
          s = (case hashIndex cm (PaymentHash c) of None \<Rightarrow> {} | Some s \<Rightarrow> s)
      in cm\<lparr>hashIndex := (hashIndex cm)(PaymentHash c \<mapsto> insert (OutKey c) s)\<rparr>)"

definition removeCircuitFromHashIndex :: "nat \<Rightarrow> circuitMap \<Rightarrow> circuitMap" where
  "removeCircuitFromHashIndex p cm =
     (let c = heap cm p in
      case hashIndex cm (PaymentHash c) of
        None \<Rightarrow> cm
      | Some circuitsWithHash \<Rightarrow>
          let s = circuitsWithHash - {OutKey c}
          in cm\<lparr>hashIndex := (hashIndex cm)(PaymentHash c := if s = {} then None else Some s)\<rparr>)"

subsection \<open>Lookups\<close>

definition LookupCircuit :: "circuitMap \<Rightarrow> CircuitKey \<Rightarrow> nat option" where
  "LookupCircuit cm inKey = pending cm inKey"

definition LookupOpenCircuit :: "circuitMap \<Rightarrow> CircuitKey \<Rightarrow> nat option" where
  "LookupOpenCircuit cm outKey = opened cm outKey"

text \<open>The circuits found, in whatever order the map is iterated.\<close>

definition LookupByPaymentHash :: "circuitMap \<Rightarrow> bytes \<Rightarrow> nat set" where
  "LookupByPaymentHash cm hash =
     (case hashIndex cm hash of
        None \<Rightarrow> {}
      | Some circuitSet \<Rightarrow> Option.these (opened cm ` circuitSet))"

definition NumPending :: "circuitMap \<Rightarrow> nat" where
  "NumPending cm = card (dom (pending cm))"

definition NumOpen :: "circuitMap \<Rightarrow> nat" where
  "NumOpen cm = card (dom (opened cm))"

subsection \<open>Committing circuits\<close>

record reconciled =
  rc_pending :: "CircuitKey \<rightharpoonup> nat"
  rc_adds :: "nat list"
  rc_drops :: "nat list"
  rc_fails :: "nat list"
  rc_addFails :: "nat list"

fun reconcile :: "(nat \<Rightarrow> PaymentCircuit) \<Rightarrow> nat list \<Rightarrow> (CircuitKey \<rightharpoonup> nat) \<Rightarrow> reconciled" where
  "reconcile h [] pend =
     \<lparr>rc_pending = pend, rc_adds = [], rc_drops = [], rc_fails = [], rc_addFails = []\<rparr>"
| "reconcile h (circuit # cs) pend =
     (case pend (InKey (h circuit)) of
        Some foundCircuit \<Rightarrow>
          (let r = reconcile h cs pend in
           if HasKeystone (h foundCircuit) then r\<lparr>rc_drops := circuit # rc_drops r\<rparr>
           else if \<not> LoadedFromDisk (h foundCircuit) then r\<lparr>rc_drops := circuit # rc_drops r\<rparr>
           else r\<lparr>rc_fails := circuit # rc_fails r, rc_addFails := circuit # rc_addFails r\<rparr>)
      | None \<Rightarrow>
          (let r = reconcile h cs (pend(InKey (h circuit) \<mapsto> circuit))
           in r\<lparr>rc_adds := circuit # rc_adds r, rc_addFails := circuit # rc_addFails r\<rparr>))"

definition putCircuits :: "(nat \<Rightarrow> PaymentCircuit) \<Rightarrow> nat list \<Rightarrow> bucket \<Rightarrow> bucket" where
  "putCircuits h adds b =
     fold (\<lambda>p b. b(CircuitKeyBytes (InKey (h p)) \<mapsto> CircuitEncode (h p))) adds b"

definition CommitCircuits ::
  "bool \<Rightarrow> nat list \<Rightarrow> circuitMap \<Rightarrow> circuitMap \<times> CircuitFwdActions \<times> cm_error option" where
  "CommitCircuits dbOk circuits cm =
     (if circuits = [] then (cm, \<lparr>Adds = [], Drops = [], Fails = []\<rparr>, None)
      else
        let r = reconcile (heap cm) circuits (pending cm);
            cm1 = cm\<lparr>pending := rc_pending r\<rparr>
        in if rc_adds r = [] then (cm1, \<lparr>Adds = [], Drops = rc_drops r, Fails = rc_fails r\<rparr>, None)
           else
             case dbUpdate dbOk (onAdds (putCircuits (heap cm) (rc_adds r))) (disk cm) of
               (d, None) \<Rightarrow>
                 (cm1\<lparr>disk := d\<rparr>, \<lparr>Adds = rc_adds r, Drops = rc_drops r, Fails = rc_fails r\<rparr>, None)
             | (d, Some err) \<Rightarrow>
                 (cm1\<lparr>disk := d,
                      pending := fold (\<lambda>p m. m(InKey (heap cm p) := None)) (rc_adds r) (pending cm1)\<rparr>,
                  \<lparr>Adds = [], Drops = rc_drops r, Fails = rc_addFails r\<rparr>, Some err))"

subsection \<open>Opening circuits\<close>

fun findKeystones :: "circuitMap \<Rightarrow> Keystone list \<Rightarrow> cm_error + nat list" where
  "findKeystones cm [] = Inr []"
| "findKeystones cm (ks # kss) =
     (if opened cm (ks_OutKey ks) \<noteq> None then Inl ErrDuplicateKeystone
      else case pending cm (ks_InKey ks) of
             None \<Rightarrow> Inl ErrUnknownCircuit
           | Some circuit \<Rightarrow> bindR (findKeystones cm kss) (\<lambda>ps. Inr (circuit # ps)))"

definition putKeystones :: "Keystone list \<Rightarrow> bucket \<Rightarrow> bucket" where
  "putKeystones kss b =
     fold (\<lambda>ks b. b(CircuitKeyBytes (ks_OutKey ks) \<mapsto> CircuitKeyBytes (ks_InKey ks))) kss b"

definition openCircuit :: "nat \<times> Keystone \<Rightarrow> circuitMap \<Rightarrow> circuitMap" where
  "openCircuit x cm =
     (case x of (p, ks) \<Rightarrow>
        addCircuitToHashIndex p
          (cm\<lparr>heap := (heap cm)(p := (heap cm p)\<lparr>Outgoing := Some (ks_OutKey ks)\<rparr>),
              opened := (opened cm)(ks_OutKey ks \<mapsto> p)\<rparr>))"

definition OpenCircuits :: "bool \<Rightarrow> Keystone list \<Rightarrow> circuitMap \<Rightarrow> circuitMap \<times> cm_error option" where
  "OpenCircuits dbOk keystones cm =
     (if keystones = [] then (cm, None)
      else case findKeystones cm keystones of
             Inl err \<Rightarrow> (cm, Some err)
           | Inr openedCircuits \<Rightarrow>
               (case dbUpdate dbOk (onKeystones (putKeystones keystones)) (disk cm) of
                  (d, Some err) \<Rightarrow> (cm\<lparr>disk := d\<rparr>, Some err)
                | (d, None) \<Rightarrow> (fold openCircuit (zip openedCircuits keystones) (cm\<lparr>disk := d\<rparr>), None)))"

subsection \<open>Closing circuits\<close>

definition FailCircuit :: "CircuitKey \<Rightarrow> circuitMap \<Rightarrow> circuitMap \<times> (cm_error + nat)" where
  "FailCircuit inKey cm =
     (case pending cm inKey of
        None \<Rightarrow> (cm, Inl ErrUnknownCircuit)
      | Some circuit \<Rightarrow>
          if inKey \<in> closed cm then (cm, Inl ErrCircuitClosing)
          else (cm\<lparr>closed := insert inKey (closed cm)\<rparr>, Inr circuit))"

definition CloseCircuit :: "CircuitKey \<Rightarrow> circuitMap \<Rightarrow> circuitMap \<times> (cm_error + nat)" where
  "CloseCircuit outKey cm =
     (case opened cm outKey of
        None \<Rightarrow> (cm, Inl ErrUnknownCircuit)
      | Some circuit \<Rightarrow>
          if Incoming (heap cm circuit) \<in> closed cm then (cm, Inl ErrCircuitClosing)
          else (cm\<lparr>closed := insert (Incoming (heap cm circuit)) (closed cm)\<rparr>, Inr circuit))"

subsection \<open>Deleting circuits\<close>

text \<open>Removal from memory; the circuits removed with their keys, and the keys marked closed.\<close>

fun removeFromMemory ::
  "CircuitKey list \<Rightarrow> circuitMap \<Rightarrow> circuitMap \<times> (CircuitKey \<times> nat) list \<times> CircuitKey set" where
  "removeFromMemory [] cm = (cm, [], {})"
| "removeFromMemory (inKey # inKeys) cm =
     (case pending cm inKey of
        None \<Rightarrow> removeFromMemory inKeys cm
      | Some circuit \<Rightarrow>
          (let cm1 = cm\<lparr>pending := (pending cm)(inKey := None), closed := closed cm - {inKey}\<rparr>;
               cm2 = (if HasKeystone (heap cm circuit)
                      then removeCircuitFromHashIndex circuit
                             (cm1\<lparr>opened := (opened cm1)(OutKey (heap cm circuit) := None)\<rparr>)
                      else cm1);
               (cm3, removed, closing) = removeFromMemory inKeys cm2
           in (cm3, (inKey, circuit) # removed,
               if inKey \<in> closed cm then insert inKey closing else closing)))"

fun deleteFromDisk :: "PaymentCircuit list \<Rightarrow> circuitDisk \<Rightarrow> cm_error + circuitDisk" where
  "deleteFromDisk [] d = Inr d"
| "deleteFromDisk (c # cs) d =
     bindR (if HasKeystone c then onKeystones (\<lambda>b. b(CircuitKeyBytes (OutKey c) := None)) d else Inr d) (\<lambda>d1.
     bindR (onAdds (\<lambda>b. b(CircuitKeyBytes (InKey c) := None)) d1) (\<lambda>d2.
       deleteFromDisk cs d2))"

definition restoreCircuit :: "CircuitKey set \<Rightarrow> CircuitKey \<times> nat \<Rightarrow> circuitMap \<Rightarrow> circuitMap" where
  "restoreCircuit closing x cm =
     (case x of (inKey, circuit) \<Rightarrow>
        let cm1 = cm\<lparr>pending := (pending cm)(inKey \<mapsto> circuit),
                     closed := if inKey \<in> closing then insert inKey (closed cm) else closed cm\<rparr>
        in if HasKeystone (heap cm circuit)
           then addCircuitToHashIndex circuit
                  (cm1\<lparr>opened := (opened cm1)(OutKey (heap cm circuit) \<mapsto> circuit)\<rparr>)
           else cm1)"

definition DeleteCircuits :: "bool \<Rightarrow> CircuitKey list \<Rightarrow> circuitMap \<Rightarrow> circuitMap \<times> cm_error option" where
  "DeleteCircuits dbOk inKeys cm =
     (case removeFromMemory inKeys cm of (cm1, removedCircuits, closingCircuits) \<Rightarrow>
        case dbUpdate dbOk (deleteFromDisk (map (\<lambda>x. heap cm1 (snd x)) removedCircuits)) (disk cm1) of
          (d, None) \<Rightarrow> (cm1\<lparr>disk := d\<rparr>, None)
        | (d, Some err) \<Rightarrow>
            (fold (restoreCircuit closingCircuits) removedCircuits (cm1\<lparr>disk := d\<rparr>), Some err))"

subsection \<open>Trimming keystones\<close>

function trimLoop :: "ShortChannelID \<Rightarrow> u64 \<Rightarrow> circuitMap \<Rightarrow> circuitMap \<times> CircuitKey list" where
  "trimLoop chanID i cm =
     (let outKey = \<lparr>ck_ChanID = chanID, ck_HtlcID = i\<rparr> in
      case opened cm outKey of
        None \<Rightarrow> (cm, [])
      | Some circuit \<Rightarrow>
          (let cm1 = cm\<lparr>heap := (heap cm)(circuit := (heap cm circuit)\<lparr>Outgoing := None\<rparr>),
                        opened := (opened cm)(outKey := None)\<rparr>;
               (cm2, keys) = trimLoop chanID (i + 1) (removeCircuitFromHashIndex circuit cm1)
           in (cm2, outKey # keys)))"
  by auto

lemma removeCircuitFromHashIndex_fields [simp]:
  "opened (removeCircuitFromHashIndex p cm) = opened cm" "pending (removeCircuitFromHashIndex p cm) = pending cm"
  "heap (removeCircuitFromHashIndex p cm) = heap cm" "closed (removeCircuitFromHashIndex p cm) = closed cm"
  "disk (removeCircuitFromHashIndex p cm) = disk cm" "nextPtr (removeCircuitFromHashIndex p cm) = nextPtr cm"
  by (simp_all add: removeCircuitFromHashIndex_def Let_def split: option.split)

lemma trim_decreases:
  assumes "opened cm \<lparr>ck_ChanID = chanID, ck_HtlcID = i\<rparr> = Some p"
  shows "card {j. ((opened cm)(\<lparr>ck_ChanID = chanID, ck_HtlcID = i\<rparr> := None)) \<lparr>ck_ChanID = chanID, ck_HtlcID = j\<rparr> \<noteq> None} <
    card {j :: u64. opened cm \<lparr>ck_ChanID = chanID, ck_HtlcID = j\<rparr> \<noteq> None}" (is "card ?B < card ?A")
proof -
  have "i \<in> ?A" using assms by simp
  moreover have "finite ?A" by simp
  ultimately have "card (?A - {i}) < card ?A" by (metis card_Diff1_less)
  moreover have "?B = ?A - {i}" by auto
  ultimately show ?thesis by simp
qed

termination trimLoop
  by (relation "measure (\<lambda>(chanID, i, cm). card {j. opened cm \<lparr>ck_ChanID = chanID, ck_HtlcID = j\<rparr> \<noteq> None})")
    (simp_all add: trim_decreases del: fun_upd_apply not_None_eq)

definition TrimOpenCircuits ::
  "bool \<Rightarrow> ShortChannelID \<Rightarrow> u64 \<Rightarrow> circuitMap \<Rightarrow> circuitMap \<times> cm_error option" where
  "TrimOpenCircuits dbOk chanID start cm =
     (case trimLoop chanID start cm of (cm1, trimmedOutKeys) \<Rightarrow>
        if trimmedOutKeys = [] then (cm1, None)
        else case dbUpdate dbOk
                    (onKeystones (\<lambda>b. fold (\<lambda>k b. b(CircuitKeyBytes k := None)) trimmedOutKeys b)) (disk cm1) of
               (d, err) \<Rightarrow> (cm1\<lparr>disk := d\<rparr>, err))"

subsection \<open>Starting up\<close>

record ChannelCloseSummary =
  cs_ShortChanID :: ShortChannelID
  cs_IsPending :: bool

text \<open>What trimming reads of an open channel; \<open>NextLocalHtlcIndex\<close> may fail.\<close>

record ActiveChannel =
  ac_IsPending :: bool
  ac_ShortChanID :: ShortChannelID
  ac_NextLocalHtlcIndex :: "u64 option"

text \<open>What a start gets from outside: the channels of the channel database, the outcome of
  each transaction, and the order in which the database iterates the keys of each bucket.\<close>

record cmEnv =
  FetchClosedChannels :: "ChannelCloseSummary list option"
  FetchAllOpenChannels :: "ActiveChannel list option"
  validKey :: "bytes \<Rightarrow> bool"
  ExtractErrorEncrypter :: "bytes \<Rightarrow> ErrorEncrypter \<times> u16"
  initOk :: bool
  cleanOk :: bool
  restoreOk :: bool
  trimOk :: bool
  addOrder :: "bucket \<Rightarrow> bytes list"
  keystoneOrder :: "bucket \<Rightarrow> bytes list"

definition initBuckets :: "cmEnv \<Rightarrow> circuitDisk \<Rightarrow> circuitDisk \<times> cm_error option" where
  "initBuckets env d =
     dbUpdate (initOk env)
       (\<lambda>d. Inr \<lparr>circuitAddKey = Some (case circuitAddKey d of None \<Rightarrow> Map.empty | Some b \<Rightarrow> b),
                 circuitKeystoneKey = Some (case circuitKeystoneKey d of None \<Rightarrow> Map.empty | Some b \<Rightarrow> b)\<rparr>) d"

definition bucketEntries :: "bytes list \<Rightarrow> bucket \<Rightarrow> (bytes \<times> bytes) list" where
  "bucketEntries ord b = concat (map (\<lambda>k. case b k of None \<Rightarrow> [] | Some v \<Rightarrow> [(k, v)]) ord)"

definition isClosedChannel :: "ShortChannelID set \<Rightarrow> ShortChannelID \<Rightarrow> bool" where
  "isClosedChannel closedChanIDSet chanID \<longleftrightarrow> ToUint64 chanID \<noteq> 0 \<and> chanID \<in> closedChanIDSet"

fun closedCircuits :: "cmEnv \<Rightarrow> ShortChannelID set \<Rightarrow> (bytes \<times> bytes) list \<Rightarrow> cm_error + CircuitKey list" where
  "closedCircuits env closedIDs [] = Inr []"
| "closedCircuits env closedIDs ((k, v) # es) =
     bindR (mapErr ErrDecode (decodeCircuit (validKey env) (ExtractErrorEncrypter env) v)) (\<lambda>circuit.
     bindR (closedCircuits env closedIDs es) (\<lambda>keys.
       Inr (if isClosedChannel closedIDs (ck_ChanID (Incoming circuit)) then Incoming circuit # keys else keys)))"

fun closedKeystones ::
  "ShortChannelID set \<Rightarrow> (bytes \<times> bytes) list \<Rightarrow> cm_error + (CircuitKey list \<times> CircuitKey list)" where
  "closedKeystones closedIDs [] = Inr ([], [])"
| "closedKeystones closedIDs ((k, v) # es) =
     bindR (mapErr ErrDecode (SetBytes v)) (\<lambda>inKey.
     bindR (mapErr ErrDecode (SetBytes k)) (\<lambda>outKey.
     bindR (closedKeystones closedIDs es) (\<lambda>(inKeys, outKeys).
       Inr (if isClosedChannel closedIDs (ck_ChanID inKey) then (inKey # inKeys, outKey # outKeys)
            else if isClosedChannel closedIDs (ck_ChanID outKey) then (inKey # inKeys, outKey # outKeys)
            else (inKeys, outKeys)))))"

definition deleteKeys :: "CircuitKey list \<Rightarrow> bucket \<Rightarrow> bucket" where
  "deleteKeys keys b = fold (\<lambda>k b. b(CircuitKeyBytes k := None)) keys b"

definition cleanClosedChannels :: "cmEnv \<Rightarrow> circuitDisk \<Rightarrow> circuitDisk \<times> cm_error option" where
  "cleanClosedChannels env d =
     (case FetchClosedChannels env of
        None \<Rightarrow> (d, Some ErrFetchChannels)
      | Some closedChannels \<Rightarrow>
          let closedIDs = cs_ShortChanID ` set (filter (\<lambda>c. \<not> cs_IsPending c) closedChannels) in
          if closedIDs = {} then (d, None)
          else case (circuitAddKey d, circuitKeystoneKey d) of
                 (Some adds, Some keystones) \<Rightarrow>
                   (case bindR (closedCircuits env closedIDs (bucketEntries (addOrder env adds) adds)) (\<lambda>inKeys1.
                         bindR (closedKeystones closedIDs (bucketEntries (keystoneOrder env keystones) keystones)) (\<lambda>(inKeys2, outKeys).
                           Inr (inKeys1 @ inKeys2, outKeys))) of
                      Inl err \<Rightarrow> (d, Some err)
                    | Inr (inKeys, outKeys) \<Rightarrow>
                        dbUpdate (cleanOk env)
                          (\<lambda>d. bindR (onAdds (deleteKeys inKeys) d) (onKeystones (deleteKeys outKeys))) d)
               | _ \<Rightarrow> (d, Some ErrCorruptedCircuitMap))"

text \<open>The circuits of the first bucket, allocated in the order they are read.\<close>

fun loadCircuits :: "cmEnv \<Rightarrow> (bytes \<times> bytes) list \<Rightarrow> circuitMap \<Rightarrow> cm_error + circuitMap" where
  "loadCircuits env [] cm = Inr cm"
| "loadCircuits env ((k, v) # es) cm =
     bindR (mapErr ErrDecode (decodeCircuit (validKey env) (ExtractErrorEncrypter env) v)) (\<lambda>circuit.
       loadCircuits env es
         (cm\<lparr>heap := (heap cm)(nextPtr cm := circuit\<lparr>LoadedFromDisk := True\<rparr>), nextPtr := nextPtr cm + 1,
             pending := (pending cm)(Incoming circuit \<mapsto> nextPtr cm)\<rparr>))"

fun loadKeystones :: "(bytes \<times> bytes) list \<Rightarrow> circuitMap \<Rightarrow> cm_error + (circuitMap \<times> Keystone list)" where
  "loadKeystones [] cm = Inr (cm, [])"
| "loadKeystones ((k, v) # es) cm =
     bindR (mapErr ErrDecode (SetBytes v)) (\<lambda>inKey.
     bindR (mapErr ErrDecode (SetBytes k)) (\<lambda>outKey.
       case pending cm inKey of
         Some circuit \<Rightarrow>
           loadKeystones es
             (cm\<lparr>heap := (heap cm)(circuit := (heap cm circuit)\<lparr>Outgoing := Some outKey\<rparr>),
                 opened := (opened cm)(outKey \<mapsto> circuit)\<rparr>)
       | None \<Rightarrow>
           bindR (loadKeystones es cm) (\<lambda>(cm', strays).
             Inr (cm', \<lparr>ks_InKey = inKey, ks_OutKey = outKey\<rparr> # strays))))"

definition emptyCircuit :: PaymentCircuit where
  "emptyCircuit = makePaymentCircuit (replicate 32 0)
     \<lparr>incomingChanID = zeroChanID, incomingHTLCID = 0, sourceRef = None, incomingAmount = 0,
      pkt_amount = 0, obfuscator = None\<rparr>"

definition blankMap :: "circuitDisk \<Rightarrow> circuitMap" where
  "blankMap d = \<lparr>heap = (\<lambda>_. emptyCircuit), nextPtr = 0, pending = Map.empty, opened = Map.empty, closed = {},
     hashIndex = Map.empty, disk = d\<rparr>"

text \<open>The hash index is built by iterating \<open>opened\<close>; the order does not matter, and the one
  taken is that of the keystones.\<close>

definition indexEntry :: "bytes \<times> bytes \<Rightarrow> circuitMap \<Rightarrow> circuitMap" where
  "indexEntry x cm = (case x of (k, v) \<Rightarrow> case SetBytes k of
     Inr outKey \<Rightarrow> (case opened cm outKey of Some p \<Rightarrow> addCircuitToHashIndex p cm | None \<Rightarrow> cm)
   | Inl _ \<Rightarrow> cm)"

definition restoreMemState :: "cmEnv \<Rightarrow> circuitDisk \<Rightarrow> circuitDisk \<times> (cm_error + circuitMap)" where
  "restoreMemState env d =
     (case (circuitAddKey d, circuitKeystoneKey d) of
        (Some adds, Some keystones) \<Rightarrow>
          (let es = bucketEntries (keystoneOrder env keystones) keystones in
           case bindR (loadCircuits env (bucketEntries (addOrder env adds) adds) (blankMap d)) (loadKeystones es) of
             Inl err \<Rightarrow> (d, Inl err)
           | Inr (cm, strays) \<Rightarrow>
               (case dbUpdate (restoreOk env)
                       (onKeystones (deleteKeys (map ks_OutKey (filter (\<lambda>ks. ck_ChanID (ks_OutKey ks) = zeroChanID) strays)))) d of
                  (d', Some err) \<Rightarrow> (d', Inl err)
                | (d', None) \<Rightarrow>
                    (d', Inr (fold indexEntry es (cm\<lparr>disk := d'\<rparr>)))))
      | _ \<Rightarrow> (d, Inl ErrCorruptedCircuitMap))"

fun trimChannels :: "cmEnv \<Rightarrow> ActiveChannel list \<Rightarrow> circuitMap \<Rightarrow> circuitMap \<times> cm_error option" where
  "trimChannels env [] cm = (cm, None)"
| "trimChannels env (c # cs) cm =
     (if ac_IsPending c then trimChannels env cs cm
      else if ac_ShortChanID c = zeroChanID then trimChannels env cs cm
      else case ac_NextLocalHtlcIndex c of
             None \<Rightarrow> (cm, Some ErrFetchChannels)
           | Some start \<Rightarrow>
               (case TrimOpenCircuits (trimOk env) (ac_ShortChanID c) start cm of
                  (cm', Some err) \<Rightarrow> (cm', Some err)
                | (cm', None) \<Rightarrow> trimChannels env cs cm'))"

definition trimAllOpenCircuits :: "cmEnv \<Rightarrow> circuitMap \<Rightarrow> circuitMap \<times> cm_error option" where
  "trimAllOpenCircuits env cm =
     (case FetchAllOpenChannels env of
        None \<Rightarrow> (cm, Some ErrFetchChannels)
      | Some activeChannels \<Rightarrow> trimChannels env activeChannels cm)"

definition NewCircuitMap :: "cmEnv \<Rightarrow> circuitDisk \<Rightarrow> circuitDisk \<times> (cm_error + circuitMap)" where
  "NewCircuitMap env d =
     (case initBuckets env d of
        (d1, Some err) \<Rightarrow> (d1, Inl err)
      | (d1, None) \<Rightarrow>
          (case cleanClosedChannels env d1 of
             (d2, Some err) \<Rightarrow> (d2, Inl err)
           | (d2, None) \<Rightarrow>
               (case restoreMemState env d2 of
                  (d3, Inl err) \<Rightarrow> (d3, Inl err)
                | (d3, Inr cm) \<Rightarrow>
                    (case trimAllOpenCircuits env cm of
                       (cm', Some err) \<Rightarrow> (disk cm', Inl err)
                     | (cm', None) \<Rightarrow> (disk cm', Inr cm')))))"

end
