(* ===== verification/CircuitMapInv.thy ===== *)
theory CircuitMapInv
  imports CircuitMap
begin

text \<open>
  Correctness of the circuit map: the relation between its maps, its hash index and its two
  buckets on disk, which every method keeps, and what each method does to the abstract map
  of circuits the state stands for.
\<close>

subsection \<open>The invariant\<close>

text \<open>What the map stands for: the circuits by incoming key, each as its encoding and its
  keystone.\<close>

type_synonym circuits = "CircuitKey \<rightharpoonup> (bytes \<times> CircuitKey option)"

definition circuitsOf :: "circuitMap \<Rightarrow> circuits" where
  "circuitsOf cm = (\<lambda>k. map_option (\<lambda>p. (CircuitEncode (heap cm p), Outgoing (heap cm p))) (pending cm k))"

definition hset :: "circuitMap \<Rightarrow> bytes \<Rightarrow> CircuitKey set" where
  "hset cm h = (case hashIndex cm h of None \<Rightarrow> {} | Some s \<Rightarrow> s)"

text \<open>A keystone never has the zero channel id.\<close>

definition wf_out :: "CircuitKey \<Rightarrow> bool" where
  "wf_out k \<longleftrightarrow> wf_key k \<and> ck_ChanID k \<noteq> zeroChanID"

lemma wf_outD [dest]: "wf_out k \<Longrightarrow> wf_key k"
  by (simp add: wf_out_def)

definition mem_inv :: "(bytes \<Rightarrow> bool) \<Rightarrow> circuitMap \<Rightarrow> bool" where
  "mem_inv vk cm \<longleftrightarrow>
     (\<forall>k p. pending cm k = Some p \<longrightarrow> Incoming (heap cm p) = k \<and> wf_circuit vk (heap cm p) \<and> p < nextPtr cm) \<and>
     (\<forall>out p. opened cm out = Some p \<longleftrightarrow> (\<exists>k. pending cm k = Some p \<and> Outgoing (heap cm p) = Some out)) \<and>
     (\<forall>out p. opened cm out = Some p \<longrightarrow> wf_out out) \<and>
     closed cm \<subseteq> dom (pending cm)"

definition index_inv :: "circuitMap \<Rightarrow> bool" where
  "index_inv cm \<longleftrightarrow> (\<forall>h. hashIndex cm h \<noteq> Some {}) \<and>
     (\<forall>out p. opened cm out = Some p \<longrightarrow> out \<in> hset cm (PaymentHash (heap cm p)))"

text \<open>What the disk stands for.\<close>

definition addsRep :: "bucket \<Rightarrow> circuits \<Rightarrow> bool" where
  "addsRep A m \<longleftrightarrow> (\<forall>b v. A b = Some v \<longleftrightarrow> (\<exists>k ks. m k = Some (v, ks) \<and> b = CircuitKeyBytes k))"

definition keystonesRep :: "bucket \<Rightarrow> circuits \<Rightarrow> bool" where
  "keystonesRep K m \<longleftrightarrow>
     (\<forall>b v. K b = Some v \<longleftrightarrow> (\<exists>k e out. m k = Some (e, Some out) \<and> b = CircuitKeyBytes out \<and> v = CircuitKeyBytes k))"

definition denotes :: "circuitDisk \<Rightarrow> circuits \<Rightarrow> bool" where
  "denotes d m \<longleftrightarrow> (\<exists>A K. d = \<lparr>circuitAddKey = Some A, circuitKeystoneKey = Some K\<rparr> \<and> addsRep A m \<and> keystonesRep K m)"

definition wf_circuits :: "(bytes \<Rightarrow> bool) \<Rightarrow> circuits \<Rightarrow> bool" where
  "wf_circuits vk m \<longleftrightarrow>
     (\<forall>k e ks. m k = Some (e, ks) \<longrightarrow> (\<exists>c. wf_circuit vk c \<and> Incoming c = k \<and> e = CircuitEncode c) \<and>
        (\<forall>out. ks = Some out \<longrightarrow> wf_out out)) \<and>
     (\<forall>k k' e e' out. m k = Some (e, Some out) \<longrightarrow> m k' = Some (e', Some out) \<longrightarrow> k = k')"

definition cm_inv :: "(bytes \<Rightarrow> bool) \<Rightarrow> circuitMap \<Rightarrow> bool" where
  "cm_inv vk cm \<longleftrightarrow> mem_inv vk cm \<and> index_inv cm \<and> denotes (disk cm) (circuitsOf cm)"

lemma disk_upd [simp]:
  "mem_inv vk (cm\<lparr>disk := d\<rparr>) = mem_inv vk cm" "index_inv (cm\<lparr>disk := d\<rparr>) = index_inv cm"
  "circuitsOf (cm\<lparr>disk := d\<rparr>) = circuitsOf cm" "hset (cm\<lparr>disk := d\<rparr>) = hset cm"
  by (simp_all add: mem_inv_def index_inv_def circuitsOf_def hset_def fun_eq_iff)

lemma mem_invD:
  assumes "mem_inv vk cm"
  shows "pending cm k = Some p \<Longrightarrow> Incoming (heap cm p) = k" "pending cm k = Some p \<Longrightarrow> wf_circuit vk (heap cm p)"
    "pending cm k = Some p \<Longrightarrow> p < nextPtr cm" "pending cm k = Some p \<Longrightarrow> wf_key k"
    "opened cm out = Some p \<longleftrightarrow> pending cm (Incoming (heap cm p)) = Some p \<and> Outgoing (heap cm p) = Some out"
    "opened cm out = Some p \<Longrightarrow> wf_out out" "closed cm \<subseteq> dom (pending cm)"
proof -
  show 1: "pending cm k = Some p \<Longrightarrow> Incoming (heap cm p) = k" for k using assms unfolding mem_inv_def by blast
  show 2: "pending cm k = Some p \<Longrightarrow> wf_circuit vk (heap cm p)" "pending cm k = Some p \<Longrightarrow> p < nextPtr cm"
    using assms unfolding mem_inv_def by blast+
  show "pending cm k = Some p \<Longrightarrow> wf_key k" using 1 2 by (auto simp: wf_circuit_def)
  show "opened cm out = Some p \<longleftrightarrow> pending cm (Incoming (heap cm p)) = Some p \<and> Outgoing (heap cm p) = Some out"
    using assms 1 unfolding mem_inv_def by metis
  show "opened cm out = Some p \<Longrightarrow> wf_out out" "closed cm \<subseteq> dom (pending cm)"
    using assms unfolding mem_inv_def by blast+
qed

lemma pending_inj:
  assumes "mem_inv vk cm" and "pending cm k = Some p" and "pending cm k' = Some p"
  shows "k = k'"
  using mem_invD(1) [OF assms(1,2)] mem_invD(1) [OF assms(1,3)] by simp

lemma circuitsOf_Some:
  "circuitsOf cm k = Some (e, ks) \<longleftrightarrow>
     (\<exists>p. pending cm k = Some p \<and> e = CircuitEncode (heap cm p) \<and> ks = Outgoing (heap cm p))"
  by (auto simp: circuitsOf_def)

lemma circuitsOf_None: "circuitsOf cm k = None \<longleftrightarrow> pending cm k = None"
  by (simp add: circuitsOf_def)

lemma wf_circuitsOf:
  assumes "mem_inv vk cm"
  shows "wf_circuits vk (circuitsOf cm)"
proof -
  have op: "opened cm out = Some p" if "pending cm k = Some p" "Outgoing (heap cm p) = Some out" for k p out
    using mem_invD(1,5) [OF assms] that by metis
  show ?thesis unfolding wf_circuits_def circuitsOf_Some
  proof (intro conjI allI impI)
    fix k e ks assume "\<exists>p. pending cm k = Some p \<and> e = CircuitEncode (heap cm p) \<and> ks = Outgoing (heap cm p)"
    then obtain p where p: "pending cm k = Some p" "e = CircuitEncode (heap cm p)" "ks = Outgoing (heap cm p)" by blast
    then show "\<exists>c. wf_circuit vk c \<and> Incoming c = k \<and> e = CircuitEncode c" using mem_invD(1,2) [OF assms] by blast
    show "wf_out out" if "ks = Some out" for out using op p that mem_invD(6) [OF assms] by metis
  next
    fix k k' e e' out
    assume "\<exists>p. pending cm k = Some p \<and> e = CircuitEncode (heap cm p) \<and> Some out = Outgoing (heap cm p)"
      "\<exists>p. pending cm k' = Some p \<and> e' = CircuitEncode (heap cm p) \<and> Some out = Outgoing (heap cm p)"
    then obtain p p' where p: "pending cm k = Some p" "pending cm k' = Some p'" "Outgoing (heap cm p) = Some out"
      "Outgoing (heap cm p') = Some out" by metis
    then have "p = p'" using op [OF p(1,3)] op [OF p(2,4)] by simp
    then show "k = k'" using p pending_inj [OF assms] by blast
  qed
qed

lemma CircuitEncode_upd [simp]:
  "CircuitEncode (c\<lparr>Outgoing := x\<rparr>) = CircuitEncode c" "CircuitEncode (c\<lparr>LoadedFromDisk := b\<rparr>) = CircuitEncode c"
  by (simp_all add: CircuitEncode_def)

lemma wf_circuit_upd [simp]:
  "wf_circuit vk (c\<lparr>Outgoing := x\<rparr>) = wf_circuit vk c" "wf_circuit vk (c\<lparr>LoadedFromDisk := b\<rparr>) = wf_circuit vk c"
  by (simp_all add: wf_circuit_def)

subsection \<open>Allocation and commitment\<close>

lemma newPaymentCircuit_inv:
  assumes "cm_inv vk cm" and "newPaymentCircuit hash pkt cm = (cm', p)"
  shows "cm_inv vk cm'" and "circuitsOf cm' = circuitsOf cm" and "heap cm' p = makePaymentCircuit hash pkt"
    "p = nextPtr cm" "nextPtr cm' = nextPtr cm + 1" "pending cm' = pending cm" "\<And>q. q \<noteq> p \<Longrightarrow> heap cm' q = heap cm q"
proof -
  have inv: "mem_inv vk cm" "index_inv cm" "denotes (disk cm) (circuitsOf cm)" using assms(1) by (simp_all add: cm_inv_def)
  have e: "cm' = cm\<lparr>heap := (heap cm)(nextPtr cm := makePaymentCircuit hash pkt), nextPtr := nextPtr cm + 1\<rparr>" "p = nextPtr cm"
    using assms(2) by (auto simp: newPaymentCircuit_def)
  have ne: "q \<noteq> nextPtr cm" if "pending cm k = Some q" for k q using mem_invD(3) [OF inv(1) that] by simp
  have ne': "q \<noteq> nextPtr cm" if "opened cm out = Some q" for out q
    using mem_invD(5) [OF inv(1)] that ne by metis
  show c: "circuitsOf cm' = circuitsOf cm" unfolding circuitsOf_def e(1)
    by (rule ext) (auto simp: option.map_comp dest: ne intro!: map_option_cong)
  have "mem_inv vk cm'" using inv(1) ne unfolding mem_inv_def e(1) by (auto simp: less_SucI)
  moreover have "index_inv cm'" using inv(2) ne' unfolding index_inv_def e(1) hset_def by auto
  ultimately show "cm_inv vk cm'" using inv(3) c by (simp add: cm_inv_def e(1))
qed (use assms(2) in \<open>auto simp: newPaymentCircuit_def\<close>)

text \<open>The circuits a list of pointers adds to a map.\<close>

definition addCircuits :: "(CircuitKey \<times> bytes) list \<Rightarrow> circuits \<Rightarrow> circuits" where
  "addCircuits cs m = fold (\<lambda>(k, e) m. if m k = None then m(k \<mapsto> (e, None)) else m) cs m"

definition enc :: "(nat \<Rightarrow> PaymentCircuit) \<Rightarrow> (CircuitKey \<rightharpoonup> nat) \<Rightarrow> circuits" where
  "enc h pend = (\<lambda>k. map_option (\<lambda>p. (CircuitEncode (h p), Outgoing (h p))) (pend k))"

lemma enc_upd: "enc h (pend(k \<mapsto> p)) = (enc h pend)(k \<mapsto> (CircuitEncode (h p), Outgoing (h p)))"
  by (auto simp: enc_def)

lemma enc_None [simp]: "enc h pend k = None \<longleftrightarrow> pend k = None"
  by (simp add: enc_def)

lemma reconcile_found:
  assumes "pend (Incoming (h c)) = Some q"
  shows "rc_pending (reconcile h (c # cs) pend) = rc_pending (reconcile h cs pend)"
    "rc_adds (reconcile h (c # cs) pend) = rc_adds (reconcile h cs pend)"
  using assms by (simp_all add: InKey_def Let_def)

lemma reconcile_new:
  assumes "pend (Incoming (h c)) = None"
  shows "rc_pending (reconcile h (c # cs) pend) = rc_pending (reconcile h cs (pend(Incoming (h c) \<mapsto> c)))"
    "rc_adds (reconcile h (c # cs) pend) = c # rc_adds (reconcile h cs (pend(Incoming (h c) \<mapsto> c)))"
  using assms by (simp_all add: InKey_def Let_def)

declare reconcile.simps(2) [simp del]

lemma reconcile_cases:
  obtains q where "pend (Incoming (h c)) = Some q" "rc_pending (reconcile h (c # cs) pend) = rc_pending (reconcile h cs pend)"
    "rc_adds (reconcile h (c # cs) pend) = rc_adds (reconcile h cs pend)"
  | "pend (Incoming (h c)) = None"
    "rc_pending (reconcile h (c # cs) pend) = rc_pending (reconcile h cs (pend(Incoming (h c) \<mapsto> c)))"
    "rc_adds (reconcile h (c # cs) pend) = c # rc_adds (reconcile h cs (pend(Incoming (h c) \<mapsto> c)))"
  by (cases "pend (Incoming (h c))") (use reconcile_found reconcile_new in blast)+

lemma reconcile_noadds: "rc_adds (reconcile h cs pend) = [] \<Longrightarrow> rc_pending (reconcile h cs pend) = pend"
proof (induction cs arbitrary: pend)
  case (Cons c cs)
  then show ?case by (cases rule: reconcile_cases [of pend h c cs]) auto
qed simp

lemma reconcile_adds:
  "q \<in> set (rc_adds (reconcile h cs pend)) \<Longrightarrow> pend (Incoming (h q)) = None"
  "k \<notin> Incoming ` h ` set (rc_adds (reconcile h cs pend)) \<Longrightarrow> rc_pending (reconcile h cs pend) k = pend k"
proof (induction cs arbitrary: pend)
  case (Cons c cs)
  {
    case 1
    show ?case
    proof (cases rule: reconcile_cases [of pend h c cs])
      case 2
      then consider "q = c" | "q \<in> set (rc_adds (reconcile h cs (pend(Incoming (h c) \<mapsto> c))))" using 1 by auto
      then show ?thesis
      proof cases
        case b: 2
        from Cons(1) [OF this] show ?thesis by (auto split: if_splits)
      qed (use 2 in simp)
    qed (use 1 Cons in simp)
  next
    case 2
    show ?case
    proof (cases rule: reconcile_cases [of pend h c cs])
      case r: 2
      then have "k \<notin> Incoming ` h ` set (rc_adds (reconcile h cs (pend(Incoming (h c) \<mapsto> c))))" using 2 by simp
      then have "rc_pending (reconcile h cs (pend(Incoming (h c) \<mapsto> c))) k = (pend(Incoming (h c) \<mapsto> c)) k" by (rule Cons(2))
      also have "\<dots> = pend k" using r 2 by simp
      finally show ?thesis unfolding r .
    qed (use 2 Cons in simp)
  }
qed simp_all

lemma reconcile_keeps:
  assumes "pend k = Some p"
  shows "rc_pending (reconcile h cs pend) k = Some p"
proof -
  have "k \<notin> Incoming ` h ` set (rc_adds (reconcile h cs pend))"
  proof
    assume "k \<in> Incoming ` h ` set (rc_adds (reconcile h cs pend))"
    then obtain q where "k = Incoming (h q)" "q \<in> set (rc_adds (reconcile h cs pend))" by blast
    then show False using reconcile_adds(1) assms by fastforce
  qed
  then show ?thesis using reconcile_adds(2) assms by simp
qed

lemma fold_delete: "fold (\<lambda>x m. m(f x := None)) xs m k = (if k \<in> f ` set xs then None else m k)"
  by (induction xs arbitrary: m) auto

lemma reconcile_rollback:
  "fold (\<lambda>p m. m(InKey (h p) := None)) (rc_adds (reconcile h cs pend)) (rc_pending (reconcile h cs pend)) = pend"
proof
  fix k
  show "fold (\<lambda>p m. m(InKey (h p) := None)) (rc_adds (reconcile h cs pend)) (rc_pending (reconcile h cs pend)) k = pend k"
    using reconcile_adds(1) [of _ h cs pend] reconcile_adds(2) [of k h cs pend] unfolding fold_delete
    by (auto simp: InKey_def image_image)
qed

lemma reconcile_from:
  "rc_pending (reconcile h cs pend) k = Some p \<Longrightarrow> pend k = Some p \<or> p \<in> set cs \<and> k = Incoming (h p)"
proof (induction cs arbitrary: pend)
  case (Cons c cs)
  show ?case
  proof (cases rule: reconcile_cases [of pend h c cs])
    case (1 q)
    then show ?thesis using Cons by auto
  next
    case 2
    then have "(pend(Incoming (h c) \<mapsto> c)) k = Some p \<or> p \<in> set cs \<and> k = Incoming (h p)" using Cons by metis
    then show ?thesis by (auto split: if_splits)
  qed
qed simp

lemma addCircuits_Cons:
  "addCircuits ((k, e) # cs) m = addCircuits cs (if m k = None then m(k \<mapsto> (e, None)) else m)"
  by (simp add: addCircuits_def)

lemma reconcile_enc:
  assumes "\<forall>p \<in> set cs. Outgoing (h p) = None"
  shows "enc h (rc_pending (reconcile h cs pend)) = addCircuits (map (\<lambda>p. (Incoming (h p), CircuitEncode (h p))) cs) (enc h pend)"
  using assms
proof (induction cs arbitrary: pend)
  case (Cons c cs)
  show ?case
  proof (cases rule: reconcile_cases [of pend h c cs])
    case (1 q)
    then have "enc h pend (Incoming (h c)) \<noteq> None" by simp
    then show ?thesis unfolding 1 list.map addCircuits_Cons using Cons by (simp only: if_False) simp
  next
    case 2
    then have "enc h pend (Incoming (h c)) = None" by simp
    then show ?thesis unfolding 2 list.map addCircuits_Cons using Cons by (simp add: enc_upd)
  qed
qed (simp add: addCircuits_def)

lemma addsRep_put:
  assumes "addsRep A m" and "m k = None" and "wf_key k" and "\<And>k. m k \<noteq> None \<Longrightarrow> wf_key k"
  shows "addsRep (A(CircuitKeyBytes k \<mapsto> e)) (m(k \<mapsto> (e, ks)))"
  unfolding addsRep_def
proof (intro allI)
  fix b v
  show "(A(CircuitKeyBytes k \<mapsto> e)) b = Some v \<longleftrightarrow> (\<exists>k' ks'. (m(k \<mapsto> (e, ks))) k' = Some (v, ks') \<and> b = CircuitKeyBytes k')"
  proof (cases "b = CircuitKeyBytes k")
    case True
    have "k' = k" if "m k' = Some x" "CircuitKeyBytes k' = CircuitKeyBytes k" for k' x
      using CircuitKeyBytes_inj [of k' k] assms(3,4) that by auto
    then show ?thesis using True assms(2) by auto
  next
    case False
    then show ?thesis using assms(1) unfolding addsRep_def by auto
  qed
qed

lemma keystonesRep_new:
  assumes "keystonesRep K m" and "m k = None"
  shows "keystonesRep K (m(k \<mapsto> (e, None)))"
proof -
  have "(m(k \<mapsto> (e, None))) k' = Some (e', Some out) \<longleftrightarrow> m k' = Some (e', Some out)" for k' e' out
    using assms(2) by auto
  then show ?thesis using assms(1) unfolding keystonesRep_def by (simp only: simp_thms)
qed

lemma reconcile_disk:
  assumes "\<forall>p \<in> set cs. Outgoing (h p) = None \<and> wf_key (Incoming (h p))" and "\<And>k. pend k \<noteq> None \<Longrightarrow> wf_key k"
    and "addsRep A (enc h pend)" and "keystonesRep K (enc h pend)"
  shows "addsRep (putCircuits h (rc_adds (reconcile h cs pend)) A) (enc h (rc_pending (reconcile h cs pend)))"
    and "keystonesRep K (enc h (rc_pending (reconcile h cs pend)))"
proof -
  have "addsRep (putCircuits h (rc_adds (reconcile h cs pend)) A) (enc h (rc_pending (reconcile h cs pend))) \<and>
      keystonesRep K (enc h (rc_pending (reconcile h cs pend)))"
    using assms
  proof (induction cs arbitrary: pend A)
    case (Cons c cs)
    show ?case
    proof (cases rule: reconcile_cases [of pend h c cs])
      case (1 q)
      then show ?thesis using Cons by simp
    next
      case 2
      let ?pend = "pend(Incoming (h c) \<mapsto> c)" and ?A = "A(CircuitKeyBytes (Incoming (h c)) \<mapsto> CircuitEncode (h c))"
      have o: "Outgoing (h c) = None" "wf_key (Incoming (h c))" using Cons.prems(1) by auto
      have "addsRep ?A (enc h ?pend)" unfolding enc_upd
        by (rule addsRep_put) (use Cons.prems 2 o in auto)
      moreover have "keystonesRep K (enc h ?pend)" unfolding enc_upd o
        by (rule keystonesRep_new) (use Cons.prems 2 in auto)
      ultimately have "addsRep (putCircuits h (rc_adds (reconcile h cs ?pend)) ?A) (enc h (rc_pending (reconcile h cs ?pend))) \<and>
          keystonesRep K (enc h (rc_pending (reconcile h cs ?pend)))"
      proof (rule Cons.IH [rotated 2])
        show "\<forall>p \<in> set cs. Outgoing (h p) = None \<and> wf_key (Incoming (h p))" using Cons.prems(1) by simp
        show "wf_key k" if "?pend k \<noteq> None" for k using that Cons.prems(2) o by (auto split: if_splits)
      qed
      then show ?thesis unfolding 2 by (simp add: putCircuits_def InKey_def)
    qed
  qed (simp add: putCircuits_def)
  then show "addsRep (putCircuits h (rc_adds (reconcile h cs pend)) A) (enc h (rc_pending (reconcile h cs pend)))"
    "keystonesRep K (enc h (rc_pending (reconcile h cs pend)))" by blast+
qed

lemma circuitsOf_enc: "circuitsOf cm = enc (heap cm) (pending cm)"
  by (simp add: circuitsOf_def enc_def)

text \<open>What \<open>CommitCircuits\<close> does with fresh circuits: the new keys are added when the write
  succeeds, and nothing changes when it fails.\<close>

lemma CommitCircuits_inv:
  assumes inv: "cm_inv vk cm" and cs: "\<forall>p \<in> set cs. Outgoing (heap cm p) = None \<and> wf_circuit vk (heap cm p) \<and> p < nextPtr cm"
    and c: "CommitCircuits dbOk cs cm = (cm', acts, err)"
  shows "cm_inv vk cm'"
    and "circuitsOf cm' = (if err = None then addCircuits (map (\<lambda>p. (Incoming (heap cm p), CircuitEncode (heap cm p))) cs) (circuitsOf cm)
                          else circuitsOf cm)"
    and "closed cm' = closed cm" "heap cm' = heap cm" "nextPtr cm' = nextPtr cm" "err \<noteq> None \<Longrightarrow> cm' = cm"
proof -
  have I: "mem_inv vk cm" "index_inv cm" "denotes (disk cm) (circuitsOf cm)" using inv by (simp_all add: cm_inv_def)
  obtain A K where d: "disk cm = \<lparr>circuitAddKey = Some A, circuitKeystoneKey = Some K\<rparr>" "addsRep A (circuitsOf cm)"
    "keystonesRep K (circuitsOf cm)" using I(3) by (auto simp: denotes_def)
  define r where "r = reconcile (heap cm) cs (pending cm)"
  have wk: "\<forall>p \<in> set cs. Outgoing (heap cm p) = None \<and> wf_key (Incoming (heap cm p))" using cs by (auto simp: wf_circuit_def)
  have wp: "wf_key k" if "pending cm k \<noteq> None" for k using that mem_invD(4) [OF I(1)] by blast
  note D = reconcile_disk [OF wk wp d(2,3) [unfolded circuitsOf_enc], folded r_def]
  have en: "enc (heap cm) (rc_pending r) = addCircuits (map (\<lambda>p. (Incoming (heap cm p), CircuitEncode (heap cm p))) cs) (circuitsOf cm)"
    unfolding r_def circuitsOf_enc by (rule reconcile_enc) (use cs in blast)
  define cm1 where "cm1 = cm\<lparr>pending := rc_pending r, disk := \<lparr>circuitAddKey = Some (putCircuits (heap cm) (rc_adds r) A), circuitKeystoneKey = Some K\<rparr>\<rparr>"
  have op: "opened cm out = Some p \<longleftrightarrow> (\<exists>k. rc_pending r k = Some p \<and> Outgoing (heap cm p) = Some out)" for out p
  proof
    assume "opened cm out = Some p"
    then have p: "pending cm (Incoming (heap cm p)) = Some p" "Outgoing (heap cm p) = Some out" using mem_invD(5) [OF I(1)] by simp_all
    have "rc_pending r (Incoming (heap cm p)) = Some p" unfolding r_def using p(1) by (rule reconcile_keeps)
    then show "\<exists>k. rc_pending r k = Some p \<and> Outgoing (heap cm p) = Some out" using p(2) by blast
  next
    assume "\<exists>k. rc_pending r k = Some p \<and> Outgoing (heap cm p) = Some out"
    then obtain k where k: "rc_pending r k = Some p" "Outgoing (heap cm p) = Some out" by blast
    then have "pending cm k = Some p" using reconcile_from k(1) cs unfolding r_def by fastforce
    then show "opened cm out = Some p" using mem_invD(1,5) [OF I(1)] k(2) by metis
  qed
  have sub: "dom (pending cm) \<subseteq> dom (rc_pending r)"
    using reconcile_keeps [where pend = "pending cm"] unfolding r_def by (auto simp: dom_def)
  have mem1: "mem_inv vk cm1"
    unfolding mem_inv_def
  proof (intro conjI allI impI)
    fix k p assume "pending cm1 k = Some p"
    then have "pending cm k = Some p \<or> p \<in> set cs \<and> k = Incoming (heap cm p)" using reconcile_from unfolding cm1_def r_def by simp
    then show "Incoming (heap cm1 p) = k" "wf_circuit vk (heap cm1 p)" "p < nextPtr cm1"
      using cs mem_invD(1-3) [OF I(1)] by (auto simp: cm1_def)
  next
    show "opened cm1 out = Some p \<longleftrightarrow> (\<exists>k. pending cm1 k = Some p \<and> Outgoing (heap cm1 p) = Some out)" for out p
      using op by (simp add: cm1_def)
    show "wf_out out" if "opened cm1 out = Some p" for out p using that mem_invD(6) [OF I(1)] by (simp add: cm1_def)
    show "closed cm1 \<subseteq> dom (pending cm1)" using sub mem_invD(7) [OF I(1)] by (auto simp: cm1_def)
  qed
  have inv1: "cm_inv vk cm1" using mem1 I(2) D by (auto simp: cm_inv_def cm1_def index_inv_def hset_def denotes_def circuitsOf_enc)
  have noadd: "cm1 = cm" if "rc_adds r = []" using reconcile_noadds that d(1) unfolding r_def cm1_def by (simp add: putCircuits_def)
  have res: "(cm' = cm1 \<and> err = None) \<or> (cm' = cm \<and> err \<noteq> None)"
  proof (cases "cs = []")
    case True
    then have "cm' = cm" "err = None" "rc_adds r = []" using c by (simp_all add: CommitCircuits_def r_def)
    then show ?thesis using noadd by simp
  next
    case ne: False
    show ?thesis
    proof (cases "rc_adds r = []")
      case True
      then show ?thesis using c ne noadd reconcile_noadds [of "heap cm" cs "pending cm"] unfolding r_def [symmetric]
        by (simp add: CommitCircuits_def Let_def flip: r_def)
    next
      case False
      have rb: "fold (\<lambda>p m. m(InKey (heap cm p) := None)) (rc_adds r) (rc_pending r) = pending cm" unfolding r_def by (rule reconcile_rollback)
      show ?thesis using c ne False rb
        by (auto simp: CommitCircuits_def Let_def dbUpdate_def onAdds_def onBucket_def d(1) cm1_def simp flip: r_def split: if_splits)
    qed
  qed
  then show "cm_inv vk cm'" using inv inv1 by blast
  show "circuitsOf cm' = (if err = None then addCircuits (map (\<lambda>p. (Incoming (heap cm p), CircuitEncode (heap cm p))) cs) (circuitsOf cm)
      else circuitsOf cm)" using res en by (auto simp: cm1_def circuitsOf_enc)
  show "closed cm' = closed cm" "heap cm' = heap cm" "nextPtr cm' = nextPtr cm" "err \<noteq> None \<Longrightarrow> cm' = cm" using res by (auto simp: cm1_def)
qed

subsection \<open>The hash index\<close>

lemma addCircuitToHashIndex_fields [simp]:
  "opened (addCircuitToHashIndex p cm) = opened cm" "pending (addCircuitToHashIndex p cm) = pending cm"
  "heap (addCircuitToHashIndex p cm) = heap cm" "closed (addCircuitToHashIndex p cm) = closed cm"
  "disk (addCircuitToHashIndex p cm) = disk cm" "nextPtr (addCircuitToHashIndex p cm) = nextPtr cm"
  by (simp_all add: addCircuitToHashIndex_def Let_def)

lemma hset_add:
  "hset (addCircuitToHashIndex p cm) h =
     (if h = PaymentHash (heap cm p) then insert (OutKey (heap cm p)) (hset cm h) else hset cm h)"
  by (auto simp: hset_def addCircuitToHashIndex_def Let_def)

lemma nonempty_add: "(\<forall>h. hashIndex cm h \<noteq> Some {}) \<Longrightarrow> \<forall>h. hashIndex (addCircuitToHashIndex p cm) h \<noteq> Some {}"
  by (auto simp: addCircuitToHashIndex_def Let_def)

lemma hset_remove:
  "hset (removeCircuitFromHashIndex p cm) h =
     (if h = PaymentHash (heap cm p) then hset cm h - {OutKey (heap cm p)} else hset cm h)"
  by (auto simp: hset_def removeCircuitFromHashIndex_def Let_def split: option.splits)

lemma nonempty_remove: "(\<forall>h. hashIndex cm h \<noteq> Some {}) \<Longrightarrow> \<forall>h. hashIndex (removeCircuitFromHashIndex p cm) h \<noteq> Some {}"
  by (auto simp: removeCircuitFromHashIndex_def Let_def split: option.split)

text \<open>Without empty sets, the index is its sets.\<close>

lemma hashIndex_eqI:
  assumes "\<forall>h. hashIndex cm h \<noteq> Some {}" "\<forall>h. hashIndex cm' h \<noteq> Some {}" and "\<And>h. hset cm h = hset cm' h"
  shows "hashIndex cm = hashIndex cm'"
proof
  fix h
  show "hashIndex cm h = hashIndex cm' h"
    using assms(1,2) assms(3) [of h] by (auto simp: hset_def split: option.splits)
qed

lemma mem_inv_cong:
  assumes "pending cm' = pending cm" "opened cm' = opened cm" "heap cm' = heap cm" "nextPtr cm' = nextPtr cm" "closed cm' = closed cm"
  shows "mem_inv vk cm' = mem_inv vk cm"
  by (simp add: mem_inv_def assms)

lemma circuitsOf_cong:
  assumes "pending cm' = pending cm" "heap cm' = heap cm"
  shows "circuitsOf cm' = circuitsOf cm"
  by (simp add: circuitsOf_def assms)

subsection \<open>Opening\<close>

definition withKeystone :: "nat \<Rightarrow> CircuitKey \<Rightarrow> circuitMap \<Rightarrow> circuitMap" where
  "withKeystone p out cm = cm\<lparr>heap := (heap cm)(p := (heap cm p)\<lparr>Outgoing := Some out\<rparr>), opened := (opened cm)(out \<mapsto> p)\<rparr>"

lemma withKeystone_fields [simp]:
  "pending (withKeystone p out cm) = pending cm" "opened (withKeystone p out cm) = (opened cm)(out \<mapsto> p)"
  "heap (withKeystone p out cm) = (heap cm)(p := (heap cm p)\<lparr>Outgoing := Some out\<rparr>)"
  "closed (withKeystone p out cm) = closed cm" "disk (withKeystone p out cm) = disk cm"
  "nextPtr (withKeystone p out cm) = nextPtr cm" "hashIndex (withKeystone p out cm) = hashIndex cm"
  "hset (withKeystone p out cm) = hset cm"
  by (simp_all add: withKeystone_def hset_def fun_eq_iff)

lemma openCircuit_eq: "openCircuit (p, ks) cm = addCircuitToHashIndex p (withKeystone p (ks_OutKey ks) cm)"
  by (simp add: openCircuit_def withKeystone_def)

lemma withKeystone_inv:
  assumes inv: "mem_inv vk cm" and p: "pending cm k = Some p" "Outgoing (heap cm p) = None" and out: "opened cm out = None" "wf_out out"
  shows "mem_inv vk (withKeystone p out cm)"
    and "circuitsOf (withKeystone p out cm) = (circuitsOf cm)(k \<mapsto> (CircuitEncode (heap cm p), Some out))"
proof -
  have k: "k' = k" if "pending cm k' = Some p" for k' using pending_inj [OF inv that p(1)] .
  have op: "opened cm out' \<noteq> Some p" for out' using mem_invD(5) [OF inv] p(2) by simp
  have od: "opened cm out' = Some q \<longleftrightarrow> (\<exists>k. pending cm k = Some q \<and> Outgoing (heap cm q) = Some out')" for out' q
    using inv unfolding mem_inv_def by blast
  show "mem_inv vk (withKeystone p out cm)"
    unfolding mem_inv_def
  proof (intro conjI allI impI)
    show "Incoming (heap (withKeystone p out cm) q) = k'" "wf_circuit vk (heap (withKeystone p out cm) q)" "q < nextPtr (withKeystone p out cm)"
      if "pending (withKeystone p out cm) k' = Some q" for k' q
      using that mem_invD(1-3) [OF inv] by auto
    show "(opened (withKeystone p out cm) out' = Some q) =
      (\<exists>k. pending (withKeystone p out cm) k = Some q \<and> Outgoing (heap (withKeystone p out cm) q) = Some out')" for out' q
    proof (cases "q = p")
      case True
      then show ?thesis using p op by auto
    next
      case False
      then have "(\<exists>k. pending (withKeystone p out cm) k = Some q \<and> Outgoing (heap (withKeystone p out cm) q) = Some out') \<longleftrightarrow>
          opened cm out' = Some q" using od [of out' q] by simp
      then show ?thesis using out(1) False by auto
    qed
    show "wf_out out'" if "opened (withKeystone p out cm) out' = Some q" for out' q
      using that out(2) mem_invD(6) [OF inv] by (auto split: if_splits)
    show "closed (withKeystone p out cm) \<subseteq> dom (pending (withKeystone p out cm))" using mem_invD(7) [OF inv] by simp
  qed
  show "circuitsOf (withKeystone p out cm) = (circuitsOf cm)(k \<mapsto> (CircuitEncode (heap cm p), Some out))"
  proof
    fix k'
    show "circuitsOf (withKeystone p out cm) k' = ((circuitsOf cm)(k \<mapsto> (CircuitEncode (heap cm p), Some out))) k'"
    proof (cases "k' = k")
      case True
      then show ?thesis using p(1) by (simp add: circuitsOf_def)
    next
      case False
      then have "pending cm k' \<noteq> Some p" using k by blast
      then show ?thesis using False by (cases "pending cm k'") (auto simp: circuitsOf_def)
    qed
  qed
qed

lemma openCircuit_inv:
  assumes inv: "mem_inv vk cm" "index_inv cm" and p: "pending cm (ks_InKey ks) = Some p" "Outgoing (heap cm p) = None"
    and out: "opened cm (ks_OutKey ks) = None" "wf_out (ks_OutKey ks)"
  shows "mem_inv vk (openCircuit (p, ks) cm)" "index_inv (openCircuit (p, ks) cm)"
    "circuitsOf (openCircuit (p, ks) cm) = (circuitsOf cm)(ks_InKey ks \<mapsto> (CircuitEncode (heap cm p), Some (ks_OutKey ks)))"
    "pending (openCircuit (p, ks) cm) = pending cm" "disk (openCircuit (p, ks) cm) = disk cm"
    "opened (openCircuit (p, ks) cm) = (opened cm)(ks_OutKey ks \<mapsto> p)" "closed (openCircuit (p, ks) cm) = closed cm"
    "\<And>q. q \<noteq> p \<Longrightarrow> heap (openCircuit (p, ks) cm) q = heap cm q"
proof -
  let ?cm = "withKeystone p (ks_OutKey ks) cm"
  have W: "mem_inv vk ?cm" "circuitsOf ?cm = (circuitsOf cm)(ks_InKey ks \<mapsto> (CircuitEncode (heap cm p), Some (ks_OutKey ks)))"
    by (rule withKeystone_inv [OF inv(1) p out])+
  show "mem_inv vk (openCircuit (p, ks) cm)" unfolding openCircuit_eq by (subst mem_inv_cong [of _ ?cm]) (use W(1) in simp_all)
  show "circuitsOf (openCircuit (p, ks) cm) = (circuitsOf cm)(ks_InKey ks \<mapsto> (CircuitEncode (heap cm p), Some (ks_OutKey ks)))"
    unfolding openCircuit_eq by (subst circuitsOf_cong [of _ ?cm]) (use W(2) in simp_all)
  show "index_inv (openCircuit (p, ks) cm)" unfolding index_inv_def
  proof (intro conjI allI impI)
    show "hashIndex (openCircuit (p, ks) cm) h \<noteq> Some {}" for h
      using nonempty_add [of ?cm p] inv(2) by (simp add: openCircuit_eq index_inv_def)
    fix out' q assume "opened (openCircuit (p, ks) cm) out' = Some q"
    then show "out' \<in> hset (openCircuit (p, ks) cm) (PaymentHash (heap (openCircuit (p, ks) cm) q))"
      using inv(2) [unfolded index_inv_def, THEN conjunct2, rule_format, of out' q] unfolding openCircuit_eq hset_add
      by (auto simp: OutKey_def split: if_splits)
  qed
qed (simp_all add: openCircuit_eq)

lemma keystonesRep_put:
  assumes rep: "keystonesRep K m" and wf: "wf_circuits vk m" and m: "m k = Some (e, None)" and out: "wf_out out" "\<And>k e. m k \<noteq> Some (e, Some out)"
  shows "keystonesRep (K(CircuitKeyBytes out \<mapsto> CircuitKeyBytes k)) (m(k \<mapsto> (e, Some out)))"
  unfolding keystonesRep_def
proof (intro allI)
  fix b v
  have wo: "wf_out out'" if "m k' = Some (e', Some out')" for k' e' out' using wf that unfolding wf_circuits_def by blast
  show "(K(CircuitKeyBytes out \<mapsto> CircuitKeyBytes k)) b = Some v \<longleftrightarrow>
    (\<exists>k' e' out'. (m(k \<mapsto> (e, Some out))) k' = Some (e', Some out') \<and> b = CircuitKeyBytes out' \<and> v = CircuitKeyBytes k')"
  proof (cases "b = CircuitKeyBytes out")
    case True
    have "out' = out" if "m k' = Some (e', Some out')" "CircuitKeyBytes out' = CircuitKeyBytes out" for k' e' out'
      using CircuitKeyBytes_inj [OF wf_outD [OF wo [OF that(1)]] wf_outD [OF out(1)]] that(2) by simp
    then show ?thesis using True out(2) m by (auto split: if_splits)
  next
    case False
    have "(m(k \<mapsto> (e, Some out))) k' = Some (e', Some out') \<and> b = CircuitKeyBytes out' \<longleftrightarrow> m k' = Some (e', Some out') \<and> b = CircuitKeyBytes out'" for k' e' out'
      using False m by auto
    then have "(\<exists>k' e' out'. (m(k \<mapsto> (e, Some out))) k' = Some (e', Some out') \<and> b = CircuitKeyBytes out' \<and> v = CircuitKeyBytes k') \<longleftrightarrow> K b = Some v"
      using rep unfolding keystonesRep_def by (simp only: conj_assoc [symmetric])
    then show ?thesis using False by simp
  qed
qed

lemma addsRep_keystone:
  assumes "addsRep A m" and "m k = Some (e, ks)"
  shows "addsRep A (m(k \<mapsto> (e, ks')))"
proof -
  have "(\<exists>ks. (m(k \<mapsto> (e, ks'))) k' = Some (v, ks)) \<longleftrightarrow> (\<exists>ks. m k' = Some (v, ks))" for k' v using assms(2) by auto
  then have "(\<exists>k' ks. (m(k \<mapsto> (e, ks'))) k' = Some (v, ks) \<and> b = CircuitKeyBytes k') \<longleftrightarrow> (\<exists>k' ks. m k' = Some (v, ks) \<and> b = CircuitKeyBytes k')" for v b
    by (simp only: ex_simps)
  then show ?thesis using assms(1) unfolding addsRep_def by (simp only: simp_thms)
qed

text \<open>The contract of \<open>OpenCircuits\<close>, which its callers keep: each circuit is opened once.\<close>

definition openable :: "Keystone list \<Rightarrow> circuits \<Rightarrow> bool" where
  "openable kss m \<longleftrightarrow> distinct (map ks_InKey kss) \<and> distinct (map ks_OutKey kss) \<and>
     (\<forall>ks \<in> set kss. wf_out (ks_OutKey ks) \<and> (\<forall>e out. m (ks_InKey ks) \<noteq> Some (e, Some out)))"

definition addKeystones :: "Keystone list \<Rightarrow> circuits \<Rightarrow> circuits" where
  "addKeystones kss m =
     fold (\<lambda>ks m. m(ks_InKey ks := map_option (\<lambda>(e, _). (e, Some (ks_OutKey ks))) (m (ks_InKey ks)))) kss m"

lemma findKeystones_Inr:
  "findKeystones cm kss = Inr ps \<Longrightarrow> length ps = length kss \<and>
     (\<forall>(p, ks) \<in> set (zip ps kss). pending cm (ks_InKey ks) = Some p \<and> opened cm (ks_OutKey ks) = None)"
  by (induction kss arbitrary: ps) (auto simp: bindR_Inr_iff split: if_splits option.splits)

lemma open_fold:
  assumes "mem_inv vk cm" "index_inv cm" and "openable kss (circuitsOf cm)"
    and "length ps = length kss" and "\<forall>(p, ks) \<in> set (zip ps kss). pending cm (ks_InKey ks) = Some p \<and> opened cm (ks_OutKey ks) = None"
    and "addsRep A (circuitsOf cm)" "keystonesRep K (circuitsOf cm)"
  shows "let cm' = fold openCircuit (zip ps kss) cm in mem_inv vk cm' \<and> index_inv cm' \<and>
    circuitsOf cm' = addKeystones kss (circuitsOf cm) \<and> disk cm' = disk cm \<and> closed cm' = closed cm \<and> pending cm' = pending cm \<and>
    addsRep A (circuitsOf cm') \<and> keystonesRep (putKeystones kss K) (circuitsOf cm')"
  using assms
proof (induction kss arbitrary: ps cm K)
  case Nil
  then show ?case by (simp add: addKeystones_def putKeystones_def)
next
  case (Cons ks kss)
  obtain p ps' where ps: "ps = p # ps'" "length ps' = length kss" using Cons.prems(4) by (cases ps) auto
  have p: "pending cm (ks_InKey ks) = Some p" "opened cm (ks_OutKey ks) = None" "wf_out (ks_OutKey ks)"
    using Cons.prems(3,5) by (auto simp: ps openable_def)
  have un: "Outgoing (heap cm p) = None" using Cons.prems(3) p(1)
    by (cases "Outgoing (heap cm p)") (auto simp: openable_def circuitsOf_Some)
  let ?cm = "openCircuit (p, ks) cm" and ?m = "circuitsOf cm"
  let ?m1 = "?m(ks_InKey ks \<mapsto> (CircuitEncode (heap cm p), Some (ks_OutKey ks)))"
  note O = openCircuit_inv [OF Cons.prems(1,2) p(1) un p(2,3)]
  have mk: "?m (ks_InKey ks) = Some (CircuitEncode (heap cm p), None)" using p(1) un by (simp add: circuitsOf_Some)
  have fresh: "?m k \<noteq> Some (e, Some (ks_OutKey ks))" for k e
  proof
    assume "?m k = Some (e, Some (ks_OutKey ks))"
    then obtain q where "pending cm k = Some q" "Outgoing (heap cm q) = Some (ks_OutKey ks)" by (auto simp: circuitsOf_Some)
    then have "opened cm (ks_OutKey ks) = Some q" using mem_invD(1,5) [OF Cons.prems(1)] by metis
    then show False using p(2) by simp
  qed
  have K: "keystonesRep (K(CircuitKeyBytes (ks_OutKey ks) \<mapsto> CircuitKeyBytes (ks_InKey ks))) ?m1"
    by (rule keystonesRep_put [OF Cons.prems(7) wf_circuitsOf [OF Cons.prems(1)] mk p(3) fresh])
  have A: "addsRep A ?m1" by (rule addsRep_keystone [OF Cons.prems(6) mk])
  have op: "openable kss ?m1" using Cons.prems(3) by (auto simp: openable_def image_iff)
  have rest: "\<forall>(p', ks') \<in> set (zip ps' kss). pending ?cm (ks_InKey ks') = Some p' \<and> opened ?cm (ks_OutKey ks') = None"
  proof (clarify)
    fix p' ks' assume z: "(p', ks') \<in> set (zip ps' kss)"
    then have "ks' \<in> set kss" by (auto dest: set_zip_rightD)
    then have "ks_OutKey ks' \<noteq> ks_OutKey ks" using Cons.prems(3) by (auto simp: openable_def image_iff)
    moreover have "pending cm (ks_InKey ks') = Some p' \<and> opened cm (ks_OutKey ks') = None" using Cons.prems(5) z by (auto simp: ps)
    ultimately show "pending ?cm (ks_InKey ks') = Some p' \<and> opened ?cm (ks_OutKey ks') = None" by (simp add: O)
  qed
  have "let cm' = fold openCircuit (zip ps' kss) ?cm in mem_inv vk cm' \<and> index_inv cm' \<and>
    circuitsOf cm' = addKeystones kss (circuitsOf ?cm) \<and> disk cm' = disk ?cm \<and> closed cm' = closed ?cm \<and> pending cm' = pending ?cm \<and>
    addsRep A (circuitsOf cm') \<and> keystonesRep (putKeystones kss (K(CircuitKeyBytes (ks_OutKey ks) \<mapsto> CircuitKeyBytes (ks_InKey ks)))) (circuitsOf cm')"
    by (rule Cons.IH [OF O(1,2) _ ps(2) rest]) (simp_all only: O(3) op A K)
  note R = this [unfolded Let_def O(3-5,7)]
  have e: "fold openCircuit (zip ps (ks # kss)) cm = fold openCircuit (zip ps' kss) ?cm"
    "putKeystones (ks # kss) K = putKeystones kss (K(CircuitKeyBytes (ks_OutKey ks) \<mapsto> CircuitKeyBytes (ks_InKey ks)))"
    "addKeystones (ks # kss) ?m = addKeystones kss ?m1" using mk by (simp_all add: ps putKeystones_def addKeystones_def)
  show ?case unfolding Let_def e by (rule R)
qed

lemma OpenCircuits_inv:
  assumes inv: "cm_inv vk cm" and ok: "openable kss (circuitsOf cm)" and c: "OpenCircuits dbOk kss cm = (cm', err)"
  shows "cm_inv vk cm'" "circuitsOf cm' = (if err = None then addKeystones kss (circuitsOf cm) else circuitsOf cm)"
    "closed cm' = closed cm" "pending cm' = pending cm" "err \<noteq> None \<Longrightarrow> cm' = cm"
proof -
  have I: "mem_inv vk cm" "index_inv cm" "denotes (disk cm) (circuitsOf cm)" using inv by (simp_all add: cm_inv_def)
  obtain A K where d: "disk cm = \<lparr>circuitAddKey = Some A, circuitKeystoneKey = Some K\<rparr>" "addsRep A (circuitsOf cm)"
    "keystonesRep K (circuitsOf cm)" using I(3) by (auto simp: denotes_def)
  have "cm_inv vk cm' \<and> circuitsOf cm' = (if err = None then addKeystones kss (circuitsOf cm) else circuitsOf cm) \<and>
    closed cm' = closed cm \<and> pending cm' = pending cm \<and> (err \<noteq> None \<longrightarrow> cm' = cm)"
  proof (cases "kss = []")
    case True
    then show ?thesis using c inv by (simp add: OpenCircuits_def addKeystones_def)
  next
    case ne: False
    show ?thesis
    proof (cases "findKeystones cm kss")
      case (Inl e)
      then show ?thesis using c ne inv by (auto simp: OpenCircuits_def)
    next
      case (Inr ps)
      let ?cm = "cm\<lparr>disk := \<lparr>circuitAddKey = Some A, circuitKeystoneKey = Some (putKeystones kss K)\<rparr>\<rparr>"
      have m: "mem_inv vk ?cm" "index_inv ?cm" "circuitsOf ?cm = circuitsOf cm"
        using I by (simp_all add: mem_inv_def index_inv_def hset_def circuitsOf_def)
      note f = findKeystones_Inr [OF Inr]
      have F: "let cm' = fold openCircuit (zip ps kss) ?cm in mem_inv vk cm' \<and> index_inv cm' \<and>
        circuitsOf cm' = addKeystones kss (circuitsOf ?cm) \<and> disk cm' = disk ?cm \<and> closed cm' = closed ?cm \<and> pending cm' = pending ?cm \<and>
        addsRep A (circuitsOf cm') \<and> keystonesRep (putKeystones kss K) (circuitsOf cm')"
        by (rule open_fold [OF m(1,2)]) (use f ok d m(3) in simp_all)
      have "disk cm\<lparr>circuitKeystoneKey := Some (putKeystones kss K)\<rparr> = disk ?cm" by (simp add: d)
      then have "cm' = (if dbOk then fold openCircuit (zip ps kss) ?cm else cm) \<and> err = (if dbOk then None else Some ErrDatabase)"
        using c ne Inr by (auto simp: OpenCircuits_def dbUpdate_def onKeystones_def onBucket_def d(1) split: if_splits)
      then show ?thesis using F inv m(3) unfolding Let_def cm_inv_def denotes_def by (cases dbOk) auto
    qed
  qed
  then show "cm_inv vk cm'" "circuitsOf cm' = (if err = None then addKeystones kss (circuitsOf cm) else circuitsOf cm)"
    "closed cm' = closed cm" "pending cm' = pending cm" "err \<noteq> None \<Longrightarrow> cm' = cm" by blast+
qed

subsection \<open>Closing\<close>

lemma close_inv:
  assumes "cm_inv vk cm" and "k \<in> dom (pending cm)"
  shows "cm_inv vk (cm\<lparr>closed := insert k (closed cm)\<rparr>)" "circuitsOf (cm\<lparr>closed := insert k (closed cm)\<rparr>) = circuitsOf cm"
  using assms by (auto simp: cm_inv_def mem_inv_def index_inv_def hset_def circuitsOf_def)

lemma FailCircuit_inv:
  assumes "cm_inv vk cm" and "FailCircuit k cm = (cm', r)"
  shows "cm_inv vk cm'" "circuitsOf cm' = circuitsOf cm" "pending cm' = pending cm" "closed cm \<subseteq> closed cm'"
  using assms close_inv [OF assms(1), of k] by (auto simp: FailCircuit_def split: option.splits if_splits)

lemma CloseCircuit_inv:
  assumes "cm_inv vk cm" and "CloseCircuit out cm = (cm', r)"
  shows "cm_inv vk cm'" "circuitsOf cm' = circuitsOf cm" "pending cm' = pending cm" "closed cm \<subseteq> closed cm'"
proof -
  have "pending cm (Incoming (heap cm p)) = Some p" if "opened cm out = Some p" for p
    using assms(1) that mem_invD(5) [of vk cm out p] by (simp add: cm_inv_def)
  then show "cm_inv vk cm'" "circuitsOf cm' = circuitsOf cm" "pending cm' = pending cm" "closed cm \<subseteq> closed cm'"
    using assms close_inv [OF assms(1)] by (auto simp: CloseCircuit_def dom_def split: option.splits if_splits)
qed

subsection \<open>Trimming\<close>

text \<open>The keys a trim takes: the opened keys of the channel, from \<open>start\<close> up to the first gap.\<close>

definition withoutKeystone :: "nat \<Rightarrow> CircuitKey \<Rightarrow> circuitMap \<Rightarrow> circuitMap" where
  "withoutKeystone p out cm = cm\<lparr>heap := (heap cm)(p := (heap cm p)\<lparr>Outgoing := None\<rparr>), opened := (opened cm)(out := None)\<rparr>"

lemma withoutKeystone_fields [simp]:
  "pending (withoutKeystone p out cm) = pending cm" "opened (withoutKeystone p out cm) = (opened cm)(out := None)"
  "heap (withoutKeystone p out cm) = (heap cm)(p := (heap cm p)\<lparr>Outgoing := None\<rparr>)"
  "closed (withoutKeystone p out cm) = closed cm" "disk (withoutKeystone p out cm) = disk cm"
  "nextPtr (withoutKeystone p out cm) = nextPtr cm" "hashIndex (withoutKeystone p out cm) = hashIndex cm"
  "hset (withoutKeystone p out cm) = hset cm"
  by (simp_all add: withoutKeystone_def hset_def fun_eq_iff)

lemma trimLoop_eq:
  "trimLoop chanID i cm =
     (case opened cm \<lparr>ck_ChanID = chanID, ck_HtlcID = i\<rparr> of
        None \<Rightarrow> (cm, [])
      | Some p \<Rightarrow>
          (case trimLoop chanID (i + 1) (removeCircuitFromHashIndex p (withoutKeystone p \<lparr>ck_ChanID = chanID, ck_HtlcID = i\<rparr> cm)) of
             (cm2, keys) \<Rightarrow> (cm2, \<lparr>ck_ChanID = chanID, ck_HtlcID = i\<rparr> # keys)))"
  by (subst trimLoop.simps, cases "opened cm \<lparr>ck_ChanID = chanID, ck_HtlcID = i\<rparr>")
    (simp_all add: Let_def withoutKeystone_def)

declare trimLoop.simps [simp del]

lemma withoutKeystone_inv:
  assumes inv: "mem_inv vk cm" and p: "opened cm out = Some p"
  shows "mem_inv vk (withoutKeystone p out cm)"
    and "circuitsOf (withoutKeystone p out cm) = (circuitsOf cm)(Incoming (heap cm p) \<mapsto> (CircuitEncode (heap cm p), None))"
proof -
  have pp: "pending cm (Incoming (heap cm p)) = Some p" "Outgoing (heap cm p) = Some out" using mem_invD(5) [OF inv] p by simp_all
  have k: "k' = Incoming (heap cm p)" if "pending cm k' = Some p" for k' using pending_inj [OF inv that pp(1)] .
  have od: "opened cm out' = Some q \<longleftrightarrow> (\<exists>k. pending cm k = Some q \<and> Outgoing (heap cm q) = Some out')" for out' q
    using inv unfolding mem_inv_def by blast
  show "mem_inv vk (withoutKeystone p out cm)"
    unfolding mem_inv_def
  proof (intro conjI allI impI)
    show "Incoming (heap (withoutKeystone p out cm) q) = k'" "wf_circuit vk (heap (withoutKeystone p out cm) q)" "q < nextPtr (withoutKeystone p out cm)"
      if "pending (withoutKeystone p out cm) k' = Some q" for k' q
      using that mem_invD(1-3) [OF inv] by auto
    show "(opened (withoutKeystone p out cm) out' = Some q) =
      (\<exists>k. pending (withoutKeystone p out cm) k = Some q \<and> Outgoing (heap (withoutKeystone p out cm) q) = Some out')" for out' q
    proof (cases "q = p")
      case True
      then show ?thesis using pp od [of out' p] by auto
    next
      case False
      then have "(\<exists>k. pending (withoutKeystone p out cm) k = Some q \<and> Outgoing (heap (withoutKeystone p out cm) q) = Some out') \<longleftrightarrow>
          opened cm out' = Some q" using od [of out' q] by simp
      then show ?thesis using p False by auto
    qed
    show "wf_out out'" if "opened (withoutKeystone p out cm) out' = Some q" for out' q
      using that mem_invD(6) [OF inv] by (auto split: if_splits)
    show "closed (withoutKeystone p out cm) \<subseteq> dom (pending (withoutKeystone p out cm))" using mem_invD(7) [OF inv] by simp
  qed
  show "circuitsOf (withoutKeystone p out cm) = (circuitsOf cm)(Incoming (heap cm p) \<mapsto> (CircuitEncode (heap cm p), None))"
  proof
    fix k'
    show "circuitsOf (withoutKeystone p out cm) k' = ((circuitsOf cm)(Incoming (heap cm p) \<mapsto> (CircuitEncode (heap cm p), None))) k'"
    proof (cases "k' = Incoming (heap cm p)")
      case True
      then show ?thesis using pp(1) by (simp add: circuitsOf_def)
    next
      case False
      then have "pending cm k' \<noteq> Some p" using k by blast
      then show ?thesis using False by (cases "pending cm k'") (auto simp: circuitsOf_def)
    qed
  qed
qed

lemma keystonesRep_delete:
  assumes rep: "keystonesRep K m" and wf: "wf_circuits vk m" and m: "m k = Some (e, Some out)"
  shows "keystonesRep (K(CircuitKeyBytes out := None)) (m(k \<mapsto> (e, None)))" "keystonesRep (K(CircuitKeyBytes out := None)) (m(k := None))"
proof -
  have wo: "wf_out out'" if "m k' = Some (e', Some out')" for k' e' out' using wf that unfolding wf_circuits_def by blast
  have same: "k' = k" if "m k' = Some (e', Some out')" "CircuitKeyBytes out' = CircuitKeyBytes out" for k' e' out'
  proof -
    have "out' = out" using CircuitKeyBytes_inj [OF wf_outD [OF wo [OF that(1)]] wf_outD [OF wo [OF m]]] that(2) by simp
    then show ?thesis using wf that(1) m unfolding wf_circuits_def by blast
  qed
  have "keystonesRep (K(CircuitKeyBytes out := None)) (m(k := x))" if x: "\<forall>e out. x \<noteq> Some (e, Some out)" for x
    unfolding keystonesRep_def
  proof (intro allI)
    fix b v
    show "(K(CircuitKeyBytes out := None)) b = Some v \<longleftrightarrow>
      (\<exists>k' e' out'. (m(k := x)) k' = Some (e', Some out') \<and> b = CircuitKeyBytes out' \<and> v = CircuitKeyBytes k')"
    proof (cases "b = CircuitKeyBytes out")
      case True
      then show ?thesis using same x by (auto split: if_splits)
    next
      case False
      have "(m(k := x)) k' = Some (e', Some out') \<and> b = CircuitKeyBytes out' \<longleftrightarrow> m k' = Some (e', Some out') \<and> b = CircuitKeyBytes out'" for k' e' out'
        using False m x by auto
      then have "(\<exists>k' e' out'. (m(k := x)) k' = Some (e', Some out') \<and> b = CircuitKeyBytes out' \<and> v = CircuitKeyBytes k') \<longleftrightarrow> K b = Some v"
        using rep unfolding keystonesRep_def by (simp only: conj_assoc [symmetric])
      then show ?thesis using False by simp
    qed
  qed
  from this [of "Some (e, None)"] this [of None]
  show "keystonesRep (K(CircuitKeyBytes out := None)) (m(k \<mapsto> (e, None)))" "keystonesRep (K(CircuitKeyBytes out := None)) (m(k := None))" by simp_all
qed

definition dropKeystones :: "CircuitKey set \<Rightarrow> circuits \<Rightarrow> circuits" where
  "dropKeystones outs m = (\<lambda>k. case m k of Some (e, Some out) \<Rightarrow> Some (e, if out \<in> outs then None else Some out) | x \<Rightarrow> x)"

lemma dropKeystones_insert:
  assumes "wf_circuits vk m" and "m k = Some (e, Some out)"
  shows "dropKeystones outs (m(k \<mapsto> (e, None))) = dropKeystones (insert out outs) m"
proof
  fix k'
  have "k' = k" if "m k' = Some (e', Some out)" for e' using assms that unfolding wf_circuits_def by blast
  then consider "k' = k" | "k' \<noteq> k" "\<forall>e'. m k' \<noteq> Some (e', Some out)" by blast
  then show "dropKeystones outs (m(k \<mapsto> (e, None))) k' = dropKeystones (insert out outs) m k'"
  proof cases
    case 1
    then show ?thesis using assms(2) by (simp add: dropKeystones_def)
  next
    case 2
    then show ?thesis by (simp add: dropKeystones_def split: option.split)
  qed
qed

lemma dropKeystones_empty [simp]: "dropKeystones {} m = m"
  by (rule ext) (auto simp: dropKeystones_def split: option.split)

lemma trimLoop_inv:
  assumes "mem_inv vk cm" "index_inv cm" and "trimLoop chanID i cm = (cm', keys)"
    and "addsRep A (circuitsOf cm)" "keystonesRep K (circuitsOf cm)"
  shows "mem_inv vk cm' \<and> index_inv cm' \<and> circuitsOf cm' = dropKeystones (set keys) (circuitsOf cm) \<and> disk cm' = disk cm \<and>
    closed cm' = closed cm \<and> pending cm' = pending cm \<and> addsRep A (circuitsOf cm') \<and>
    keystonesRep (fold (\<lambda>k b. b(CircuitKeyBytes k := None)) keys K) (circuitsOf cm') \<and>
    opened cm' = (opened cm) |` (- set keys) \<and> set keys \<subseteq> dom (opened cm) \<and> keys = map (\<lambda>j. \<lparr>ck_ChanID = chanID, ck_HtlcID = i + word_of_nat j\<rparr>) [0..<length keys] \<and>
    opened cm' \<lparr>ck_ChanID = chanID, ck_HtlcID = i + word_of_nat (length keys)\<rparr> = None"
  using assms
proof (induction chanID i cm arbitrary: cm' keys K rule: trimLoop.induct)
  case (1 chanID i cm)
  let ?out = "\<lparr>ck_ChanID = chanID, ck_HtlcID = i\<rparr>"
  show ?case
  proof (cases "opened cm ?out")
    case None
    then have "cm' = cm" "keys = []" using 1(4) by (simp_all add: trimLoop_eq)
    then show ?thesis using 1 None by simp
  next
    case (Some p)
    let ?cm = "removeCircuitFromHashIndex p (withoutKeystone p ?out cm)" and ?k = "Incoming (heap cm p)"
    obtain keys' where t: "trimLoop chanID (i + 1) ?cm = (cm', keys')" "keys = ?out # keys'"
      using 1(4) Some by (auto simp: trimLoop_eq [of chanID i cm] split: prod.splits)
    have pp: "pending cm ?k = Some p" "Outgoing (heap cm p) = Some ?out" using mem_invD(5) [OF 1(2)] Some by simp_all
    note W = withoutKeystone_inv [OF 1(2) Some]
    have mem: "mem_inv vk ?cm" by (subst mem_inv_cong [of _ "withoutKeystone p ?out cm"]) (use W in simp_all)
    have ci: "circuitsOf ?cm = (circuitsOf cm)(?k \<mapsto> (CircuitEncode (heap cm p), None))"
      by (subst circuitsOf_cong [of _ "withoutKeystone p ?out cm"]) (use W in simp_all)
    have mk: "circuitsOf cm ?k = Some (CircuitEncode (heap cm p), Some ?out)" using pp by (simp add: circuitsOf_Some)
    have wf: "wf_circuits vk (circuitsOf cm)" by (rule wf_circuitsOf [OF 1(2)])
    have ix: "index_inv ?cm"
    proof -
      have ne: "out' \<noteq> EmptyCircuitKey" if "opened cm out' = Some q" for out' q
        using mem_invD(6) [OF 1(2) that] by (auto simp: wf_out_def EmptyCircuitKey_def)
      have idx: "out' \<in> hset cm (PaymentHash (heap cm q))" if "opened cm out' = Some q" for out' q
        using 1(3) that unfolding index_inv_def by blast
      have "out' \<in> hset ?cm (PaymentHash (heap ?cm q))" if "opened ?cm out' = Some q" for out' q
        using that ne [of out' q] idx [of out' q] by (auto simp: hset_remove OutKey_def split: if_splits)
      then show ?thesis using nonempty_remove [of "withoutKeystone p ?out cm" p] 1(3) by (simp add: index_inv_def)
    qed
    have R: "mem_inv vk cm' \<and> index_inv cm' \<and> circuitsOf cm' = dropKeystones (set keys') (circuitsOf ?cm) \<and> disk cm' = disk ?cm \<and>
      closed cm' = closed ?cm \<and> pending cm' = pending ?cm \<and> addsRep A (circuitsOf cm') \<and>
      keystonesRep (fold (\<lambda>k b. b(CircuitKeyBytes k := None)) keys' (K(CircuitKeyBytes ?out := None))) (circuitsOf cm') \<and>
      opened cm' = (opened ?cm) |` (- set keys') \<and> set keys' \<subseteq> dom (opened ?cm) \<and> keys' = map (\<lambda>j. \<lparr>ck_ChanID = chanID, ck_HtlcID = i + 1 + word_of_nat j\<rparr>) [0..<length keys'] \<and>
      opened cm' \<lparr>ck_ChanID = chanID, ck_HtlcID = i + 1 + word_of_nat (length keys')\<rparr> = None"
      unfolding withoutKeystone_def
    proof (rule 1(1) [OF refl Some refl mem [unfolded withoutKeystone_def] ix [unfolded withoutKeystone_def] t(1) [unfolded withoutKeystone_def]])
      show "addsRep A (circuitsOf (removeCircuitFromHashIndex p (cm\<lparr>heap := (heap cm)(p := (heap cm p)\<lparr>Outgoing := None\<rparr>), opened := (opened cm)(?out := None)\<rparr>)))"
        unfolding withoutKeystone_def [symmetric] ci by (rule addsRep_keystone [OF 1(5) mk])
      show "keystonesRep (K(CircuitKeyBytes ?out := None))
         (circuitsOf (removeCircuitFromHashIndex p (cm\<lparr>heap := (heap cm)(p := (heap cm p)\<lparr>Outgoing := None\<rparr>), opened := (opened cm)(?out := None)\<rparr>)))"
        unfolding withoutKeystone_def [symmetric] ci by (rule keystonesRep_delete(1) [OF 1(6) wf mk])
    qed
    have d: "dropKeystones (set keys') (circuitsOf ?cm) = dropKeystones (set keys) (circuitsOf cm)"
      unfolding ci t(2) by (simp add: dropKeystones_insert [OF wf mk])
    have o: "(opened ?cm) |` (- set keys') = (opened cm) |` (- set keys)" by (auto simp: t(2) restrict_map_def fun_eq_iff)
    have l: "keys = map (\<lambda>j. \<lparr>ck_ChanID = chanID, ck_HtlcID = i + word_of_nat j\<rparr>) [0..<length keys]"
    proof -
      have "keys = ?out # map (\<lambda>j. \<lparr>ck_ChanID = chanID, ck_HtlcID = i + 1 + word_of_nat j\<rparr>) [0..<length keys']" using R t(2) by simp
      also have "\<dots> = map (\<lambda>j. \<lparr>ck_ChanID = chanID, ck_HtlcID = i + word_of_nat j\<rparr>) (0 # map Suc [0..<length keys'])" by (simp add: add.assoc)
      also have "0 # map Suc [0..<length keys'] = [0..<length keys]" by (simp add: t(2) map_Suc_upt upt_conv_Cons del: upt_Suc)
      finally show ?thesis .
    qed
    have n: "i + word_of_nat (length keys) = i + 1 + word_of_nat (length keys')" by (simp add: t(2))
    have f: "fold (\<lambda>k b. b(CircuitKeyBytes k := None)) keys K =
        fold (\<lambda>k b. b(CircuitKeyBytes k := None)) keys' (K(CircuitKeyBytes ?out := None))" by (simp add: t(2))
    have fl: "disk ?cm = disk cm" "closed ?cm = closed cm" "pending ?cm = pending cm" by simp_all
    have sub: "set keys \<subseteq> dom (opened cm)" using R Some by (auto simp: t(2) split: if_splits)
    show ?thesis unfolding n f using R [unfolded d o fl] l sub by (elim conjE) (intro conjI; assumption)
  qed
qed

definition trimRun :: "ShortChannelID \<Rightarrow> u64 \<Rightarrow> circuits \<Rightarrow> CircuitKey set" where
  "trimRun chanID start m = {\<lparr>ck_ChanID = chanID, ck_HtlcID = start + word_of_nat j\<rparr> | j.
     \<forall>i \<le> j. \<exists>k e. m k = Some (e, Some \<lparr>ck_ChanID = chanID, ck_HtlcID = start + word_of_nat i\<rparr>)}"

lemma opened_circuitsOf: "mem_inv vk cm \<Longrightarrow> opened cm out \<noteq> None \<longleftrightarrow> (\<exists>k e. circuitsOf cm k = Some (e, Some out))"
  unfolding mem_inv_def circuitsOf_Some by (metis option.exhaust option.distinct(1))

lemma trimLoop_keys:
  assumes inv: "mem_inv vk cm" and k: "opened cm' = (opened cm) |` (- set keys)" "set keys \<subseteq> dom (opened cm)"
    "keys = map (\<lambda>j. \<lparr>ck_ChanID = chanID, ck_HtlcID = i + word_of_nat j\<rparr>) [0..<length keys]"
    "opened cm' \<lparr>ck_ChanID = chanID, ck_HtlcID = i + word_of_nat (length keys)\<rparr> = None"
  shows "set keys = trimRun chanID i (circuitsOf cm)"
proof -
  let ?key = "\<lambda>j. \<lparr>ck_ChanID = chanID, ck_HtlcID = i + word_of_nat j\<rparr>"
  have run: "trimRun chanID i (circuitsOf cm) = {?key j | j. \<forall>i' \<le> j. opened cm (?key i') \<noteq> None}"
    unfolding trimRun_def opened_circuitsOf [OF inv] ..
  have keys: "set keys = ?key ` {..<length keys}" by (subst k(3)) (simp add: atLeast0LessThan)
  have op: "opened cm (?key j) \<noteq> None" if "j < length keys" for j using k(2) that unfolding keys by blast
  have "?key j \<in> set keys" if "\<forall>i' \<le> j. opened cm (?key i') \<noteq> None" for j
  proof (cases "j < length keys")
    case True
    then show ?thesis unfolding keys by blast
  next
    case False
    then have "opened cm (?key (length keys)) \<noteq> None" using that by simp
    then have "?key (length keys) \<in> set keys" using k(1,4) by (auto simp: restrict_map_def split: if_splits)
    then obtain l where l: "l < length keys" "word_of_nat l = (word_of_nat (length keys) :: u64)" unfolding keys by auto
    have "?key j \<in> set keys" for j
    proof (induction j rule: less_induct)
      case (less j)
      show ?case
      proof (cases "j < length keys")
        case True
        then show ?thesis unfolding keys by blast
      next
        case False
        then have "j = (j - length keys) + length keys" by simp
        then have "word_of_nat j = (word_of_nat (j - length keys + l) :: u64)" using l(2) by (metis of_nat_add)
        moreover have "?key (j - length keys + l) \<in> set keys" using less [of "j - length keys + l"] l(1) False by simp
        ultimately show ?thesis by simp
      qed
    qed
    then show ?thesis .
  qed
  then show ?thesis unfolding run using op unfolding keys by fastforce
qed

lemma TrimOpenCircuits_inv:
  assumes inv: "cm_inv vk cm" and t: "TrimOpenCircuits True chanID start cm = (cm', err)"
  shows "cm_inv vk cm'" "circuitsOf cm' = dropKeystones (trimRun chanID start (circuitsOf cm)) (circuitsOf cm)" "err = None"
    "closed cm' = closed cm" "pending cm' = pending cm"
proof -
  have I: "mem_inv vk cm" "index_inv cm" "denotes (disk cm) (circuitsOf cm)" using inv by (simp_all add: cm_inv_def)
  obtain A K where d: "disk cm = \<lparr>circuitAddKey = Some A, circuitKeystoneKey = Some K\<rparr>" "addsRep A (circuitsOf cm)"
    "keystonesRep K (circuitsOf cm)" using I(3) by (auto simp: denotes_def)
  obtain cm1 keys where l: "trimLoop chanID start cm = (cm1, keys)" by fastforce
  note R = trimLoop_inv [OF I(1,2) l d(2,3)]
  have ks: "set keys = trimRun chanID start (circuitsOf cm)" by (rule trimLoop_keys [OF I(1)]) (use R in blast)+
  have dk: "disk cm1 = \<lparr>circuitAddKey = Some A, circuitKeystoneKey = Some K\<rparr>"
  proof -
    have "disk cm1 = disk cm" using R by blast
    then show ?thesis using d(1) by simp
  qed
  have res: "err = None \<and> cm' = cm1\<lparr>disk := \<lparr>circuitAddKey = Some A, circuitKeystoneKey = Some (fold (\<lambda>k b. b(CircuitKeyBytes k := None)) keys K)\<rparr>\<rparr>"
    using t l dk by (cases keys) (auto simp: TrimOpenCircuits_def dbUpdate_def onKeystones_def onBucket_def)
  show "err = None" using res by blast
  have c: "circuitsOf cm1 = dropKeystones (set keys) (circuitsOf cm)" using R by blast
  show "circuitsOf cm' = dropKeystones (trimRun chanID start (circuitsOf cm)) (circuitsOf cm)"
    using res c ks by simp
  have R': "mem_inv vk cm1" "index_inv cm1" "addsRep A (circuitsOf cm1)" "closed cm1 = closed cm" "pending cm1 = pending cm"
    "keystonesRep (fold (\<lambda>k b. b(CircuitKeyBytes k := None)) keys K) (circuitsOf cm1)" using R by blast+
  show "cm_inv vk cm'" unfolding cm_inv_def denotes_def using res R' by simp
  show "closed cm' = closed cm" "pending cm' = pending cm" using res R' by simp_all
qed

subsection \<open>Deleting\<close>

definition withoutCircuit :: "CircuitKey \<Rightarrow> nat \<Rightarrow> circuitMap \<Rightarrow> circuitMap" where
  "withoutCircuit k p cm =
     (let cm1 = cm\<lparr>pending := (pending cm)(k := None), closed := closed cm - {k}\<rparr>
      in if HasKeystone (heap cm p)
         then removeCircuitFromHashIndex p (cm1\<lparr>opened := (opened cm1)(OutKey (heap cm p) := None)\<rparr>)
         else cm1)"

lemma removeFromMemory_Cons:
  "removeFromMemory (k # ks) cm =
     (case pending cm k of
        None \<Rightarrow> removeFromMemory ks cm
      | Some p \<Rightarrow>
          (case removeFromMemory ks (withoutCircuit k p cm) of (cm', removed, closing) \<Rightarrow>
             (cm', (k, p) # removed, if k \<in> closed cm then insert k closing else closing)))"
  by (cases "pending cm k") (simp_all add: withoutCircuit_def Let_def)

declare removeFromMemory.simps(2) [simp del]

lemma withoutCircuit_fields [simp]:
  "heap (withoutCircuit k p cm) = heap cm" "disk (withoutCircuit k p cm) = disk cm"
  "nextPtr (withoutCircuit k p cm) = nextPtr cm" "pending (withoutCircuit k p cm) = (pending cm)(k := None)"
  "closed (withoutCircuit k p cm) = closed cm - {k}"
  "opened (withoutCircuit k p cm) = (case Outgoing (heap cm p) of None \<Rightarrow> opened cm | Some out \<Rightarrow> (opened cm)(out := None))"
  by (auto simp: withoutCircuit_def Let_def HasKeystone_def OutKey_def)

lemma hset_withoutCircuit:
  "hset (withoutCircuit k p cm) h =
     (if h = PaymentHash (heap cm p) then hset cm h - {out. Outgoing (heap cm p) = Some out} else hset cm h)"
  by (auto simp: withoutCircuit_def Let_def HasKeystone_def OutKey_def hset_remove) (auto simp: hset_def)

lemma nonempty_withoutCircuit:
  "(\<forall>h. hashIndex cm h \<noteq> Some {}) \<Longrightarrow> \<forall>h. hashIndex (withoutCircuit k p cm) h \<noteq> Some {}"
  unfolding withoutCircuit_def Let_def by (simp add: nonempty_remove)

lemma circuitsOf_delete: "circuitsOf (withoutCircuit k p cm) = (circuitsOf cm)(k := None)"
  by (rule ext) (simp add: circuitsOf_def)

lemma withoutCircuit_inv:
  assumes inv: "mem_inv vk cm" "index_inv cm" and p: "pending cm k = Some p"
  shows "mem_inv vk (withoutCircuit k p cm)" "index_inv (withoutCircuit k p cm)"
    "opened (withoutCircuit k p cm) out = Some q \<longleftrightarrow> opened cm out = Some q \<and> q \<noteq> p"
proof -
  have pk: "Incoming (heap cm p) = k" by (rule mem_invD(1) [OF inv(1) p])
  have od: "opened cm out = Some q \<longleftrightarrow> (\<exists>k. pending cm k = Some q \<and> Outgoing (heap cm q) = Some out)" for out q
    using inv(1) unfolding mem_inv_def by blast
  show op: "opened (withoutCircuit k p cm) out = Some q \<longleftrightarrow> opened cm out = Some q \<and> q \<noteq> p" for out q
  proof (cases "Outgoing (heap cm p)")
    case None
    then have "opened cm out \<noteq> Some p" using od [of out p] by simp
    then show ?thesis using None by auto
  next
    case (Some out')
    then have "opened cm out' = Some p" using od p by blast
    moreover have "opened cm out = Some p \<longleftrightarrow> out = out'" using od [of out p] p Some by auto
    ultimately show ?thesis using Some by auto
  qed
  have inj: "pending cm k' = Some p \<Longrightarrow> k' = k" for k' using pending_inj [OF inv(1) _ p] by blast
  show "mem_inv vk (withoutCircuit k p cm)"
    unfolding mem_inv_def
  proof (intro conjI allI impI)
    show "Incoming (heap (withoutCircuit k p cm) q) = k'" "wf_circuit vk (heap (withoutCircuit k p cm) q)" "q < nextPtr (withoutCircuit k p cm)"
      if "pending (withoutCircuit k p cm) k' = Some q" for k' q
      using that mem_invD(1-3) [OF inv(1)] by (auto split: if_splits)
    show "(opened (withoutCircuit k p cm) out = Some q) =
      (\<exists>k'. pending (withoutCircuit k p cm) k' = Some q \<and> Outgoing (heap (withoutCircuit k p cm) q) = Some out)" for out q
    proof
      assume "opened (withoutCircuit k p cm) out = Some q"
      then obtain k' where k': "pending cm k' = Some q" "Outgoing (heap cm q) = Some out" "q \<noteq> p" unfolding op od by blast
      then have "k' \<noteq> k" using p by auto
      then show "\<exists>k'. pending (withoutCircuit k p cm) k' = Some q \<and> Outgoing (heap (withoutCircuit k p cm) q) = Some out" using k' by auto
    next
      assume "\<exists>k'. pending (withoutCircuit k p cm) k' = Some q \<and> Outgoing (heap (withoutCircuit k p cm) q) = Some out"
      then obtain k' where k': "k' \<noteq> k" "pending cm k' = Some q" "Outgoing (heap cm q) = Some out" by (auto split: if_splits)
      then have "q \<noteq> p" using inj by blast
      then show "opened (withoutCircuit k p cm) out = Some q" unfolding op od using k' by blast
    qed
    show "wf_out out" if "opened (withoutCircuit k p cm) out = Some q" for out q
      using that mem_invD(6) [OF inv(1)] unfolding op by blast
    show "closed (withoutCircuit k p cm) \<subseteq> dom (pending (withoutCircuit k p cm))" using mem_invD(7) [OF inv(1)] by auto
  qed
  have ne: "out \<noteq> out'" if "opened cm out = Some q" "q \<noteq> p" "Outgoing (heap cm p) = Some out'" for out out' q
    using od [of out q] od [of out' p] that p by auto
  show "index_inv (withoutCircuit k p cm)" unfolding index_inv_def
  proof (intro conjI allI impI)
    show "hashIndex (withoutCircuit k p cm) h \<noteq> Some {}" for h using nonempty_withoutCircuit inv(2) unfolding index_inv_def by blast
    fix out q assume "opened (withoutCircuit k p cm) out = Some q"
    then have q: "opened cm out = Some q" "q \<noteq> p" unfolding op by blast+
    then have "out \<in> hset cm (PaymentHash (heap cm q))" using inv(2) unfolding index_inv_def by blast
    then show "out \<in> hset (withoutCircuit k p cm) (PaymentHash (heap (withoutCircuit k p cm) q))"
      unfolding hset_withoutCircuit using ne [OF q] by auto
  qed
qed

lemma addsRep_delete:
  assumes rep: "addsRep A m" and wf: "\<And>k. m k \<noteq> None \<Longrightarrow> wf_key k" and k: "wf_key k"
  shows "addsRep (A(CircuitKeyBytes k := None)) (m(k := None))"
  unfolding addsRep_def
proof (intro allI)
  fix b v
  show "(A(CircuitKeyBytes k := None)) b = Some v \<longleftrightarrow> (\<exists>k' ks'. (m(k := None)) k' = Some (v, ks') \<and> b = CircuitKeyBytes k')"
  proof (cases "b = CircuitKeyBytes k")
    case True
    have "k' = k" if "m k' = Some x" "CircuitKeyBytes k' = CircuitKeyBytes k" for k' x
      using CircuitKeyBytes_inj [OF _ k] wf that by blast
    then show ?thesis using True by (auto split: if_splits)
  next
    case False
    have "(m(k := None)) k' = Some (v, ks') \<and> b = CircuitKeyBytes k' \<longleftrightarrow> m k' = Some (v, ks') \<and> b = CircuitKeyBytes k'" for k' ks'
      using False by auto
    then show ?thesis using rep False unfolding addsRep_def by simp
  qed
qed

lemma keystonesRep_none:
  assumes "keystonesRep K m" and "m k = Some (e, None)"
  shows "keystonesRep K (m(k := None))"
proof -
  have "(m(k := None)) k' = Some (e', Some out) \<longleftrightarrow> m k' = Some (e', Some out)" for k' e' out using assms(2) by auto
  then show ?thesis using assms(1) unfolding keystonesRep_def by (simp only: simp_thms)
qed

text \<open>What removal does in memory and on disk.\<close>

lemma removeFromMemory_inv:
  assumes "mem_inv vk cm" "index_inv cm" and "removeFromMemory ks cm = (cm', removed, closing)"
    and "addsRep A (circuitsOf cm)" "keystonesRep K (circuitsOf cm)"
  shows "mem_inv vk cm' \<and> index_inv cm' \<and> circuitsOf cm' = circuitsOf cm |` (- set ks) \<and> heap cm' = heap cm \<and> disk cm' = disk cm \<and>
    nextPtr cm' = nextPtr cm \<and> closed cm' = closed cm - set ks \<and>
    (\<exists>A' K'. deleteFromDisk (map (\<lambda>x. heap cm (snd x)) removed) \<lparr>circuitAddKey = Some A, circuitKeystoneKey = Some K\<rparr> =
       Inr \<lparr>circuitAddKey = Some A', circuitKeystoneKey = Some K'\<rparr> \<and> addsRep A' (circuitsOf cm') \<and> keystonesRep K' (circuitsOf cm'))"
  using assms
proof (induction ks arbitrary: cm removed closing A K)
  case Nil
  then show ?case by auto
next
  case (Cons k ks)
  show ?case
  proof (cases "pending cm k")
    case None
    then have r: "removeFromMemory ks cm = (cm', removed, closing)" using Cons.prems(3) by (simp add: removeFromMemory_Cons)
    have e: "circuitsOf cm |` (- set ks) = circuitsOf cm |` (- set (k # ks))" "closed cm - set ks = closed cm - set (k # ks)"
      using None mem_invD(7) [OF Cons.prems(1)] circuitsOf_None [of cm k] by (auto simp: restrict_map_def fun_eq_iff)
    show ?thesis using Cons.IH [OF Cons.prems(1,2) r Cons.prems(4,5)] unfolding e .
  next
    case (Some p)
    let ?cm = "withoutCircuit k p cm" and ?m = "circuitsOf cm"
    obtain removed' closing' where r: "removeFromMemory ks ?cm = (cm', removed', closing')" "removed = (k, p) # removed'"
      using Cons.prems(3) Some by (auto simp: removeFromMemory_Cons split: prod.splits)
    note W = withoutCircuit_inv [OF Cons.prems(1,2) Some]
    have pk: "Incoming (heap cm p) = k" "wf_key k" by (rule mem_invD(1,4) [OF Cons.prems(1) Some])+
    have wf: "wf_key k'" if "?m k' \<noteq> None" for k' using that mem_invD(4) [OF Cons.prems(1), of k'] by (auto simp: circuitsOf_def)
    define K1 where "K1 = (case Outgoing (heap cm p) of None \<Rightarrow> K | Some out \<Rightarrow> K(CircuitKeyBytes out := None))"
    have A1: "addsRep (A(CircuitKeyBytes k := None)) (circuitsOf ?cm)" unfolding circuitsOf_delete
      by (rule addsRep_delete [OF Cons.prems(4) wf pk(2)])
    have mk: "?m k = Some (CircuitEncode (heap cm p), Outgoing (heap cm p))" using Some by (simp add: circuitsOf_Some)
    have K1: "keystonesRep K1 (circuitsOf ?cm)" unfolding circuitsOf_delete K1_def
      using keystonesRep_none [OF Cons.prems(5)] keystonesRep_delete(2) [OF Cons.prems(5) wf_circuitsOf [OF Cons.prems(1)]] mk
      by (cases "Outgoing (heap cm p)") auto
    have dd: "deleteFromDisk (map (\<lambda>x. heap cm (snd x)) removed) \<lparr>circuitAddKey = Some A, circuitKeystoneKey = Some K\<rparr> =
      deleteFromDisk (map (\<lambda>x. heap cm (snd x)) removed') \<lparr>circuitAddKey = Some (A(CircuitKeyBytes k := None)), circuitKeystoneKey = Some K1\<rparr>"
      by (cases "Outgoing (heap cm p)")
        (simp_all add: r(2) K1_def HasKeystone_def OutKey_def InKey_def onKeystones_def onAdds_def onBucket_def pk(1))
    have c: "circuitsOf ?cm |` (- set ks) = ?m |` (- set (k # ks))"
      unfolding circuitsOf_delete by (auto simp: restrict_map_def fun_eq_iff)
    have e: "closed ?cm - set ks = closed cm - set (k # ks)" by auto
    show ?thesis using Cons.IH [OF W(1,2) r(1) A1 K1] unfolding dd c e withoutCircuit_fields(1-3) .
  qed
qed

text \<open>The keystones of the circuits a deletion takes out of the index.\<close>

definition removedOuts :: "circuitMap \<Rightarrow> (CircuitKey \<times> nat) set \<Rightarrow> bytes \<Rightarrow> CircuitKey set" where
  "removedOuts cm R h = {out. \<exists>k p. (k, p) \<in> R \<and> Outgoing (heap cm p) = Some out \<and> PaymentHash (heap cm p) = h}"

lemma removedOuts_insert:
  "removedOuts cm (insert (k, p) R) h =
     (if h = PaymentHash (heap cm p) then {out. Outgoing (heap cm p) = Some out} \<union> removedOuts cm R h else removedOuts cm R h)"
  by (auto simp: removedOuts_def)

lemma removeFromMemory_forms:
  assumes "mem_inv vk cm" "index_inv cm" and "removeFromMemory ks cm = (cm', removed, closing)"
  shows "set removed = {(k, p). k \<in> set ks \<and> pending cm k = Some p} \<and> closing = closed cm \<inter> set ks \<and>
    pending cm' = pending cm |` (- set ks) \<and>
    (\<forall>out q. opened cm' out = Some q \<longleftrightarrow> opened cm out = Some q \<and> Incoming (heap cm q) \<notin> set ks) \<and>
    (\<forall>h. hset cm' h = hset cm h - removedOuts cm (set removed) h)"
  using assms
proof (induction ks arbitrary: cm removed closing)
  case Nil
  then show ?case by (auto simp: removedOuts_def)
next
  case (Cons k ks)
  show ?case
  proof (cases "pending cm k")
    case None
    then have r: "removeFromMemory ks cm = (cm', removed, closing)" using Cons.prems(3) by (simp add: removeFromMemory_Cons)
    have nk: "k \<notin> closed cm" using None mem_invD(7) [OF Cons.prems(1)] by blast
    have ni: "Incoming (heap cm q) \<noteq> k" if "opened cm out = Some q" for out q
      using that None mem_invD(5) [OF Cons.prems(1), of out q] by auto
    note IH = Cons.IH [OF Cons.prems(1,2) r]
    have e: "{(k', p). k' \<in> set (k # ks) \<and> pending cm k' = Some p} = {(k, p). k \<in> set ks \<and> pending cm k = Some p}"
      "closed cm \<inter> set (k # ks) = closed cm \<inter> set ks" "pending cm |` (- set (k # ks)) = pending cm |` (- set ks)"
      using None nk by (auto simp: restrict_map_def fun_eq_iff)
    show ?thesis unfolding e using IH ni by auto
  next
    case (Some p)
    let ?cm = "withoutCircuit k p cm"
    obtain removed' closing' where r: "removeFromMemory ks ?cm = (cm', removed', closing')" "removed = (k, p) # removed'"
      "closing = (if k \<in> closed cm then insert k closing' else closing')"
      using Cons.prems(3) Some by (auto simp: removeFromMemory_Cons split: prod.splits)
    note W = withoutCircuit_inv [OF Cons.prems(1,2) Some]
    note IH = Cons.IH [OF W(1,2) r(1)]
    have pk: "Incoming (heap cm p) = k" by (rule mem_invD(1) [OF Cons.prems(1) Some])
    have op: "opened cm out = Some q \<Longrightarrow> q = p \<longleftrightarrow> Incoming (heap cm q) = k" for out q
      using mem_invD(5) [OF Cons.prems(1), of out q] pk Some by auto
    have 1: "set removed = {(k', q). k' \<in> set (k # ks) \<and> pending cm k' = Some q}"
      using IH Some unfolding r(2) by (auto split: if_splits)
    have 2: "closing = closed cm \<inter> set (k # ks)" using IH unfolding r(3) by auto
    have 3: "pending cm' = pending cm |` (- set (k # ks))" using IH by (auto simp: restrict_map_def fun_eq_iff)
    have 4: "opened cm' out = Some q \<longleftrightarrow> opened cm out = Some q \<and> Incoming (heap cm q) \<notin> set (k # ks)" for out q
    proof -
      have "opened cm' out = Some q \<longleftrightarrow> opened ?cm out = Some q \<and> Incoming (heap cm q) \<notin> set ks" using IH by simp
      also have "\<dots> \<longleftrightarrow> opened cm out = Some q \<and> q \<noteq> p \<and> Incoming (heap cm q) \<notin> set ks" unfolding W(3) by blast
      finally show ?thesis using op by auto
    qed
    have 5: "hset cm' h = hset cm h - removedOuts cm (set removed) h" for h
    proof -
      have "hset cm' h = hset ?cm h - removedOuts ?cm (set removed') h" using IH by blast
      also have "removedOuts ?cm (set removed') h = removedOuts cm (set removed') h" by (simp add: removedOuts_def)
      finally show ?thesis unfolding r(2) hset_withoutCircuit list.set removedOuts_insert by auto
    qed
    show ?thesis using 1 2 3 4 5 by blast
  qed
qed

lemma restoreCircuit_fields [simp]:
  "heap (restoreCircuit cl (k, p) cm) = heap cm" "disk (restoreCircuit cl (k, p) cm) = disk cm"
  "nextPtr (restoreCircuit cl (k, p) cm) = nextPtr cm" "pending (restoreCircuit cl (k, p) cm) = (pending cm)(k \<mapsto> p)"
  "closed (restoreCircuit cl (k, p) cm) = closed cm \<union> ({k} \<inter> cl)"
  "opened (restoreCircuit cl (k, p) cm) = (case Outgoing (heap cm p) of None \<Rightarrow> opened cm | Some out \<Rightarrow> (opened cm)(out \<mapsto> p))"
  by (auto simp: restoreCircuit_def Let_def HasKeystone_def OutKey_def)

lemma hset_restoreCircuit:
  "hset (restoreCircuit cl (k, p) cm) h =
     (if h = PaymentHash (heap cm p) then {out. Outgoing (heap cm p) = Some out} \<union> hset cm h else hset cm h)"
  by (auto simp: restoreCircuit_def Let_def HasKeystone_def OutKey_def hset_add) (auto simp: hset_def)

lemma nonempty_restoreCircuit:
  "(\<forall>h. hashIndex cm h \<noteq> Some {}) \<Longrightarrow> \<forall>h. hashIndex (restoreCircuit cl (k, p) cm) h \<noteq> Some {}"
  unfolding restoreCircuit_def Let_def by (simp add: nonempty_add)

lemma restore_forms:
  assumes "\<forall>(k, p) \<in> set R. f k = Some p \<and> (\<forall>out. Outgoing (heap cm p) = Some out \<longrightarrow> g out = Some p)"
    and "\<forall>h. hashIndex cm h \<noteq> Some {}"
  shows "let cm' = fold (restoreCircuit cl) R cm in
    heap cm' = heap cm \<and> disk cm' = disk cm \<and> nextPtr cm' = nextPtr cm \<and>
    (\<forall>k. pending cm' k = (if k \<in> fst ` set R then f k else pending cm k)) \<and>
    closed cm' = closed cm \<union> (fst ` set R \<inter> cl) \<and>
    (\<forall>out. opened cm' out = (if \<exists>h. out \<in> removedOuts cm (set R) h then g out else opened cm out)) \<and>
    (\<forall>h. hset cm' h = removedOuts cm (set R) h \<union> hset cm h) \<and> (\<forall>h. hashIndex cm' h \<noteq> Some {})"
  using assms
proof (induction R arbitrary: cm)
  case Nil
  then show ?case by (simp add: removedOuts_def)
next
  case (Cons x R)
  obtain k p where x: "x = (k, p)" by fastforce
  let ?cm = "restoreCircuit cl (k, p) cm"
  have h: "removedOuts ?cm (set R) h = removedOuts cm (set R) h" for h by (simp add: removedOuts_def)
  have IH: "let cm' = fold (restoreCircuit cl) R ?cm in
    heap cm' = heap ?cm \<and> disk cm' = disk ?cm \<and> nextPtr cm' = nextPtr ?cm \<and>
    (\<forall>k. pending cm' k = (if k \<in> fst ` set R then f k else pending ?cm k)) \<and>
    closed cm' = closed ?cm \<union> (fst ` set R \<inter> cl) \<and>
    (\<forall>out. opened cm' out = (if \<exists>h. out \<in> removedOuts ?cm (set R) h then g out else opened ?cm out)) \<and>
    (\<forall>h. hset cm' h = removedOuts ?cm (set R) h \<union> hset ?cm h) \<and> (\<forall>h. hashIndex cm' h \<noteq> Some {})"
    by (rule Cons.IH) (use Cons.prems nonempty_restoreCircuit in \<open>auto simp: x\<close>)
  have f: "f k = Some p" "Outgoing (heap cm p) = Some out \<Longrightarrow> g out = Some p" for out using Cons.prems(1) by (auto simp: x)
  have ro: "removedOuts cm (set ((k, p) # R)) h = (if h = PaymentHash (heap cm p) then {out. Outgoing (heap cm p) = Some out} \<union> removedOuts cm (set R) h
     else removedOuts cm (set R) h)" for h unfolding list.set by (rule removedOuts_insert)
  have ex: "(\<exists>h. out \<in> removedOuts cm (set ((k, p) # R)) h) \<longleftrightarrow> Outgoing (heap cm p) = Some out \<or> (\<exists>h. out \<in> removedOuts cm (set R) h)" for out
    by (auto simp: removedOuts_def)
  show ?case unfolding x fold.simps comp_def Let_def
  proof (intro conjI allI)
    let ?cm' = "fold (restoreCircuit cl) R ?cm"
    show "heap ?cm' = heap cm" "disk ?cm' = disk cm" "nextPtr ?cm' = nextPtr cm" "hashIndex ?cm' h \<noteq> Some {}" for h
      using IH by (simp_all add: Let_def)
    show "pending ?cm' k' = (if k' \<in> fst ` set ((k, p) # R) then f k' else pending cm k')" for k' using IH f(1) by (auto simp: Let_def)
    show "closed ?cm' = closed cm \<union> (fst ` set ((k, p) # R) \<inter> cl)" using IH by (auto simp: Let_def)
    show "opened ?cm' out = (if \<exists>h. out \<in> removedOuts cm (set ((k, p) # R)) h then g out else opened cm out)" for out
      using IH f(2) [of out] unfolding ex Let_def h by (auto split: option.splits)
    show "hset ?cm' h = removedOuts cm (set ((k, p) # R)) h \<union> hset cm h" for h
      using IH unfolding ro Let_def removedOuts_def hset_restoreCircuit by auto
  qed
qed

lemma DeleteCircuits_inv:
  assumes inv: "cm_inv vk cm" and c: "DeleteCircuits dbOk ks cm = (cm', err)"
  shows "cm_inv vk cm'" "circuitsOf cm' = (if err = None then circuitsOf cm |` (- set ks) else circuitsOf cm)"
    "closed cm' = (if err = None then closed cm - set ks else closed cm)" "err \<noteq> None \<Longrightarrow> cm' = cm"
proof -
  have I: "mem_inv vk cm" "index_inv cm" "denotes (disk cm) (circuitsOf cm)" using inv by (simp_all add: cm_inv_def)
  obtain A K where d: "disk cm = \<lparr>circuitAddKey = Some A, circuitKeystoneKey = Some K\<rparr>" "addsRep A (circuitsOf cm)"
    "keystonesRep K (circuitsOf cm)" using I(3) by (auto simp: denotes_def)
  obtain cm1 removed closing where r: "removeFromMemory ks cm = (cm1, removed, closing)" by (metis prod_cases3)
  note R = removeFromMemory_inv [OF I(1,2) r d(2,3)] and F = removeFromMemory_forms [OF I(1,2) r]
  obtain A' K' where D: "deleteFromDisk (map (\<lambda>x. heap cm (snd x)) removed) (disk cm) = Inr \<lparr>circuitAddKey = Some A', circuitKeystoneKey = Some K'\<rparr>"
    "addsRep A' (circuitsOf cm1)" "keystonesRep K' (circuitsOf cm1)" using R unfolding d(1) by blast
  have h1: "heap cm1 = heap cm" "disk cm1 = disk cm" using R by blast+
  have res: "(cm', err) = (if dbOk then (cm1\<lparr>disk := \<lparr>circuitAddKey = Some A', circuitKeystoneKey = Some K'\<rparr>\<rparr>, None)
      else (fold (restoreCircuit closing) removed (cm1\<lparr>disk := disk cm\<rparr>), Some ErrDatabase))"
    using c r D(1) by (cases dbOk) (simp_all add: DeleteCircuits_def dbUpdate_def h1)
  have undo: "fold (restoreCircuit closing) removed (cm1\<lparr>disk := disk cm\<rparr>) = cm"
  proof -
    have same: "cm1\<lparr>disk := disk cm\<rparr> = cm1" by (simp add: h1(2) [symmetric])
    let ?cm = "fold (restoreCircuit closing) removed cm1"
    have rs: "set removed = {(k, p). k \<in> set ks \<and> pending cm k = Some p}" using F by (rule conjunct1)
    have FO: "opened cm1 out = Some q \<longleftrightarrow> opened cm out = Some q \<and> Incoming (heap cm q) \<notin> set ks" for out q
      using F by (elim conjE) (simp only:)
    have op: "opened cm out = Some p" if "(k, p) \<in> set removed" "Outgoing (heap cm p) = Some out" for k p out
      using that I(1) unfolding rs mem_inv_def by blast
    have ne: "\<forall>h. hashIndex cm1 h \<noteq> Some {}" using R unfolding index_inv_def by blast
    have "let cm' = ?cm in heap cm' = heap cm1 \<and> disk cm' = disk cm1 \<and> nextPtr cm' = nextPtr cm1 \<and>
      (\<forall>k. pending cm' k = (if k \<in> fst ` set removed then pending cm k else pending cm1 k)) \<and>
      closed cm' = closed cm1 \<union> (fst ` set removed \<inter> closing) \<and>
      (\<forall>out. opened cm' out = (if \<exists>h. out \<in> removedOuts cm1 (set removed) h then opened cm out else opened cm1 out)) \<and>
      (\<forall>h. hset cm' h = removedOuts cm1 (set removed) h \<union> hset cm1 h) \<and> (\<forall>h. hashIndex cm' h \<noteq> Some {})"
      by (rule restore_forms [OF _ ne]) (use op in \<open>auto simp: h1 rs\<close>)
    then have Q: "heap ?cm = heap cm" "disk ?cm = disk cm" "nextPtr ?cm = nextPtr cm"
      "\<And>k. pending ?cm k = (if k \<in> fst ` set removed then pending cm k else pending cm1 k)"
      "closed ?cm = closed cm1 \<union> (fst ` set removed \<inter> closing)"
      "\<And>out. opened ?cm out = (if \<exists>h. out \<in> removedOuts cm (set removed) h then opened cm out else opened cm1 out)"
      "\<And>h. hset ?cm h = removedOuts cm (set removed) h \<union> hset cm1 h" "\<forall>h. hashIndex ?cm h \<noteq> Some {}"
      using h1 R unfolding Let_def removedOuts_def by simp_all
    have p: "pending ?cm = pending cm"
    proof
      fix k show "pending ?cm k = pending cm k"
        using F unfolding Q(4) rs by (cases "pending cm k") (auto simp: restrict_map_def image_iff)
    qed
    have cl: "closed ?cm = closed cm" using F R mem_invD(7) [OF I(1)] unfolding Q(5) rs by (auto simp: image_iff)
    have o: "opened ?cm = opened cm"
    proof
      fix out show "opened ?cm out = opened cm out"
      proof (cases "\<exists>h. out \<in> removedOuts cm (set removed) h")
        case False
        have "opened cm1 out = opened cm out"
        proof (cases "opened cm out")
          case None
          have "opened cm1 out \<noteq> Some q" for q using FO [of out q] None by simp
          then show ?thesis using None by (cases "opened cm1 out") auto
        next
          case (Some q)
          have "Incoming (heap cm q) \<notin> set ks"
          proof
            assume "Incoming (heap cm q) \<in> set ks"
            then have "(Incoming (heap cm q), q) \<in> set removed" "Outgoing (heap cm q) = Some out"
              using Some mem_invD(5) [OF I(1), of out q] by (simp_all add: rs)
            then have "out \<in> removedOuts cm (set removed) (PaymentHash (heap cm q))" unfolding removedOuts_def by blast
            then show False using False by blast
          qed
          then show ?thesis using FO [of out q] Some by simp
        qed
        then show ?thesis unfolding Q(6) using False by simp
      qed (simp add: Q(6))
    qed
    have hs: "hset ?cm h = hset cm h" for h
    proof -
      have "removedOuts cm (set removed) h \<subseteq> hset cm h"
        using op I(2) unfolding removedOuts_def index_inv_def by blast
      moreover have "hset cm1 h = hset cm h - removedOuts cm (set removed) h" using F by blast
      ultimately show ?thesis unfolding Q(7) by blast
    qed
    have "hashIndex ?cm = hashIndex cm" by (rule hashIndex_eqI [OF Q(8) _ hs]) (use I(2) in \<open>simp add: index_inv_def\<close>)
    then show ?thesis unfolding same using p cl o Q(1-3) by (cases ?cm; cases cm) simp
  qed
  have R': "mem_inv vk cm1" "index_inv cm1" "circuitsOf cm1 = circuitsOf cm |` (- set ks)" "closed cm1 = closed cm - set ks"
    using R by simp_all
  have i1: "cm_inv vk (cm1\<lparr>disk := \<lparr>circuitAddKey = Some A', circuitKeystoneKey = Some K'\<rparr>\<rparr>)"
    unfolding cm_inv_def denotes_def using R'(1,2) D(2,3) by simp
  consider "cm' = cm1\<lparr>disk := \<lparr>circuitAddKey = Some A', circuitKeystoneKey = Some K'\<rparr>\<rparr>" "err = None" | "cm' = cm" "err = Some ErrDatabase"
    using res unfolding undo by (cases dbOk) simp_all
  then have "cm_inv vk cm' \<and> circuitsOf cm' = (if err = None then circuitsOf cm |` (- set ks) else circuitsOf cm) \<and>
    closed cm' = (if err = None then closed cm - set ks else closed cm) \<and> (err \<noteq> None \<longrightarrow> cm' = cm)"
  proof cases
    case 1
    then show ?thesis using i1 R'(3,4) by simp
  next
    case 2
    then show ?thesis using inv by simp
  qed
  then show "cm_inv vk cm'" "circuitsOf cm' = (if err = None then circuitsOf cm |` (- set ks) else circuitsOf cm)"
    "closed cm' = (if err = None then closed cm - set ks else closed cm)" "err \<noteq> None \<Longrightarrow> cm' = cm" by blast+
qed

subsection \<open>Starting up\<close>

text \<open>The database iterates every key of a bucket once.\<close>

definition iterates :: "cmEnv \<Rightarrow> bool" where
  "iterates env \<longleftrightarrow> (\<forall>b. finite (dom b) \<longrightarrow> distinct (addOrder env b) \<and> set (addOrder env b) = dom b \<and>
     distinct (keystoneOrder env b) \<and> set (keystoneOrder env b) = dom b)"

lemma bucketEntries_spec:
  assumes "distinct ord" and "set ord = dom b"
  shows "set (bucketEntries ord b) = {(k, v). b k = Some v}" "distinct (map fst (bucketEntries ord b))"
proof -
  show "set (bucketEntries ord b) = {(k, v). b k = Some v}" using assms(2)
    by (auto simp: bucketEntries_def split: option.splits)
  have "map fst (bucketEntries xs b) = filter (\<lambda>k. b k \<noteq> None) xs" for xs
    by (induction xs) (auto simp: bucketEntries_def split: option.split)
  then show "distinct (map fst (bucketEntries ord b))" using assms(1) by simp
qed

lemma addsRep_dom: "addsRep A m \<Longrightarrow> dom A = CircuitKeyBytes ` dom m"
  unfolding addsRep_def dom_def by (auto simp: image_iff)

lemma keystonesRep_finite:
  assumes "keystonesRep K m" and "finite (dom m)"
  shows "finite (dom K)"
proof -
  have "dom K \<subseteq> (\<lambda>k. case m k of Some (e, Some out) \<Rightarrow> CircuitKeyBytes out | _ \<Rightarrow> []) ` dom m"
  proof
    fix b assume "b \<in> dom K"
    then obtain k e out where "m k = Some (e, Some out)" "b = CircuitKeyBytes out" using assms(1) unfolding keystonesRep_def by blast
    then show "b \<in> (\<lambda>k. case m k of Some (e, Some out) \<Rightarrow> CircuitKeyBytes out | _ \<Rightarrow> []) ` dom m" by (intro image_eqI [of _ _ k]) auto
  qed
  then show ?thesis using assms(2) finite_subset finite_imageI by blast
qed

lemma decodeCircuit_stored:
  assumes "wf_circuit vk c" and "decodeCircuit vk ex (CircuitEncode c) = Inr c'"
  shows "Incoming c' = Incoming c" "CircuitEncode c' = CircuitEncode c" "Outgoing c' = None" "wf_circuit vk c'"
proof -
  have d: "CircuitDecode vk (CircuitEncode c) = Inr (stored c, [])" using CircuitDecode_Encode [OF assms(1), of "[]"] by simp
  have e: "pc_Encrypter (stored c) = map_option stripEncrypter (pc_Encrypter c)" "Incoming (stored c) = Incoming c" "Outgoing (stored c) = None"
    by (simp_all add: stored_def)
  have enc: "CircuitEncode (stored c) = CircuitEncode c" "wf_circuit vk (stored c)"
    using assms(1) by (cases "pc_Encrypter c"; cases "the (pc_Encrypter c)"; simp add: stored_def CircuitEncode_def wf_circuit_def)+
  have "Incoming c' = Incoming c \<and> CircuitEncode c' = CircuitEncode c \<and> Outgoing c' = None \<and> wf_circuit vk c'"
  proof (cases "pc_Encrypter c")
    case None
    then have "c' = stored c" using assms(2) e(1) by (simp add: decodeCircuit_def d)
    then show ?thesis using e enc by simp
  next
    case (Some x)
    then obtain x' where x: "Reextract ex (stripEncrypter x) = Inr x'" "c' = (stored c)\<lparr>pc_Encrypter := Some x'\<rparr>"
      using assms(2) e(1) by (auto simp: decodeCircuit_def d bindR_Inr_iff)
    have "EncrypterType x' = EncrypterType x \<and> EncrypterEncode x' = EncrypterEncode x \<and> (wf_encrypter vk x' = wf_encrypter vk x)"
      using x(1) by (cases x) (auto split: prod.splits if_splits ErrorEncrypter.splits)
    then show ?thesis using Some assms(1) unfolding x(2) by (simp add: stored_def CircuitEncode_def wf_circuit_def)
  qed
  then show "Incoming c' = Incoming c" "CircuitEncode c' = CircuitEncode c" "Outgoing c' = None" "wf_circuit vk c'" by blast+
qed

text \<open>What the entries of the two buckets are.\<close>

lemma adds_entry:
  assumes "addsRep A m" and "wf_circuits vk m" and "A b = Some v"
  shows "\<exists>c. wf_circuit vk c \<and> b = CircuitKeyBytes (Incoming c) \<and> v = CircuitEncode c \<and> m (Incoming c) \<noteq> None"
proof -
  obtain k ks where k: "m k = Some (v, ks)" "b = CircuitKeyBytes k" using assms(1,3) unfolding addsRep_def by blast
  then obtain c where "wf_circuit vk c" "Incoming c = k" "v = CircuitEncode c" using assms(2) unfolding wf_circuits_def by blast
  then show ?thesis using k by auto
qed

lemma wf_circuits_key: "wf_circuits vk m \<Longrightarrow> m k = Some (e, ks) \<Longrightarrow> wf_key k"
  unfolding wf_circuits_def wf_circuit_def by blast

subsubsection \<open>Closed channels\<close>

definition inClosed :: "ShortChannelID set \<Rightarrow> circuits \<Rightarrow> CircuitKey set" where
  "inClosed ids m = {k. \<exists>e ks. m k = Some (e, ks) \<and>
     (isClosedChannel ids (ck_ChanID k) \<or> (\<exists>out. ks = Some out \<and> isClosedChannel ids (ck_ChanID out)))}"

lemma closedCircuits_spec:
  assumes "closedCircuits env ids es = Inr keys"
    and "\<forall>(b, v) \<in> set es. \<exists>c. wf_circuit (validKey env) c \<and> b = CircuitKeyBytes (Incoming c) \<and> v = CircuitEncode c"
  shows "set keys = {k. wf_key k \<and> CircuitKeyBytes k \<in> fst ` set es \<and> isClosedChannel ids (ck_ChanID k)}"
  using assms
proof (induction env ids es arbitrary: keys rule: closedCircuits.induct)
  case (2 env ids b v es)
  obtain c where c: "wf_circuit (validKey env) c" "b = CircuitKeyBytes (Incoming c)" "v = CircuitEncode c" using 2(3) by auto
  obtain c' keys' where d: "decodeCircuit (validKey env) (ExtractErrorEncrypter env) v = Inr c'" "closedCircuits env ids es = Inr keys'"
    "keys = (if isClosedChannel ids (ck_ChanID (Incoming c')) then Incoming c' # keys' else keys')"
    using 2(2) by (auto simp: bindR_Inr_iff)
  have i: "Incoming c' = Incoming c" using decodeCircuit_stored(1) [OF c(1)] d(1) c(3) by blast
  have wk: "wf_key (Incoming c)" using c(1) by (simp add: wf_circuit_def)
  have IH: "set keys' = {k. wf_key k \<and> CircuitKeyBytes k \<in> fst ` set es \<and> isClosedChannel ids (ck_ChanID k)}"
    using 2 d(2) by auto
  have "CircuitKeyBytes k \<in> fst ` set ((b, v) # es) \<longleftrightarrow> k = Incoming c \<or> CircuitKeyBytes k \<in> fst ` set es" if "wf_key k" for k
    using CircuitKeyBytes_inj [OF that wk] by (auto simp: c(2))
  then show ?case unfolding d(3) i using IH wk by auto
qed simp

definition closedPair :: "ShortChannelID set \<Rightarrow> (bytes \<times> bytes) list \<Rightarrow> CircuitKey \<Rightarrow> CircuitKey \<Rightarrow> bool" where
  "closedPair ids es k out \<longleftrightarrow> wf_key k \<and> wf_key out \<and> (CircuitKeyBytes out, CircuitKeyBytes k) \<in> set es \<and>
     (isClosedChannel ids (ck_ChanID k) \<or> isClosedChannel ids (ck_ChanID out))"

lemma closedPair_Cons:
  assumes "wf_key k" "wf_key out"
  shows "closedPair ids ((CircuitKeyBytes out, CircuitKeyBytes k) # es) k' out' \<longleftrightarrow>
    k' = k \<and> out' = out \<and> (isClosedChannel ids (ck_ChanID k) \<or> isClosedChannel ids (ck_ChanID out)) \<or> closedPair ids es k' out'"
  using CircuitKeyBytes_inj [OF _ assms(1), of k'] CircuitKeyBytes_inj [OF _ assms(2), of out'] assms unfolding closedPair_def by auto

lemma closedKeystones_spec:
  assumes "closedKeystones ids es = Inr (inKeys, outKeys)"
    and "\<forall>(b, v) \<in> set es. \<exists>k out. wf_key k \<and> wf_key out \<and> b = CircuitKeyBytes out \<and> v = CircuitKeyBytes k"
  shows "set inKeys = {k. \<exists>out. closedPair ids es k out} \<and> set outKeys = {out. \<exists>k. closedPair ids es k out}"
  using assms
proof (induction ids es arbitrary: inKeys outKeys rule: closedKeystones.induct)
  case (1 ids)
  then show ?case by (simp add: closedPair_def)
next
  case (2 ids b v es)
  obtain k out where k: "wf_key k" "wf_key out" "b = CircuitKeyBytes out" "v = CircuitKeyBytes k" using 2(3) by auto
  obtain ik ok where r: "closedKeystones ids es = Inr (ik, ok)"
    "(inKeys, outKeys) = (if isClosedChannel ids (ck_ChanID k) \<or> isClosedChannel ids (ck_ChanID out) then (k # ik, out # ok) else (ik, ok))"
    using 2(2) k by (auto simp: bindR_Inr_iff split: if_splits)
  have IH: "set ik = {k. \<exists>out. closedPair ids es k out}" "set ok = {out. \<exists>k. closedPair ids es k out}"
    using 2(1) [OF r(1)] 2(3) by auto
  show ?case
  proof (cases "isClosedChannel ids (ck_ChanID k) \<or> isClosedChannel ids (ck_ChanID out)")
    case True
    then have e: "inKeys = k # ik" "outKeys = out # ok" using r(2) by simp_all
    show ?thesis unfolding e k(3,4) closedPair_Cons [OF k(1,2)] using True IH by auto
  next
    case False
    then have e: "inKeys = ik" "outKeys = ok" using r(2) by simp_all
    show ?thesis unfolding e k(3,4) closedPair_Cons [OF k(1,2)] using False IH by auto
  qed
qed

lemma addsRep_deletes:
  assumes "addsRep A m" and "wf_circuits vk m" and "\<And>k. k \<in> set keys \<Longrightarrow> wf_key k"
  shows "addsRep (deleteKeys keys A) (m |` (- set keys))"
  unfolding addsRep_def deleteKeys_def fold_delete
proof (intro allI)
  fix b v
  have "k' = k" if "m k = Some (v, ks)" "k' \<in> set keys" "CircuitKeyBytes k' = CircuitKeyBytes k" for k k' ks
    using CircuitKeyBytes_inj [OF wf_circuits_key [OF assms(2) that(1)], of k'] assms(3) [OF that(2)] that(3) by simp
  then show "(if b \<in> CircuitKeyBytes ` set keys then None else A b) = Some v \<longleftrightarrow>
    (\<exists>k ks. (m |` (- set keys)) k = Some (v, ks) \<and> b = CircuitKeyBytes k)"
    using assms(1) unfolding addsRep_def by (auto simp: restrict_map_def split: if_splits)
qed

lemma keystones_entry:
  assumes "keystonesRep K m" and "wf_circuits vk m" and "K b = Some v"
  shows "\<exists>k out e. m k = Some (e, Some out) \<and> wf_key k \<and> wf_out out \<and> b = CircuitKeyBytes out \<and> v = CircuitKeyBytes k"
proof -
  obtain k e out where k: "m k = Some (e, Some out)" "b = CircuitKeyBytes out" "v = CircuitKeyBytes k"
    using assms(1,3) unfolding keystonesRep_def by blast
  moreover have "wf_out out" using assms(2) k(1) unfolding wf_circuits_def by blast
  ultimately show ?thesis using wf_circuits_key [OF assms(2) k(1)] by blast
qed

lemma keystones_iff:
  assumes "keystonesRep K m" and "wf_circuits vk m" and "wf_key k" and "wf_key out"
  shows "K (CircuitKeyBytes out) = Some (CircuitKeyBytes k) \<longleftrightarrow> (\<exists>e. m k = Some (e, Some out))"
proof
  assume "K (CircuitKeyBytes out) = Some (CircuitKeyBytes k)"
  then obtain k' e out' where k: "m k' = Some (e, Some out')" "CircuitKeyBytes out = CircuitKeyBytes out'" "CircuitKeyBytes k = CircuitKeyBytes k'"
    "wf_key k'" "wf_out out'" using keystones_entry [OF assms(1,2)] by blast
  then have "k' = k" "out' = out" using CircuitKeyBytes_inj [OF assms(3), of k'] CircuitKeyBytes_inj [OF assms(4), of out'] by auto
  then show "\<exists>e. m k = Some (e, Some out)" using k(1) by blast
next
  assume "\<exists>e. m k = Some (e, Some out)"
  then show "K (CircuitKeyBytes out) = Some (CircuitKeyBytes k)" using assms(1) unfolding keystonesRep_def by blast
qed

lemma keystonesRep_deletes:
  assumes rep: "keystonesRep K m" and wf: "wf_circuits vk m" and D: "D \<subseteq> dom m"
    and keys: "set keys = {out. \<exists>k e. k \<in> D \<and> m k = Some (e, Some out)}"
  shows "keystonesRep (deleteKeys keys K) (m |` (- D))"
  unfolding keystonesRep_def deleteKeys_def fold_delete
proof (intro allI)
  fix b v
  have wo: "wf_key out" if "m k = Some (e, Some out)" for k e out using wf that unfolding wf_circuits_def by blast
  have in_D: "k \<in> D" if mk: "m k = Some (e, Some out)" and ok: "CircuitKeyBytes out \<in> CircuitKeyBytes ` set keys" for k e out
  proof -
    obtain out' where o: "out' \<in> set keys" "CircuitKeyBytes out = CircuitKeyBytes out'" using ok by blast
    then obtain k' e' where k': "k' \<in> D" "m k' = Some (e', Some out')" using keys by blast
    have "out = out'" using CircuitKeyBytes_inj [OF wo [OF mk] wo [OF k'(2)]] o(2) by simp
    then have "k = k'" using wf mk k'(2) unfolding wf_circuits_def by blast
    then show ?thesis using k'(1) by simp
  qed
  have out_in: "CircuitKeyBytes out \<in> CircuitKeyBytes ` set keys" if "m k = Some (e, Some out)" "k \<in> D" for k e out
    using that keys by blast
  have "(m |` (- D)) k = Some (e, Some out) \<longleftrightarrow> m k = Some (e, Some out) \<and> CircuitKeyBytes out \<notin> CircuitKeyBytes ` set keys" for k e out
    using in_D out_in by (auto simp: restrict_map_def)
  then show "(if b \<in> CircuitKeyBytes ` set keys then None else K b) = Some v \<longleftrightarrow>
    (\<exists>k e out. (m |` (- D)) k = Some (e, Some out) \<and> b = CircuitKeyBytes out \<and> v = CircuitKeyBytes k)"
    using rep unfolding keystonesRep_def by (cases "b \<in> CircuitKeyBytes ` set keys") (simp only: if_True option.distinct simp_thms, blast, simp only: if_False, blast)
qed

lemma wf_circuits_restrict: "wf_circuits vk m \<Longrightarrow> wf_circuits vk (m |` S)"
  unfolding wf_circuits_def by (auto simp: restrict_map_def)

definition closedIDs :: "cmEnv \<Rightarrow> ShortChannelID set" where
  "closedIDs env = (case FetchClosedChannels env of None \<Rightarrow> {} | Some cs \<Rightarrow> cs_ShortChanID ` set (filter (\<lambda>c. \<not> cs_IsPending c) cs))"

lemma entries_of:
  assumes it: "iterates env" and rep: "addsRep A m" "keystonesRep K m" and fin: "finite (dom m)"
  shows "set (bucketEntries (addOrder env A) A) = {(b, v). A b = Some v}" "distinct (map fst (bucketEntries (addOrder env A) A))"
    "set (bucketEntries (keystoneOrder env K) K) = {(b, v). K b = Some v}" "distinct (map fst (bucketEntries (keystoneOrder env K) K))"
proof -
  have "finite (dom A)" "finite (dom K)" using addsRep_dom [OF rep(1)] keystonesRep_finite [OF rep(2)] fin by simp_all
  then have o: "distinct (addOrder env A)" "set (addOrder env A) = dom A" "distinct (keystoneOrder env K)" "set (keystoneOrder env K) = dom K"
    using it [unfolded iterates_def, rule_format, of A] it [unfolded iterates_def, rule_format, of K] by simp_all
  show "set (bucketEntries (addOrder env A) A) = {(b, v). A b = Some v}" "distinct (map fst (bucketEntries (addOrder env A) A))"
    by (rule bucketEntries_spec [OF o(1,2)])+
  show "set (bucketEntries (keystoneOrder env K) K) = {(b, v). K b = Some v}" "distinct (map fst (bucketEntries (keystoneOrder env K) K))"
    by (rule bucketEntries_spec [OF o(3,4)])+
qed

lemma isClosed_none [simp]: "\<not> isClosedChannel {} c"
  by (simp add: isClosedChannel_def)

lemma cleanClosedChannels_spec:
  assumes den: "denotes d m" and wf: "wf_circuits (validKey env) m" and it: "iterates env" and fin: "finite (dom m)"
    and c: "cleanClosedChannels env d = (d', None)"
  shows "denotes d' (m |` (- inClosed (closedIDs env) m))"
proof -
  obtain A K where d: "d = \<lparr>circuitAddKey = Some A, circuitKeystoneKey = Some K\<rparr>" "addsRep A m" "keystonesRep K m"
    using den by (auto simp: denotes_def)
  obtain cs where cs: "FetchClosedChannels env = Some cs" using c by (cases "FetchClosedChannels env") (auto simp: cleanClosedChannels_def)
  let ?ids = "closedIDs env"
  have ids: "cs_ShortChanID ` set (filter (\<lambda>c. \<not> cs_IsPending c) cs) = ?ids" by (simp add: closedIDs_def cs)
  show ?thesis
  proof (cases "?ids = {}")
    case True
    then have "d' = d" using c unfolding cleanClosedChannels_def cs option.case Let_def ids by simp
    moreover have "inClosed ?ids m = {}" unfolding True by (simp add: inClosed_def)
    then have "m |` (- inClosed ?ids m) = m" by (simp add: restrict_map_def)
    ultimately show ?thesis using den by simp
  next
    case False
    note E = entries_of [OF it d(2,3) fin]
    let ?as = "bucketEntries (addOrder env A) A" and ?ks = "bucketEntries (keystoneOrder env K) K"
    obtain ik1 ik2 ok where r: "closedCircuits env ?ids ?as = Inr ik1" "closedKeystones ?ids ?ks = Inr (ik2, ok)"
      using c False unfolding cleanClosedChannels_def cs option.case Let_def ids d(1)
      by (cases "closedCircuits env ?ids ?as"; cases "closedKeystones ?ids ?ks") auto
    have d': "d' = \<lparr>circuitAddKey = Some (deleteKeys (ik1 @ ik2) A), circuitKeystoneKey = Some (deleteKeys ok K)\<rparr>"
      using c False unfolding cleanClosedChannels_def cs option.case Let_def ids d(1)
      by (auto simp: r dbUpdate_def onAdds_def onKeystones_def onBucket_def split: if_splits)
    have as: "\<forall>(b, v) \<in> set ?as. \<exists>c. wf_circuit (validKey env) c \<and> b = CircuitKeyBytes (Incoming c) \<and> v = CircuitEncode c"
      using adds_entry [OF d(2) wf] unfolding E by blast
    have ks: "\<forall>(b, v) \<in> set ?ks. \<exists>k out. wf_key k \<and> wf_key out \<and> b = CircuitKeyBytes out \<and> v = CircuitKeyBytes k"
      using keystones_entry [OF d(3) wf] unfolding E by blast
    have s1: "set ik1 = {k. wf_key k \<and> m k \<noteq> None \<and> isClosedChannel ?ids (ck_ChanID k)}"
    proof -
      have "CircuitKeyBytes k \<in> fst ` set ?as \<longleftrightarrow> m k \<noteq> None" if wk: "wf_key k" for k
      proof -
        have "fst ` set ?as = dom A" unfolding E by force
        also have "\<dots> = CircuitKeyBytes ` dom m" by (rule addsRep_dom [OF d(2)])
        finally have f: "fst ` set ?as = CircuitKeyBytes ` dom m" .
        have "k' = k" if "k' \<in> dom m" "CircuitKeyBytes k = CircuitKeyBytes k'" for k'
          using CircuitKeyBytes_inj [OF wk, of k'] wf_circuits_key [OF wf, of k'] that by (auto simp: dom_def)
        then show ?thesis unfolding f by blast
      qed
      then show ?thesis unfolding closedCircuits_spec [OF r(1) as] by auto
    qed
    have cp: "closedPair ?ids ?ks k out \<longleftrightarrow> (\<exists>e. m k = Some (e, Some out)) \<and> (isClosedChannel ?ids (ck_ChanID k) \<or> isClosedChannel ?ids (ck_ChanID out))" for k out
    proof (cases "wf_key k \<and> wf_key out")
      case True
      then show ?thesis unfolding closedPair_def E using keystones_iff [OF d(3) wf] by auto
    next
      case False
      then show ?thesis using wf_circuits_key [OF wf, of k] wf unfolding closedPair_def wf_circuits_def by blast
    qed
    note s2 = closedKeystones_spec [OF r(2) ks, unfolded cp]
    have D: "inClosed ?ids m = set (ik1 @ ik2)"
    proof -
      have "wf_key k" if "m k = Some (e, x)" for k e x using wf_circuits_key [OF wf that] .
      then show ?thesis using s1 s2 unfolding inClosed_def by fastforce
    qed
    have "addsRep (deleteKeys (ik1 @ ik2) A) (m |` (- inClosed ?ids m))" unfolding D
    proof (rule addsRep_deletes [OF d(2) wf])
      show "wf_key k" if "k \<in> set (ik1 @ ik2)" for k using that wf_circuits_key [OF wf] unfolding D [symmetric] inClosed_def by blast
    qed
    moreover have "keystonesRep (deleteKeys ok K) (m |` (- inClosed ?ids m))"
    proof (rule keystonesRep_deletes [OF d(3) wf])
      show "inClosed ?ids m \<subseteq> dom m" unfolding inClosed_def by blast
      show "set ok = {out. \<exists>k e. k \<in> inClosed ?ids m \<and> m k = Some (e, Some out)}"
        using s2 unfolding inClosed_def by auto
    qed
    ultimately show ?thesis unfolding d' denotes_def by blast
  qed
qed

subsubsection \<open>Reading the disk back\<close>

definition withPending :: "PaymentCircuit \<Rightarrow> circuitMap \<Rightarrow> circuitMap" where
  "withPending c cm = cm\<lparr>heap := (heap cm)(nextPtr cm := c), nextPtr := nextPtr cm + 1,
     pending := (pending cm)(Incoming c \<mapsto> nextPtr cm)\<rparr>"

lemma withPending_fields [simp]:
  "pending (withPending c cm) = (pending cm)(Incoming c \<mapsto> nextPtr cm)" "opened (withPending c cm) = opened cm"
  "heap (withPending c cm) = (heap cm)(nextPtr cm := c)" "closed (withPending c cm) = closed cm"
  "disk (withPending c cm) = disk cm" "nextPtr (withPending c cm) = nextPtr cm + 1" "hashIndex (withPending c cm) = hashIndex cm"
  by (simp_all add: withPending_def)

lemma withPending_inv:
  assumes inv: "mem_inv vk cm" and c: "wf_circuit vk c" "Outgoing c = None" "pending cm (Incoming c) = None"
  shows "mem_inv vk (withPending c cm)"
    and "circuitsOf (withPending c cm) = (circuitsOf cm)(Incoming c \<mapsto> (CircuitEncode c, None))"
proof -
  have lt: "p < nextPtr cm" if "pending cm k = Some p" for k p using mem_invD(3) [OF inv that] .
  have od: "opened cm out = Some q \<longleftrightarrow> (\<exists>k. pending cm k = Some q \<and> Outgoing (heap cm q) = Some out)" for out q
    using inv unfolding mem_inv_def by blast
  show "mem_inv vk (withPending c cm)"
    unfolding mem_inv_def
  proof (intro conjI allI impI)
    show "Incoming (heap (withPending c cm) q) = k'" "wf_circuit vk (heap (withPending c cm) q)" "q < nextPtr (withPending c cm)"
      if "pending (withPending c cm) k' = Some q" for k' q
      using that mem_invD(1-3) [OF inv, of k' q] c by (auto split: if_splits)
    show "(opened (withPending c cm) out = Some q) =
      (\<exists>k. pending (withPending c cm) k = Some q \<and> Outgoing (heap (withPending c cm) q) = Some out)" for out q
    proof (cases "q = nextPtr cm")
      case True
      have "\<not> (\<exists>k. pending cm k = Some (nextPtr cm))" using lt by blast
      then show ?thesis using True od [of out q] c(2) by simp
    next
      case False
      then have "pending (withPending c cm) k = Some q \<longleftrightarrow> pending cm k = Some q" for k using c(3) by auto
      then show ?thesis using False od [of out q] by simp
    qed
    show "wf_out out" if "opened (withPending c cm) out = Some q" for out q
      using that mem_invD(6) [OF inv, of out q] by simp
    show "closed (withPending c cm) \<subseteq> dom (pending (withPending c cm))" using mem_invD(7) [OF inv] by auto
  qed
  show "circuitsOf (withPending c cm) = (circuitsOf cm)(Incoming c \<mapsto> (CircuitEncode c, None))"
  proof
    fix k
    show "circuitsOf (withPending c cm) k = ((circuitsOf cm)(Incoming c \<mapsto> (CircuitEncode c, None))) k"
      using lt [of k] c(2) by (cases "k = Incoming c"; cases "pending cm k") (auto simp: circuitsOf_def)
  qed
qed

lemma loadCircuits_spec:
  assumes "loadCircuits env (map (\<lambda>c. (CircuitKeyBytes (Incoming c), CircuitEncode c)) cs) cm = Inr cm'"
    and "mem_inv (validKey env) cm" and "\<And>c. c \<in> set cs \<Longrightarrow> wf_circuit (validKey env) c"
    and "distinct (map Incoming cs)" and "\<And>c. c \<in> set cs \<Longrightarrow> pending cm (Incoming c) = None"
  shows "mem_inv (validKey env) cm' \<and> opened cm' = opened cm \<and> closed cm' = closed cm \<and> disk cm' = disk cm \<and> hashIndex cm' = hashIndex cm \<and>
    circuitsOf cm' = circuitsOf cm ++ (\<lambda>k. map_option (\<lambda>e. (e, None)) (map_of (map (\<lambda>c. (Incoming c, CircuitEncode c)) cs) k))"
  using assms
proof (induction cs arbitrary: cm)
  case Nil
  then show ?case by (auto simp: map_add_def)
next
  case (Cons c cs)
  obtain c' where d: "decodeCircuit (validKey env) (ExtractErrorEncrypter env) (CircuitEncode c) = Inr c'"
    and l: "loadCircuits env (map (\<lambda>c. (CircuitKeyBytes (Incoming c), CircuitEncode c)) cs) (withPending (c'\<lparr>LoadedFromDisk := True\<rparr>) cm) = Inr cm'"
    using Cons.prems(1) by (auto simp: bindR_Inr_iff withPending_def)
  have wf: "wf_circuit (validKey env) c" using Cons.prems(3) by simp
  note D = decodeCircuit_stored [OF wf d]
  let ?c = "c'\<lparr>LoadedFromDisk := True\<rparr>"
  have c: "Incoming ?c = Incoming c" "CircuitEncode ?c = CircuitEncode c" "Outgoing ?c = None" "wf_circuit (validKey env) ?c"
    using D by simp_all
  have p: "pending cm (Incoming ?c) = None" using Cons.prems(5) [of c] c(1) by simp
  note W = withPending_inv [OF Cons.prems(2) c(4) c(3) p]
  have "mem_inv (validKey env) cm' \<and> opened cm' = opened (withPending ?c cm) \<and> closed cm' = closed (withPending ?c cm) \<and>
    disk cm' = disk (withPending ?c cm) \<and> hashIndex cm' = hashIndex (withPending ?c cm) \<and>
    circuitsOf cm' = circuitsOf (withPending ?c cm) ++ (\<lambda>k. map_option (\<lambda>e. (e, None)) (map_of (map (\<lambda>c. (Incoming c, CircuitEncode c)) cs) k))"
  proof (rule Cons.IH [OF l W(1)])
    show "wf_circuit (validKey env) x" if "x \<in> set cs" for x using Cons.prems(3) that by simp
    show "distinct (map Incoming cs)" using Cons.prems(4) by simp
    show "pending (withPending ?c cm) (Incoming x) = None" if "x \<in> set cs" for x
    proof -
      have "Incoming x \<noteq> Incoming c" using Cons.prems(4) that by (auto simp: image_iff)
      then show ?thesis using Cons.prems(5) [of x] that c(1) by simp
    qed
  qed
  moreover have "circuitsOf (withPending ?c cm) ++ (\<lambda>k. map_option (\<lambda>e. (e, None)) (map_of (map (\<lambda>c. (Incoming c, CircuitEncode c)) cs) k)) =
    circuitsOf cm ++ (\<lambda>k. map_option (\<lambda>e. (e, None)) (map_of (map (\<lambda>c. (Incoming c, CircuitEncode c)) (c # cs)) k))"
  proof
    fix k
    have "map_of (map (\<lambda>c. (Incoming c, CircuitEncode c)) cs) (Incoming c) = None"
      using Cons.prems(4) by (auto simp: map_of_eq_None_iff image_iff)
    then show "(circuitsOf (withPending ?c cm) ++ (\<lambda>k. map_option (\<lambda>e. (e, None)) (map_of (map (\<lambda>c. (Incoming c, CircuitEncode c)) cs) k))) k =
      (circuitsOf cm ++ (\<lambda>k. map_option (\<lambda>e. (e, None)) (map_of (map (\<lambda>c. (Incoming c, CircuitEncode c)) (c # cs)) k))) k"
      using c(1,2) by (cases "k = Incoming c") (auto simp: W(2) map_add_def split: option.split)
  qed
  ultimately show ?case by simp
qed

lemma loadKeystones_spec:
  assumes "loadKeystones (map (\<lambda>(k, out). (CircuitKeyBytes out, CircuitKeyBytes k)) L) cm = Inr (cm', strays)"
    and "mem_inv vk cm" and "\<And>k out. (k, out) \<in> set L \<Longrightarrow> wf_key k \<and> wf_out out \<and> opened cm out = None \<and> (\<exists>e. circuitsOf cm k = Some (e, None))"
    and "distinct (map fst L)" and "distinct (map snd L)"
  shows "mem_inv vk cm' \<and> strays = [] \<and> closed cm' = closed cm \<and> disk cm' = disk cm \<and> hashIndex cm' = hashIndex cm \<and>
    circuitsOf cm' = (\<lambda>k. map_option (\<lambda>(e, ks). (e, case map_of L k of None \<Rightarrow> ks | Some out \<Rightarrow> Some out)) (circuitsOf cm k))"
  using assms
proof (induction L arbitrary: cm strays)
  case Nil
  then show ?case by (simp add: option.map_ident)
next
  case (Cons x L)
  obtain k out where x: "x = (k, out)" by fastforce
  have h: "wf_key k" "wf_out out" "opened cm out = None" using Cons.prems(3) [of k out] x by auto
  obtain e where e: "circuitsOf cm k = Some (e, None)" using Cons.prems(3) [of k out] x by auto
  obtain p where p: "pending cm k = Some p" "e = CircuitEncode (heap cm p)" "Outgoing (heap cm p) = None"
    using e unfolding circuitsOf_Some by auto
  have l: "loadKeystones (map (\<lambda>(k, out). (CircuitKeyBytes out, CircuitKeyBytes k)) L) (withKeystone p out cm) = Inr (cm', strays)"
    using Cons.prems(1) h p(1) by (auto simp: x bindR_Inr_iff withKeystone_def dest!: wf_outD)
  note W = withKeystone_inv [OF Cons.prems(2) p(1,3) h(3,2)]
  have "mem_inv vk cm' \<and> strays = [] \<and> closed cm' = closed (withKeystone p out cm) \<and> disk cm' = disk (withKeystone p out cm) \<and>
    hashIndex cm' = hashIndex (withKeystone p out cm) \<and>
    circuitsOf cm' = (\<lambda>k. map_option (\<lambda>(e, ks). (e, case map_of L k of None \<Rightarrow> ks | Some out \<Rightarrow> Some out)) (circuitsOf (withKeystone p out cm) k))"
  proof (rule Cons.IH [OF l W(1)])
    fix k' out' assume m: "(k', out') \<in> set L"
    have "k' \<noteq> k" "out' \<noteq> out" using Cons.prems(4,5) m by (force simp: x)+
    then show "wf_key k' \<and> wf_out out' \<and> opened (withKeystone p out cm) out' = None \<and> (\<exists>e. circuitsOf (withKeystone p out cm) k' = Some (e, None))"
      using Cons.prems(3) [of k' out'] m by (simp add: W(2))
  qed (use Cons.prems(4,5) in simp_all)
  moreover have "(\<lambda>k. map_option (\<lambda>(e, ks). (e, case map_of L k of None \<Rightarrow> ks | Some out \<Rightarrow> Some out)) (circuitsOf (withKeystone p out cm) k)) =
    (\<lambda>k. map_option (\<lambda>(e, ks). (e, case map_of (x # L) k of None \<Rightarrow> ks | Some out \<Rightarrow> Some out)) (circuitsOf cm k))"
  proof
    fix k'
    have "map_of L k = None" using Cons.prems(4) by (simp add: x map_of_eq_None_iff)
    then show "map_option (\<lambda>(e, ks). (e, case map_of L k' of None \<Rightarrow> ks | Some out \<Rightarrow> Some out)) (circuitsOf (withKeystone p out cm) k') =
      map_option (\<lambda>(e, ks). (e, case map_of (x # L) k' of None \<Rightarrow> ks | Some out \<Rightarrow> Some out)) (circuitsOf cm k')"
      using e p(2) by (cases "k' = k") (simp_all add: W(2) x)
  qed
  ultimately show ?case by simp
qed

lemma list_map_ex: "(\<And>x. x \<in> set xs \<Longrightarrow> \<exists>y. P y \<and> x = f y) \<Longrightarrow> \<exists>ys. xs = map f ys \<and> (\<forall>y \<in> set ys. P y)"
proof (induction xs)
  case (Cons x xs)
  obtain ys where "xs = map f ys" "\<forall>y \<in> set ys. P y" using Cons by auto
  moreover obtain y where "P y" "x = f y" using Cons.prems [of x] by auto
  ultimately show ?case by (intro exI [of _ "y # ys"]) simp
qed simp

lemma indexEntry_fields [simp]:
  "opened (indexEntry x cm) = opened cm" "pending (indexEntry x cm) = pending cm" "heap (indexEntry x cm) = heap cm"
  "closed (indexEntry x cm) = closed cm" "disk (indexEntry x cm) = disk cm" "nextPtr (indexEntry x cm) = nextPtr cm"
  by (simp_all add: indexEntry_def split: prod.split sum.split option.split)

lemma indexEntries_fields [simp]:
  "opened (fold indexEntry xs cm) = opened cm" "pending (fold indexEntry xs cm) = pending cm" "heap (fold indexEntry xs cm) = heap cm"
  "closed (fold indexEntry xs cm) = closed cm" "disk (fold indexEntry xs cm) = disk cm" "nextPtr (fold indexEntry xs cm) = nextPtr cm"
  by (induction xs arbitrary: cm) simp_all

lemma indexEntry_hset:
  "(\<forall>h. hashIndex cm h \<noteq> Some {}) \<Longrightarrow> \<forall>h. hashIndex (indexEntry x cm) h \<noteq> Some {}" "hset cm h \<subseteq> hset (indexEntry x cm) h"
  by (auto simp: indexEntry_def hset_add nonempty_add split: prod.split sum.split option.split)

lemma indexEntries_hset:
  "(\<forall>h. hashIndex cm h \<noteq> Some {}) \<Longrightarrow> \<forall>h. hashIndex (fold indexEntry xs cm) h \<noteq> Some {}" "hset cm h \<subseteq> hset (fold indexEntry xs cm) h"
proof (induction xs arbitrary: cm)
  case (Cons x xs)
  { case 1
    then show ?case using Cons.IH(1) [of "indexEntry x cm"] indexEntry_hset(1) [of cm x] by simp
  next
    case 2
    show ?case using Cons.IH(2) [of "indexEntry x cm"] indexEntry_hset(2) [of cm h x] by simp }
qed simp_all

lemma indexEntries_in:
  assumes "opened cm out = Some p" and "OutKey (heap cm p) = out" and "wf_key out" and "(CircuitKeyBytes out, v) \<in> set xs"
  shows "out \<in> hset (fold indexEntry xs cm) (PaymentHash (heap cm p))"
  using assms
proof (induction xs arbitrary: cm)
  case (Cons x xs)
  show ?case
  proof (cases "x = (CircuitKeyBytes out, v)")
    case True
    then have "indexEntry x cm = addCircuitToHashIndex p cm" using Cons.prems(1,3) by (simp add: indexEntry_def)
    then have "out \<in> hset (indexEntry x cm) (PaymentHash (heap cm p))" using Cons.prems(2) by (simp add: hset_add)
    then show ?thesis using indexEntries_hset(2) [of "indexEntry x cm" "PaymentHash (heap cm p)" xs] by auto
  next
    case False
    then show ?thesis using Cons.IH [of "indexEntry x cm"] Cons.prems by simp
  qed
qed simp

lemma blankMap_inv: "mem_inv vk (blankMap d)" "circuitsOf (blankMap d) = Map.empty" "hashIndex (blankMap d) = Map.empty" "closed (blankMap d) = {}" "disk (blankMap d) = d"
  by (simp_all add: mem_inv_def blankMap_def circuitsOf_def fun_eq_iff)

lemma opt_eqI: "(\<And>v. x = Some v \<longleftrightarrow> y = Some v) \<Longrightarrow> x = y"
  by (cases x; cases y) auto

lemma entries_lists:
  assumes it: "iterates env" and rep: "addsRep A m" "keystonesRep K m" and fin: "finite (dom m)" and wf: "wf_circuits (validKey env) m"
  shows "\<exists>cs. bucketEntries (addOrder env A) A = map (\<lambda>c. (CircuitKeyBytes (Incoming c), CircuitEncode c)) cs \<and>
      (\<forall>c \<in> set cs. wf_circuit (validKey env) c) \<and> distinct (map Incoming cs) \<and>
      (\<forall>k. map_of (map (\<lambda>c. (Incoming c, CircuitEncode c)) cs) k = map_option fst (m k))" (is ?thesis1)
    and "\<exists>L. bucketEntries (keystoneOrder env K) K = map (\<lambda>(k, out). (CircuitKeyBytes out, CircuitKeyBytes k)) L \<and>
      distinct (map fst L) \<and> distinct (map snd L) \<and> (\<forall>k out. (k, out) \<in> set L \<longleftrightarrow> (\<exists>e. m k = Some (e, Some out)))" (is ?thesis2)
proof -
  note E = entries_of [OF it rep fin]
  let ?P = "\<lambda>c. wf_circuit (validKey env) c \<and> m (Incoming c) \<noteq> None"
  have "\<exists>cs. bucketEntries (addOrder env A) A = map (\<lambda>c. (CircuitKeyBytes (Incoming c), CircuitEncode c)) cs \<and> (\<forall>c \<in> set cs. ?P c)"
  proof (rule list_map_ex)
    fix x assume "x \<in> set (bucketEntries (addOrder env A) A)"
    then obtain b v where "x = (b, v)" "A b = Some v" unfolding E by auto
    then show "\<exists>c. ?P c \<and> x = (CircuitKeyBytes (Incoming c), CircuitEncode c)" using adds_entry [OF rep(1) wf, of b v] by blast
  qed
  then obtain cs where cs: "bucketEntries (addOrder env A) A = map (\<lambda>c. (CircuitKeyBytes (Incoming c), CircuitEncode c)) cs" "\<forall>c \<in> set cs. ?P c"
    by blast
  have dist: "distinct (map Incoming cs)"
  proof -
    have "distinct (map CircuitKeyBytes (map Incoming cs))" using E(2) unfolding cs by (simp add: comp_def)
    then show ?thesis by (rule distinct_map [THEN iffD1, THEN conjunct1])
  qed
  have wk: "wf_key (Incoming c)" if "c \<in> set cs" for c using cs(2) that by (auto simp: wf_circuit_def)
  have "map_of (map (\<lambda>c. (Incoming c, CircuitEncode c)) cs) k = Some v \<longleftrightarrow> map_option fst (m k) = Some v" for k v
  proof -
    have "map_of (map (\<lambda>c. (Incoming c, CircuitEncode c)) cs) k = Some v \<longleftrightarrow> (\<exists>c \<in> set cs. Incoming c = k \<and> CircuitEncode c = v)"
      using dist by (subst map_of_eq_Some_iff) (auto simp: comp_def)
    also have "\<dots> \<longleftrightarrow> (\<exists>ks. m k = Some (v, ks))"
    proof
      assume "\<exists>c \<in> set cs. Incoming c = k \<and> CircuitEncode c = v"
      then obtain c where c: "c \<in> set cs" "Incoming c = k" "CircuitEncode c = v" by blast
      then have "(CircuitKeyBytes k, v) \<in> set (bucketEntries (addOrder env A) A)" unfolding cs(1) by auto
      then have "A (CircuitKeyBytes k) = Some v" unfolding E by simp
      then obtain k' ks where k': "m k' = Some (v, ks)" "CircuitKeyBytes k = CircuitKeyBytes k'" using rep(1) unfolding addsRep_def by blast
      have "k = k'" using CircuitKeyBytes_inj [OF wk [OF c(1)] wf_circuits_key [OF wf k'(1)]] k'(2) c(2) by simp
      then show "\<exists>ks. m k = Some (v, ks)" using k'(1) by blast
    next
      assume "\<exists>ks. m k = Some (v, ks)"
      then obtain ks where ks: "m k = Some (v, ks)" by blast
      then have "A (CircuitKeyBytes k) = Some v" using rep(1) unfolding addsRep_def by blast
      then have "(CircuitKeyBytes k, v) \<in> set (bucketEntries (addOrder env A) A)" unfolding E by simp
      then obtain c where c: "c \<in> set cs" "CircuitKeyBytes k = CircuitKeyBytes (Incoming c)" "v = CircuitEncode c" unfolding cs(1) by auto
      have "k = Incoming c" using CircuitKeyBytes_inj [OF wf_circuits_key [OF wf ks] wk [OF c(1)]] c(2) by simp
      then show "\<exists>c \<in> set cs. Incoming c = k \<and> CircuitEncode c = v" using c by blast
    qed
    also have "\<dots> \<longleftrightarrow> map_option fst (m k) = Some v" by auto
    finally show ?thesis .
  qed
  then have "map_of (map (\<lambda>c. (Incoming c, CircuitEncode c)) cs) k = map_option fst (m k)" for k by (rule opt_eqI)
  then show ?thesis1 using cs dist by blast
  let ?Q = "\<lambda>(k, out). \<exists>e. m k = Some (e, Some out)"
  have "\<exists>L. bucketEntries (keystoneOrder env K) K = map (\<lambda>(k, out). (CircuitKeyBytes out, CircuitKeyBytes k)) L \<and> (\<forall>x \<in> set L. ?Q x)"
  proof (rule list_map_ex)
    fix x assume "x \<in> set (bucketEntries (keystoneOrder env K) K)"
    then obtain b v where "x = (b, v)" "K b = Some v" unfolding E by auto
    then show "\<exists>y. ?Q y \<and> x = (case y of (k, out) \<Rightarrow> (CircuitKeyBytes out, CircuitKeyBytes k))"
      using keystones_entry [OF rep(2) wf, of b v] by auto
  qed
  then obtain L where L: "bucketEntries (keystoneOrder env K) K = map (\<lambda>(k, out). (CircuitKeyBytes out, CircuitKeyBytes k)) L" "\<forall>x \<in> set L. ?Q x"
    by blast
  have d2: "distinct (map snd L)"
  proof -
    have "map fst (bucketEntries (keystoneOrder env K) K) = map CircuitKeyBytes (map snd L)" unfolding L by auto
    then show ?thesis using E(4) distinct_map [THEN iffD1, THEN conjunct1] by metis
  qed
  have "inj_on fst (set L)"
  proof (rule inj_onI)
    fix x y assume a: "x \<in> set L" "y \<in> set L" "fst x = fst y"
    have "?Q x" "?Q y" using L(2) a by simp_all
    then show "x = y" using a(3) by (cases x; cases y) auto
  qed
  then have d1: "distinct (map fst L)" using d2 by (simp add: distinct_map)
  have "(k, out) \<in> set L" if "m k = Some (e, Some out)" for k out e
  proof -
    have w: "wf_key k" "wf_key out" using wf_circuits_key [OF wf that] wf that unfolding wf_circuits_def by blast+
    then have "(CircuitKeyBytes out, CircuitKeyBytes k) \<in> set (bucketEntries (keystoneOrder env K) K)"
      unfolding E using keystones_iff [OF rep(2) wf w] that by blast
    then obtain k' out' where k': "(k', out') \<in> set L" "CircuitKeyBytes out = CircuitKeyBytes out'" "CircuitKeyBytes k = CircuitKeyBytes k'"
      unfolding L(1) by auto
    then obtain e' where "m k' = Some (e', Some out')" using L(2) by auto
    then have "wf_key k'" "wf_key out'" using wf_circuits_key [OF wf] wf unfolding wf_circuits_def by blast+
    then show ?thesis using k' CircuitKeyBytes_inj [OF w(1)] CircuitKeyBytes_inj [OF w(2)] by simp
  qed
  then have "\<forall>k out. (k, out) \<in> set L \<longleftrightarrow> (\<exists>e. m k = Some (e, Some out))" using L(2) by blast
  then show ?thesis2 using L(1) d1 d2 by blast
qed

lemma restoreMemState_spec:
  assumes den: "denotes d m" and wf: "wf_circuits (validKey env) m" and it: "iterates env" and fin: "finite (dom m)"
    and r: "restoreMemState env d = (d', Inr cm)"
  shows "cm_inv (validKey env) cm" "circuitsOf cm = m" "closed cm = {}" "disk cm = d'"
proof -
  obtain A K where d: "d = \<lparr>circuitAddKey = Some A, circuitKeystoneKey = Some K\<rparr>" "addsRep A m" "keystonesRep K m"
    using den by (auto simp: denotes_def)
  obtain cs where cs: "bucketEntries (addOrder env A) A = map (\<lambda>c. (CircuitKeyBytes (Incoming c), CircuitEncode c)) cs"
      "\<And>c. c \<in> set cs \<Longrightarrow> wf_circuit (validKey env) c" "distinct (map Incoming cs)"
      "\<And>k. map_of (map (\<lambda>c. (Incoming c, CircuitEncode c)) cs) k = map_option fst (m k)"
    using entries_lists(1) [OF it d(2,3) fin wf] by blast
  obtain L where L: "bucketEntries (keystoneOrder env K) K = map (\<lambda>(k, out). (CircuitKeyBytes out, CircuitKeyBytes k)) L"
      "distinct (map fst L)" "distinct (map snd L)" "\<And>k out. (k, out) \<in> set L \<longleftrightarrow> (\<exists>e. m k = Some (e, Some out))"
    using entries_lists(2) [OF it d(2,3) fin wf] by blast
  obtain cm1 cm2 strays where l: "loadCircuits env (bucketEntries (addOrder env A) A) (blankMap d) = Inr cm1"
      "loadKeystones (bucketEntries (keystoneOrder env K) K) cm1 = Inr (cm2, strays)"
    and cm: "(case dbUpdate (restoreOk env)
                (onKeystones (deleteKeys (map ks_OutKey (filter (\<lambda>ks. ck_ChanID (ks_OutKey ks) = zeroChanID) strays)))) d of
              (d', Some err) \<Rightarrow> (d', Inl err)
            | (d', None) \<Rightarrow> (d', Inr (fold indexEntry (bucketEntries (keystoneOrder env K) K) (cm2\<lparr>disk := d'\<rparr>)))) = (d', Inr cm)"
    using r unfolding restoreMemState_def by (auto simp: d(1) bindR_Inr_iff Let_def split: sum.splits prod.splits dest!: sym [of "bindR _ _"])
  have m1: "mem_inv (validKey env) cm1 \<and> opened cm1 = opened (blankMap d) \<and> closed cm1 = closed (blankMap d) \<and> disk cm1 = disk (blankMap d) \<and>
    hashIndex cm1 = hashIndex (blankMap d) \<and>
    circuitsOf cm1 = circuitsOf (blankMap d) ++ (\<lambda>k. map_option (\<lambda>e. (e, None)) (map_of (map (\<lambda>c. (Incoming c, CircuitEncode c)) cs) k))"
    by (rule loadCircuits_spec [OF l(1) [unfolded cs(1)] blankMap_inv(1) cs(2,3)]) (simp_all add: blankMap_def)
  have c1: "circuitsOf cm1 = (\<lambda>k. map_option (\<lambda>e. (e, None)) (map_option fst (m k)))" using m1 by (simp add: blankMap_inv cs(4))
  have m2: "mem_inv (validKey env) cm2 \<and> strays = [] \<and> closed cm2 = closed cm1 \<and> disk cm2 = disk cm1 \<and> hashIndex cm2 = hashIndex cm1 \<and>
    circuitsOf cm2 = (\<lambda>k. map_option (\<lambda>(e, ks). (e, case map_of L k of None \<Rightarrow> ks | Some out \<Rightarrow> Some out)) (circuitsOf cm1 k))"
  proof (rule loadKeystones_spec [OF l(2) [unfolded L(1)] _ _ L(2,3)])
    show "mem_inv (validKey env) cm1" using m1 by (rule conjunct1)
    fix k out assume "(k, out) \<in> set L"
    then obtain e where "m k = Some (e, Some out)" using L(4) by blast
    moreover have "opened cm1 out = None" using m1 by (simp add: blankMap_def)
    ultimately show "wf_key k \<and> wf_out out \<and> opened cm1 out = None \<and> (\<exists>e. circuitsOf cm1 k = Some (e, None))"
      using wf_circuits_key [OF wf] wf unfolding wf_circuits_def c1 by auto
  qed
  have c2: "circuitsOf cm2 = m"
  proof
    fix k
    have "map_of L k = (case m k of None \<Rightarrow> None | Some (e, ks) \<Rightarrow> ks)"
    proof (cases "map_of L k")
      case None
      then have "(k, out) \<notin> set L" for out by (auto simp: map_of_eq_None_iff image_iff)
      then have "\<not> (\<exists>e out. m k = Some (e, Some out))" using L(4) by blast
      then show ?thesis using None by (auto split: option.split)
    next
      case (Some out)
      then show ?thesis using L(4) [of k out] map_of_SomeD [OF Some] by auto
    qed
    moreover have "circuitsOf cm2 k = map_option (\<lambda>(e, ks). (e, case map_of L k of None \<Rightarrow> ks | Some out \<Rightarrow> Some out)) (circuitsOf cm1 k)"
      using m2 by simp
    ultimately show "circuitsOf cm2 k = m k" unfolding c1 by (cases "m k") (auto split: option.split)
  qed
  have f: "mem_inv (validKey env) cm2" "strays = []" "closed cm2 = {}" "hashIndex cm2 = Map.empty"
    using m1 m2 by (simp_all add: blankMap_inv)
  have u: "dbUpdate b (onKeystones (deleteKeys [])) d = (d, if b then None else Some ErrDatabase)" for b
    by (simp add: d(1) dbUpdate_def onKeystones_def onBucket_def deleteKeys_def)
  note cm = cm [unfolded f(2) filter.simps list.map u]
  have e: "d' = d" "cm = fold indexEntry (bucketEntries (keystoneOrder env K) K) (cm2\<lparr>disk := d\<rparr>)"
    using cm by (cases "restoreOk env"; simp)+
  have M: "mem_inv (validKey env) cm" "circuitsOf cm = m" "closed cm = {}" "disk cm = d"
    using f(1,3) c2 unfolding e by (simp_all add: mem_inv_def circuitsOf_def)
  have "index_inv cm" unfolding index_inv_def
  proof (intro conjI)
    show "\<forall>h. hashIndex cm h \<noteq> Some {}" unfolding e by (rule indexEntries_hset(1)) (simp add: f(4))
    show "\<forall>out p. opened cm out = Some p \<longrightarrow> out \<in> hset cm (PaymentHash (heap cm p))"
    proof (intro allI impI)
      fix out p assume o: "opened cm out = Some p"
      have q: "pending cm (Incoming (heap cm p)) = Some p" "Outgoing (heap cm p) = Some out" "wf_out out"
        using mem_invD(5) [OF M(1), of out p] mem_invD(6) [OF M(1) o] o by simp_all
      then have "circuitsOf cm (Incoming (heap cm p)) = Some (CircuitEncode (heap cm p), Some out)" by (simp add: circuitsOf_def)
      then have "(Incoming (heap cm p), out) \<in> set L" using L(4) unfolding M(2) by blast
      then have "(CircuitKeyBytes out, CircuitKeyBytes (Incoming (heap cm p))) \<in> set (bucketEntries (keystoneOrder env K) K)"
        unfolding L(1) by force
      then have "out \<in> hset (fold indexEntry (bucketEntries (keystoneOrder env K) K) (cm2\<lparr>disk := d\<rparr>)) (PaymentHash (heap (cm2\<lparr>disk := d\<rparr>) p))"
        using o q(2,3) unfolding e by (intro indexEntries_in) (auto simp: OutKey_def)
      then show "out \<in> hset cm (PaymentHash (heap cm p))" unfolding e by simp
    qed
  qed
  then show "cm_inv (validKey env) cm" using M den by (simp add: cm_inv_def)
  show "circuitsOf cm = m" "closed cm = {}" "disk cm = d'" using M e(1) by simp_all
qed

subsubsection \<open>Trimming at the start\<close>

definition trimChannel :: "ActiveChannel \<Rightarrow> circuits \<Rightarrow> circuits" where
  "trimChannel c m = (if ac_IsPending c \<or> ac_ShortChanID c = zeroChanID then m
     else dropKeystones (trimRun (ac_ShortChanID c) (the (ac_NextLocalHtlcIndex c)) m) m)"

lemma dbUpdate_None: "dbUpdate b f d = (d', None) \<Longrightarrow> dbUpdate True f d = (d', None)"
  by (auto simp: dbUpdate_def split: sum.splits if_splits)

lemma dbUpdate_failed: "dbUpdate b f d = (d', Some err) \<Longrightarrow> d' = d"
  by (auto simp: dbUpdate_def split: sum.splits if_splits)

lemma TrimOpenCircuits_None:
  assumes "TrimOpenCircuits b chanID start cm = (cm', None)"
  shows "TrimOpenCircuits True chanID start cm = (cm', None)"
  using assms dbUpdate_None unfolding TrimOpenCircuits_def
  by (cases "trimLoop chanID start cm") (auto split: if_splits prod.splits)

lemma trimLoop_keeps:
  "trimLoop chanID i cm = (cm', keys) \<Longrightarrow> disk cm' = disk cm \<and> pending cm' = pending cm \<and> (\<forall>p. LoadedFromDisk (heap cm' p) = LoadedFromDisk (heap cm p))"
proof (induction chanID i cm arbitrary: cm' keys rule: trimLoop.induct)
  case (1 chanID i cm)
  let ?out = "\<lparr>ck_ChanID = chanID, ck_HtlcID = i\<rparr>"
  show ?case
  proof (cases "opened cm ?out")
    case None
    then show ?thesis using 1(2) by (subst (asm) trimLoop_eq) simp
  next
    case (Some p)
    let ?cm = "removeCircuitFromHashIndex p (withoutKeystone p ?out cm)"
    obtain cm2 keys2 where t: "trimLoop chanID (i + 1) ?cm = (cm2, keys2)" by fastforce
    have e: "cm' = cm2" using 1(2) Some t by (subst (asm) trimLoop_eq) simp
    have "disk cm2 = disk ?cm \<and> pending cm2 = pending ?cm \<and> (\<forall>p. LoadedFromDisk (heap cm2 p) = LoadedFromDisk (heap ?cm p))"
      using 1(1) [OF refl Some refl] t unfolding withoutKeystone_def by blast
    then show ?thesis unfolding e by simp
  qed
qed

lemma TrimOpenCircuits_keeps:
  assumes "TrimOpenCircuits b chanID start cm = (cm', err)"
  shows "pending cm' = pending cm \<and> (\<forall>p. LoadedFromDisk (heap cm' p) = LoadedFromDisk (heap cm p))" "err \<noteq> None \<Longrightarrow> disk cm' = disk cm"
proof -
  obtain cm1 keys where l: "trimLoop chanID start cm = (cm1, keys)" by fastforce
  note K = trimLoop_keeps [OF l]
  have c: "cm' = cm1 \<and> err = None \<or> (\<exists>d f. cm' = cm1\<lparr>disk := d\<rparr> \<and> dbUpdate b f (disk cm1) = (d, err))"
  proof (cases "keys = []")
    case True
    then show ?thesis using assms by (simp add: TrimOpenCircuits_def l)
  next
    case False
    let ?f = "onKeystones (\<lambda>b. fold (\<lambda>k b. b(CircuitKeyBytes k := None)) keys b)"
    obtain d e where d: "dbUpdate b ?f (disk cm1) = (d, e)" by fastforce
    then have "cm' = cm1\<lparr>disk := d\<rparr>" "e = err" using assms False by (simp_all add: TrimOpenCircuits_def l)
    then show ?thesis using d by blast
  qed
  then have "pending cm' = pending cm1 \<and> heap cm' = heap cm1" by (elim disjE exE conjE) simp_all
  then show "pending cm' = pending cm \<and> (\<forall>p. LoadedFromDisk (heap cm' p) = LoadedFromDisk (heap cm p))" using K by simp
  show "disk cm' = disk cm" if "err \<noteq> None"
  proof -
    obtain e where e0: "err = Some e" using \<open>err \<noteq> None\<close> by blast
    obtain d f where e: "cm' = cm1\<lparr>disk := d\<rparr>" "dbUpdate b f (disk cm1) = (d, Some e)" using c e0 by blast
    then show ?thesis using dbUpdate_failed [OF e(2)] K by simp
  qed
qed

definition loadedOf :: "circuitMap \<Rightarrow> CircuitKey set" where
  "loadedOf cm = {k. \<exists>p. pending cm k = Some p \<and> LoadedFromDisk (heap cm p)}"

lemma trimChannels_spec:
  assumes "cm_inv (validKey env) cm" and "trimChannels env chans cm = (cm', err)"
  shows "err = None \<Longrightarrow> cm_inv (validKey env) cm' \<and> circuitsOf cm' = fold trimChannel chans (circuitsOf cm) \<and> closed cm' = closed cm \<and> loadedOf cm' = loadedOf cm"
    and "\<exists>m. denotes (disk cm') m \<and> wf_circuits (validKey env) m \<and> dom m = dom (circuitsOf cm)"
proof -
  have D: "denotes (disk cm) (circuitsOf cm)" "wf_circuits (validKey env) (circuitsOf cm)" if "cm_inv (validKey env) cm" for cm
    using that wf_circuitsOf by (auto simp: cm_inv_def)
  have "(err = None \<longrightarrow> cm_inv (validKey env) cm' \<and> circuitsOf cm' = fold trimChannel chans (circuitsOf cm) \<and> closed cm' = closed cm \<and> loadedOf cm' = loadedOf cm) \<and>
    (\<exists>m. denotes (disk cm') m \<and> wf_circuits (validKey env) m \<and> dom m = dom (circuitsOf cm))"
    using assms
  proof (induction chans arbitrary: cm)
    case Nil
    then show ?case using D [of cm] by auto
  next
    case (Cons c chans)
    show ?case
    proof (cases "ac_IsPending c \<or> ac_ShortChanID c = zeroChanID")
      case True
      then have "trimChannels env chans cm = (cm', err)" "trimChannel c (circuitsOf cm) = circuitsOf cm"
        using Cons.prems(2) by (auto simp: trimChannel_def split: if_splits)
      then show ?thesis using Cons.IH [OF Cons.prems(1)] by simp
    next
      case False
      show ?thesis
      proof (cases "ac_NextLocalHtlcIndex c")
        case None
        then have "cm' = cm" "err \<noteq> None" using Cons.prems(2) False by auto
        then show ?thesis using D [OF Cons.prems(1)] by auto
      next
        case (Some start)
        obtain cm1 err1 where t: "TrimOpenCircuits (trimOk env) (ac_ShortChanID c) start cm = (cm1, err1)" by fastforce
        show ?thesis
        proof (cases err1)
          case None
          have l: "trimChannels env chans cm1 = (cm', err)" using Cons.prems(2) False Some t None by simp
          have t': "TrimOpenCircuits True (ac_ShortChanID c) start cm = (cm1, None)" using TrimOpenCircuits_None t None by blast
          note T = TrimOpenCircuits_inv [OF Cons.prems(1) t']
          have e: "circuitsOf cm1 = trimChannel c (circuitsOf cm)" using T(2) Some False by (simp add: trimChannel_def)
          have "dom (circuitsOf cm1) = dom (circuitsOf cm)" using T(5) by (auto simp: dom_def circuitsOf_def)
          moreover have "loadedOf cm1 = loadedOf cm" using TrimOpenCircuits_keeps(1) [OF t'] by (auto simp: loadedOf_def)
          ultimately show ?thesis using Cons.IH [OF T(1) l] T(4) e by simp
        next
          case (Some e1)
          then have "cm' = cm1" "err \<noteq> None" using Cons.prems(2) False \<open>ac_NextLocalHtlcIndex c = Some start\<close> t by auto
          moreover have "disk cm1 = disk cm" using TrimOpenCircuits_keeps(2) [OF t] Some by simp
          ultimately show ?thesis using D [OF Cons.prems(1)] by auto
        qed
      qed
    qed
  qed
  then show "err = None \<Longrightarrow> cm_inv (validKey env) cm' \<and> circuitsOf cm' = fold trimChannel chans (circuitsOf cm) \<and> closed cm' = closed cm \<and> loadedOf cm' = loadedOf cm"
    "\<exists>m. denotes (disk cm') m \<and> wf_circuits (validKey env) m \<and> dom m = dom (circuitsOf cm)" by blast+
qed

subsubsection \<open>A start\<close>

definition withBuckets :: "circuitDisk \<Rightarrow> circuitDisk" where
  "withBuckets d = \<lparr>circuitAddKey = Some (case circuitAddKey d of None \<Rightarrow> Map.empty | Some b \<Rightarrow> b),
     circuitKeystoneKey = Some (case circuitKeystoneKey d of None \<Rightarrow> Map.empty | Some b \<Rightarrow> b)\<rparr>"

text \<open>What a stopped node's disk stands for.\<close>

definition holds :: "(bytes \<Rightarrow> bool) \<Rightarrow> circuitDisk \<Rightarrow> circuits \<Rightarrow> bool" where
  "holds vk d m \<longleftrightarrow> denotes (withBuckets d) m \<and> wf_circuits vk m \<and> finite (dom m)"

lemma withBuckets_denotes [simp]: "denotes d m \<Longrightarrow> withBuckets d = d"
  by (auto simp: denotes_def withBuckets_def)

lemma withBuckets_idem [simp]: "withBuckets (withBuckets d) = withBuckets d"
  by (simp add: withBuckets_def)

lemma holdsI: "denotes d m \<Longrightarrow> wf_circuits vk m \<Longrightarrow> finite (dom m) \<Longrightarrow> holds vk d m"
  by (simp add: holds_def)

lemma cleanClosedChannels_failed: "cleanClosedChannels env d = (d', Some err) \<Longrightarrow> d' = d"
  using dbUpdate_failed by (auto simp: cleanClosedChannels_def Let_def split: option.splits if_splits sum.splits prod.splits)

lemma restoreMemState_failed: "restoreMemState env d = (d', Inl err) \<Longrightarrow> d' = d"
  using dbUpdate_failed by (auto simp: restoreMemState_def Let_def split: option.splits sum.splits prod.splits)

definition allLoaded :: "circuitMap \<Rightarrow> bool" where
  "allLoaded cm \<longleftrightarrow> (\<forall>k p. pending cm k = Some p \<longrightarrow> LoadedFromDisk (heap cm p))"

lemma loadCircuits_loaded: "loadCircuits env es cm = Inr cm' \<Longrightarrow> allLoaded cm \<Longrightarrow> allLoaded cm'"
proof (induction env es cm rule: loadCircuits.induct)
  case (2 env k v es cm)
  obtain c where d: "decodeCircuit (validKey env) (ExtractErrorEncrypter env) v = Inr c"
    and l: "loadCircuits env es (withPending (c\<lparr>LoadedFromDisk := True\<rparr>) cm) = Inr cm'"
    using 2(2) by (auto simp: bindR_Inr_iff withPending_def)
  have "allLoaded (withPending (c\<lparr>LoadedFromDisk := True\<rparr>) cm)" using 2(3) by (auto simp: allLoaded_def)
  then show ?case using 2(1) [of c] d l by (simp add: withPending_def)
qed simp

lemma loadKeystones_loaded: "loadKeystones es cm = Inr (cm', strays) \<Longrightarrow> allLoaded cm \<Longrightarrow> allLoaded cm'"
proof (induction es arbitrary: cm strays)
  case (Cons x es)
  obtain k v where x: "x = (k, v)" by fastforce
  obtain inKey outKey where d: "SetBytes v = Inr inKey" "SetBytes k = Inr outKey"
    using Cons.prems(1) by (auto simp: x bindR_Inr_iff)
  show ?case
  proof (cases "pending cm inKey")
    case None
    then obtain st where "loadKeystones es cm = Inr (cm', st)" using Cons.prems(1) d by (auto simp: x bindR_Inr_iff)
    then show ?thesis using Cons by blast
  next
    case (Some p)
    then have "loadKeystones es (withKeystone p outKey cm) = Inr (cm', strays)" using Cons.prems(1) d by (simp add: x withKeystone_def)
    moreover have "allLoaded (withKeystone p outKey cm)" using Cons.prems(2) by (auto simp: allLoaded_def)
    ultimately show ?thesis using Cons.IH by blast
  qed
qed simp

lemma restoreMemState_loaded:
  assumes "restoreMemState env d = (d', Inr cm)"
  shows "loadedOf cm = dom (circuitsOf cm)"
proof -
  obtain A K cm1 cm2 strays d2 es where l: "loadCircuits env A (blankMap d) = Inr cm1" "loadKeystones K cm1 = Inr (cm2, strays)"
    and cm: "cm = fold indexEntry es (cm2\<lparr>disk := d2\<rparr>)"
    using assms unfolding restoreMemState_def
    by (auto simp: bindR_Inr_iff Let_def split: option.splits sum.splits prod.splits dest!: sym [of "bindR _ _"])
  have "allLoaded (blankMap d)" by (simp add: allLoaded_def blankMap_def)
  then have "allLoaded cm2" using loadKeystones_loaded [OF l(2)] loadCircuits_loaded [OF l(1)] by blast
  then show ?thesis unfolding cm by (auto simp: allLoaded_def loadedOf_def circuitsOf_def dom_def)
qed

lemma dom_trimChannel: "dom (trimChannel c m) = dom m"
  by (auto simp: trimChannel_def dropKeystones_def dom_def split: option.splits)

lemma dom_trimChannels [simp]: "dom (fold trimChannel cs m) = dom m"
  by (induction cs arbitrary: m) (simp_all add: dom_trimChannel)

lemma NewCircuitMap_Inr:
  assumes "NewCircuitMap env d = (d', Inr cm')"
  obtains d2 d3 cm chans where "cleanClosedChannels env (withBuckets d) = (d2, None)" "restoreMemState env d2 = (d3, Inr cm)"
    "FetchAllOpenChannels env = Some chans" "trimChannels env chans cm = (cm', None)" "d' = disk cm'"
proof -
  obtain d1 e1 where i: "initBuckets env d = (d1, e1)" by fastforce
  then have "e1 = None" using assms by (cases e1) (simp_all add: NewCircuitMap_def)
  then have d1: "d1 = withBuckets d" using i by (simp add: initBuckets_def dbUpdate_def withBuckets_def split: if_splits)
  obtain d2 e2 where c: "cleanClosedChannels env d1 = (d2, e2)" by fastforce
  then have e2: "e2 = None" using assms i \<open>e1 = None\<close> by (cases e2) (simp_all add: NewCircuitMap_def)
  obtain d3 r where r: "restoreMemState env d2 = (d3, r)" by fastforce
  obtain cm where cm: "r = Inr cm" using assms i \<open>e1 = None\<close> c e2 r by (cases r) (simp_all add: NewCircuitMap_def)
  have t: "trimAllOpenCircuits env cm = (cm', None)" "d' = disk cm'" using assms i \<open>e1 = None\<close> c e2 r cm
    by (auto simp: NewCircuitMap_def split: prod.splits option.splits)
  then obtain chans where "FetchAllOpenChannels env = Some chans" "trimChannels env chans cm = (cm', None)"
    by (auto simp: trimAllOpenCircuits_def split: option.splits)
  then show ?thesis using that c e2 d1 r cm t(2) by blast
qed

lemma NewCircuitMap_Inl:
  assumes "NewCircuitMap env d = (d', Inl err)"
  obtains "d' = d" | "cleanClosedChannels env (withBuckets d) = (d', Some err)"
  | d2 where "cleanClosedChannels env (withBuckets d) = (d2, None)" "restoreMemState env d2 = (d', Inl err)"
  | d2 d3 cm cm' where "cleanClosedChannels env (withBuckets d) = (d2, None)" "restoreMemState env d2 = (d3, Inr cm)" "d' = disk cm'"
    "cm' = cm \<or> (\<exists>chans err. trimChannels env chans cm = (cm', err))"
proof -
  obtain d1 e1 where i: "initBuckets env d = (d1, e1)" by fastforce
  show thesis
  proof (cases e1)
    case (Some e)
    then have "d' = d" using i assms dbUpdate_failed by (auto simp: NewCircuitMap_def initBuckets_def)
    then show ?thesis by (rule that(1))
  next
    case None
    then have d1: "d1 = withBuckets d" using i by (simp add: initBuckets_def dbUpdate_def withBuckets_def split: if_splits)
    obtain d2 e2 where c: "cleanClosedChannels env d1 = (d2, e2)" by fastforce
    show ?thesis
    proof (cases e2)
      case (Some e)
      then show ?thesis using that(2) assms i None c d1 by (simp add: NewCircuitMap_def)
    next
      case e2: None
      obtain d3 r where r: "restoreMemState env d2 = (d3, r)" by fastforce
      show ?thesis
      proof (cases r)
        case (Inl e)
        then show ?thesis using that(3) [of d2] assms i None c e2 d1 r by (simp add: NewCircuitMap_def)
      next
        case (Inr cm)
        obtain cm' e3 where t: "trimAllOpenCircuits env cm = (cm', e3)" by fastforce
        have "d' = disk cm'" using assms i None c e2 r Inr t by (simp add: NewCircuitMap_def split: option.splits)
        moreover have "cm' = cm \<or> (\<exists>chans err. trimChannels env chans cm = (cm', err))"
          using t by (auto simp: trimAllOpenCircuits_def split: option.splits)
        ultimately show ?thesis using that(4) [of d2 d3 cm cm'] c e2 d1 r Inr by blast
      qed
    qed
  qed
qed

lemma dom_restrict: "finite (dom m) \<Longrightarrow> finite (dom (m |` S))"
  by (simp add: dom_restrict)

text \<open>A start that succeeds has the circuits of the disk, without those of closed channels and
  without the keystones of HTLCs no commitment holds.\<close>

definition restarted :: "cmEnv \<Rightarrow> circuits \<Rightarrow> circuits" where
  "restarted env m = fold trimChannel (case FetchAllOpenChannels env of None \<Rightarrow> [] | Some chans \<Rightarrow> chans)
     (m |` (- inClosed (closedIDs env) m))"

lemma NewCircuitMap_inv:
  assumes h: "holds (validKey env) d m" and it: "iterates env"
  shows "NewCircuitMap env d = (d', Inr cm) \<Longrightarrow> cm_inv (validKey env) cm \<and> circuitsOf cm = restarted env m \<and> closed cm = {} \<and>
      loadedOf cm = dom (circuitsOf cm) \<and> finite (dom (circuitsOf cm)) \<and> d' = disk cm" (is "?N \<Longrightarrow> ?C")
    and "NewCircuitMap env d = (d', Inl err) \<Longrightarrow> \<exists>m. holds (validKey env) d' m"
proof -
  have H: "denotes (withBuckets d) m" "wf_circuits (validKey env) m" "finite (dom m)" using h by (simp_all add: holds_def)
  let ?m = "m |` (- inClosed (closedIDs env) m)"
  note C = cleanClosedChannels_spec [OF H(1,2) it H(3)]
  have W: "wf_circuits (validKey env) ?m" "finite (dom ?m)" using wf_circuits_restrict [OF H(2)] dom_restrict [OF H(3)] .
  note R = restoreMemState_spec [OF C W(1) it W(2)]
  show ?C if N: ?N
  proof -
    obtain d2 d3 cm1 chans where s: "cleanClosedChannels env (withBuckets d) = (d2, None)" "restoreMemState env d2 = (d3, Inr cm1)"
      "FetchAllOpenChannels env = Some chans" "trimChannels env chans cm1 = (cm, None)" "d' = disk cm"
      using NewCircuitMap_Inr [OF N] .
    note R = R [OF s(1,2)]
    have T: "cm_inv (validKey env) cm" "circuitsOf cm = fold trimChannel chans (circuitsOf cm1)" "closed cm = closed cm1" "loadedOf cm = loadedOf cm1"
      using trimChannels_spec(1) [OF R(1) s(4)] by simp_all
    have "circuitsOf cm = restarted env m" using T(2) R(2) s(3) by (simp add: restarted_def)
    moreover have "dom (circuitsOf cm) = dom ?m" unfolding T(2) R(2) by (rule dom_trimChannels)
    moreover have "loadedOf cm = dom ?m" using T(4) restoreMemState_loaded [OF s(2)] R(2) by simp
    ultimately show ?thesis using T(1,3) R(3) s(5) W(2) by simp
  qed
  show "\<exists>m. holds (validKey env) d' m" if "NewCircuitMap env d = (d', Inl err)"
    using that
  proof (cases rule: NewCircuitMap_Inl)
    case 1
    then show ?thesis using h by blast
  next
    case 2
    then have "d' = withBuckets d" by (rule cleanClosedChannels_failed)
    then show ?thesis using h by (auto simp: holds_def)
  next
    case (3 d2)
    then have "d' = d2" using restoreMemState_failed by blast
    then show ?thesis using holdsI [OF C [OF 3(1)] W] by blast
  next
    case (4 d2 d3 cm cm')
    note R = R [OF 4(1,2)]
    show ?thesis
    proof (cases "cm' = cm")
      case True
      then show ?thesis using 4(3) R(1) W holdsI [of d' ?m] by (auto simp: cm_inv_def R(2))
    next
      case False
      then obtain chans err where "trimChannels env chans cm = (cm', err)" using 4(4) by blast
      then obtain m' where "denotes (disk cm') m'" "wf_circuits (validKey env) m'" "dom m' = dom (circuitsOf cm)"
        using trimChannels_spec(2) [OF R(1)] by blast
      then have "holds (validKey env) d' m'" using W(2) unfolding 4(3) R(2) by (intro holdsI) simp_all
      then show ?thesis by blast
    qed
  qed
qed

end
