(* ===== verification/Refinement.thy ===== *)
theory Refinement
  imports Main
begin

text \<open>
  Refinement between an executable component and a specification of its responses: one
  simulated step, lifted to runs, and a bound on how often a run gives a response.
\<close>

fun execRun :: "('op \<Rightarrow> 'c \<Rightarrow> 'c \<times> 'r) \<Rightarrow> 'op list \<Rightarrow> 'c \<Rightarrow> 'c \<times> 'r list" where
  "execRun exec [] c = (c, [])"
| "execRun exec (op # ops) c =
     (case exec op c of (c1, r) \<Rightarrow> case execRun exec ops c1 of (c2, rs) \<Rightarrow> (c2, r # rs))"

fun permittedRun :: "('c \<Rightarrow> 'op \<Rightarrow> bool) \<Rightarrow> ('op \<Rightarrow> 'c \<Rightarrow> 'c \<times> 'r) \<Rightarrow> 'op list \<Rightarrow> 'c \<Rightarrow> bool" where
  "permittedRun permitted exec [] c \<longleftrightarrow> True"
| "permittedRun permitted exec (op # ops) c \<longleftrightarrow> permitted c op \<and> permittedRun permitted exec ops (fst (exec op c))"

inductive specRun :: "('a \<Rightarrow> 'op \<Rightarrow> 'r \<Rightarrow> 'a \<Rightarrow> bool) \<Rightarrow> 'a \<Rightarrow> 'op list \<Rightarrow> 'r list \<Rightarrow> 'a \<Rightarrow> bool" for spec where
  specRun_Nil: "specRun spec s [] [] s"
| specRun_Cons: "spec s op r s1 \<Longrightarrow> specRun spec s1 ops rs s2 \<Longrightarrow> specRun spec s (op # ops) (r # rs) s2"

lemma execRun_Cons:
  assumes "execRun exec (op # ops) c = (c', rs)"
  obtains c1 r rs1 where "exec op c = (c1, r)" "execRun exec ops c1 = (c', rs1)" "rs = r # rs1"
  using assms by (auto split: prod.splits)

lemma execRun_append:
  "execRun exec (xs @ ys) c = (case execRun exec xs c of (c1, rs) \<Rightarrow> case execRun exec ys c1 of (c2, rs') \<Rightarrow> (c2, rs @ rs'))"
  by (induction xs arbitrary: c) (auto split: prod.splits)

lemma permittedRun_append:
  "permittedRun permitted exec (xs @ ys) c \<longleftrightarrow> permittedRun permitted exec xs c \<and> permittedRun permitted exec ys (fst (execRun exec xs c))"
  by (induction xs arbitrary: c) (auto split: prod.splits)

locale refinement =
  fixes exec :: "'op \<Rightarrow> 'c \<Rightarrow> 'c \<times> 'r"
    and spec :: "'a \<Rightarrow> 'op \<Rightarrow> 'r \<Rightarrow> 'a \<Rightarrow> bool"
    and abs :: "'c \<Rightarrow> 'a"
    and inv :: "'c \<Rightarrow> bool"
    and permitted :: "'c \<Rightarrow> 'op \<Rightarrow> bool"
  assumes step_inv: "inv c \<Longrightarrow> permitted c op \<Longrightarrow> exec op c = (c', r) \<Longrightarrow> inv c'"
    and step_spec: "inv c \<Longrightarrow> permitted c op \<Longrightarrow> exec op c = (c', r) \<Longrightarrow> spec (abs c) op r (abs c')"
begin

lemma run_refines:
  assumes "inv c" and "permittedRun permitted exec ops c" and "execRun exec ops c = (c', rs)"
  shows "inv c'" "specRun spec (abs c) ops rs (abs c')"
proof -
  have "inv c' \<and> specRun spec (abs c) ops rs (abs c')"
    using assms
  proof (induction ops arbitrary: c rs)
    case Nil
    then show ?case by (auto intro: specRun_Nil)
  next
    case (Cons op ops)
    obtain c1 r rs1 where e: "exec op c = (c1, r)" "execRun exec ops c1 = (c', rs1)" "rs = r # rs1"
      using execRun_Cons [OF Cons.prems(3)] .
    have p: "permitted c op" "permittedRun permitted exec ops c1" using Cons.prems(2) e(1) by simp_all
    show ?case using Cons.IH [OF step_inv [OF Cons.prems(1) p(1) e(1)] p(2) e(2)] step_spec [OF Cons.prems(1) p(1) e(1)] e(3)
      by (auto intro: specRun_Cons)
  qed
  then show "inv c'" "specRun spec (abs c) ops rs (abs c')" by blast+
qed

end

text \<open>While a gate is shut a response is not given; only some operations reopen the gate.\<close>

locale latch = refinement exec spec abs inv permitted
  for exec :: "'op \<Rightarrow> 'c \<Rightarrow> 'c \<times> 'r"
    and spec :: "'a \<Rightarrow> 'op \<Rightarrow> 'r \<Rightarrow> 'a \<Rightarrow> bool"
    and abs :: "'c \<Rightarrow> 'a"
    and inv :: "'c \<Rightarrow> bool"
    and permitted :: "'c \<Rightarrow> 'op \<Rightarrow> bool" +
  fixes emits :: "'r \<Rightarrow> bool"
    and shut :: "'a \<Rightarrow> bool"
    and reopens :: "'op \<Rightarrow> bool"
  assumes shut_silent: "spec s op r s' \<Longrightarrow> shut s \<Longrightarrow> \<not> reopens op \<Longrightarrow> \<not> emits r"
    and shut_stays: "spec s op r s' \<Longrightarrow> shut s \<Longrightarrow> \<not> reopens op \<Longrightarrow> shut s'"
begin

lemma shut_run: "specRun spec s ops rs s' \<Longrightarrow> shut s \<Longrightarrow> \<forall>op \<in> set ops. \<not> reopens op \<Longrightarrow> filter emits rs = []"
proof (induction rule: specRun.induct)
  case (specRun_Cons s op r s1 ops rs s2)
  have "\<not> reopens op" using specRun_Cons.prems(2) by simp
  then have "shut s1" "\<not> emits r" using shut_stays shut_silent specRun_Cons.hyps(1) specRun_Cons.prems(1) by blast+
  then show ?case using specRun_Cons.IH specRun_Cons.prems(2) by simp
qed simp

lemma specRun_shut: "specRun spec s ops rs s' \<Longrightarrow> shut s \<Longrightarrow> \<forall>op \<in> set ops. \<not> reopens op \<Longrightarrow> shut s'"
proof (induction rule: specRun.induct)
  case (specRun_Cons s op r s1 ops rs s2)
  have "\<not> reopens op" using specRun_Cons.prems(2) by simp
  then have "shut s1" using shut_stays specRun_Cons.hyps(1) specRun_Cons.prems(1) by blast
  then show ?case using specRun_Cons.IH specRun_Cons.prems(2) by simp
qed

lemma stays_shut:
  assumes "inv c" and "permittedRun permitted exec ops c" and "execRun exec ops c = (c', rs)" and "\<forall>op \<in> set ops. \<not> reopens op" and "shut (abs c)"
  shows "shut (abs c')"
  using specRun_shut [OF run_refines(2) [OF assms(1-3)] assms(5,4)] .

lemma silent:
  assumes "inv c" and "permittedRun permitted exec ops c" and "execRun exec ops c = (c', rs)" and "\<forall>op \<in> set ops. \<not> reopens op" and "shut (abs c)"
  shows "filter emits rs = []"
  using shut_run [OF run_refines(2) [OF assms(1-3)] assms(5,4)] .

end

text \<open>A response that shuts the gate is given once between two operations that reopen it.\<close>

locale gated = latch +
  assumes emits_shuts: "spec s op r s' \<Longrightarrow> emits r \<Longrightarrow> shut s'"
begin

lemma spec_once: "specRun spec s ops rs s' \<Longrightarrow> \<forall>op \<in> set ops. \<not> reopens op \<Longrightarrow> length (filter emits rs) \<le> 1"
proof (induction rule: specRun.induct)
  case (specRun_Cons s op r s1 ops rs s2)
  show ?case
  proof (cases "emits r")
    case True
    then have "shut s1" using emits_shuts specRun_Cons.hyps(1) by blast
    then have "filter emits rs = []" using shut_run specRun_Cons.hyps(2) specRun_Cons.prems by simp
    then show ?thesis by simp
  next
    case False
    then show ?thesis using specRun_Cons by simp
  qed
qed simp

lemma once:
  assumes "inv c" and "permittedRun permitted exec ops c" and "execRun exec ops c = (c', rs)" and "\<forall>op \<in> set ops. \<not> reopens op"
  shows "length (filter emits rs) \<le> 1"
  using spec_once [OF run_refines(2) [OF assms(1-3)] assms(4)] .

end

end
