(* ===== verification/CircuitSystem.thy ===== *)
theory CircuitSystem
  imports CircuitMapInv Refinement "HOL-Library.Multiset"
begin

text \<open>
  The circuit map as a running system: the methods in the order the switch and the links call
  them, crashes and restarts, and the abstract map of circuits they implement. The circuits of
  a call of \<open>CommitCircuits\<close> are made by \<open>newPaymentCircuit\<close> from packets, as \<open>ForwardPackets\<close>
  and \<open>SendHTLC\<close> of \<^verbatim>\<open>switch.go\<close> do.
\<close>

subsection \<open>The system\<close>

fun newCircuits :: "(bytes \<times> htlcPacket) list \<Rightarrow> circuitMap \<Rightarrow> circuitMap \<times> nat list" where
  "newCircuits [] cm = (cm, [])"
| "newCircuits ((hash, pkt) # pkts) cm =
     (case newPaymentCircuit hash pkt cm of (cm1, p) \<Rightarrow>
        case newCircuits pkts cm1 of (cm2, ps) \<Rightarrow> (cm2, p # ps))"

datatype cmOp =
    Commit bool "(bytes \<times> htlcPacket) list"
  | Open bool "Keystone list"
  | Fail CircuitKey
  | Close CircuitKey
  | Delete bool "CircuitKey list"
  | Trim ShortChannelID u64

datatype cmResp =
    Forward "CircuitKey list" "CircuitKey list" "CircuitKey list" "cm_error option"
  | Done "cm_error option"
  | Circuit "cm_error + (CircuitKey \<times> bytes \<times> CircuitKey option)"

definition shown :: "circuitMap \<Rightarrow> cm_error + nat \<Rightarrow> cmResp" where
  "shown cm r = Circuit (map_sum id (\<lambda>p. (Incoming (heap cm p), CircuitEncode (heap cm p), Outgoing (heap cm p))) r)"

fun cmExec :: "cmOp \<Rightarrow> circuitMap \<Rightarrow> circuitMap \<times> cmResp" where
  "cmExec (Commit dbOk pkts) cm =
     (case newCircuits pkts cm of (cm1, ps) \<Rightarrow>
        case CommitCircuits dbOk ps cm1 of (cm2, acts, err) \<Rightarrow>
          (cm2, let key = (\<lambda>p. Incoming (heap cm2 p))
                in Forward (map key (Adds acts)) (map key (Drops acts)) (map key (Fails acts)) err))"
| "cmExec (Open dbOk kss) cm = (case OpenCircuits dbOk kss cm of (cm', err) \<Rightarrow> (cm', Done err))"
| "cmExec (Fail k) cm = (case FailCircuit k cm of (cm', r) \<Rightarrow> (cm', shown cm' r))"
| "cmExec (Close out) cm = (case CloseCircuit out cm of (cm', r) \<Rightarrow> (cm', shown cm' r))"
| "cmExec (Delete dbOk ks) cm = (case DeleteCircuits dbOk ks cm of (cm', err) \<Rightarrow> (cm', Done err))"
| "cmExec (Trim chanID start) cm = (case TrimOpenCircuits True chanID start cm of (cm', err) \<Rightarrow> (cm', Done err))"

fun allowed :: "(bytes \<Rightarrow> bool) \<Rightarrow> circuitMap \<Rightarrow> cmOp \<Rightarrow> bool" where
  "allowed vk cm (Commit dbOk pkts) \<longleftrightarrow> (\<forall>(hash, pkt) \<in> set pkts. wf_circuit vk (makePaymentCircuit hash pkt))"
| "allowed vk cm (Open dbOk kss) \<longleftrightarrow> openable kss (circuitsOf cm)"
| "allowed vk cm _ \<longleftrightarrow> True"

datatype cmState = Stopped circuitDisk | Running circuitMap

inductive cm_reachable :: "(bytes \<Rightarrow> bool) \<Rightarrow> cmState \<Rightarrow> bool" for vk where
  fresh: "cm_reachable vk (Stopped \<lparr>circuitAddKey = None, circuitKeystoneKey = None\<rparr>)"
| start: "cm_reachable vk (Stopped d) \<Longrightarrow> iterates env \<Longrightarrow> validKey env = vk \<Longrightarrow> NewCircuitMap env d = (d', Inr cm) \<Longrightarrow>
    cm_reachable vk (Running cm)"
| failed: "cm_reachable vk (Stopped d) \<Longrightarrow> iterates env \<Longrightarrow> validKey env = vk \<Longrightarrow> NewCircuitMap env d = (d', Inl err) \<Longrightarrow>
    cm_reachable vk (Stopped d')"
| operation: "cm_reachable vk (Running cm) \<Longrightarrow> allowed vk cm op \<Longrightarrow> cmExec op cm = (cm', r) \<Longrightarrow> cm_reachable vk (Running cm')"
| crash: "cm_reachable vk (Running cm) \<Longrightarrow> cm_reachable vk (Stopped (disk cm))"

subsection \<open>What it implements\<close>

record circuitSpec =
  sp_circuits :: circuits
  sp_closing :: "CircuitKey set"
  sp_loaded :: "CircuitKey set"

definition specOf :: "circuitMap \<Rightarrow> circuitSpec" where
  "specOf cm = \<lparr>sp_circuits = circuitsOf cm, sp_closing = closed cm, sp_loaded = loadedOf cm\<rparr>"

definition forwarding ::
  "circuitSpec \<Rightarrow> CircuitKey list \<Rightarrow> CircuitKey list \<Rightarrow> CircuitKey list \<Rightarrow> CircuitKey list \<Rightarrow> bool" where
  "forwarding s ks adds drops fails \<longleftrightarrow>
     distinct adds \<and> set adds = {k \<in> set ks. sp_circuits s k = None} \<and>
     fails = filter (\<lambda>k. k \<in> sp_loaded s \<and> (\<exists>e. sp_circuits s k = Some (e, None))) ks \<and>
     mset ks = mset adds + mset drops + mset fails"

definition isOpen :: "circuits \<Rightarrow> CircuitKey \<Rightarrow> bool" where
  "isOpen m out \<longleftrightarrow> (\<exists>k e. m k = Some (e, Some out))"

fun keystoneError :: "circuits \<Rightarrow> Keystone list \<Rightarrow> cm_error option" where
  "keystoneError m [] = None"
| "keystoneError m (ks # kss) =
     (if isOpen m (ks_OutKey ks) then Some ErrDuplicateKeystone
      else if m (ks_InKey ks) = None then Some ErrUnknownCircuit
      else keystoneError m kss)"

definition batchOf :: "(bytes \<times> htlcPacket) list \<Rightarrow> (CircuitKey \<times> bytes) list" where
  "batchOf pkts = map (\<lambda>(hash, pkt). (Incoming (makePaymentCircuit hash pkt), CircuitEncode (makePaymentCircuit hash pkt))) pkts"

inductive circuit_spec :: "circuitSpec \<Rightarrow> cmOp \<Rightarrow> cmResp \<Rightarrow> circuitSpec \<Rightarrow> bool" where
  commit: "forwarding s (map fst (batchOf pkts)) adds drops fails \<Longrightarrow> dbOk \<or> adds = [] \<Longrightarrow>
    circuit_spec s (Commit dbOk pkts) (Forward adds drops fails None) (s\<lparr>sp_circuits := addCircuits (batchOf pkts) (sp_circuits s)\<rparr>)"
| commit_failed: "forwarding s (map fst (batchOf pkts)) adds drops fails \<Longrightarrow> adds \<noteq> [] \<Longrightarrow> mset addFails = mset adds + mset fails \<Longrightarrow>
    circuit_spec s (Commit False pkts) (Forward [] drops addFails (Some ErrDatabase)) s"
| open_ok: "keystoneError (sp_circuits s) kss = None \<Longrightarrow> dbOk \<or> kss = [] \<Longrightarrow>
    circuit_spec s (Open dbOk kss) (Done None) (s\<lparr>sp_circuits := addKeystones kss (sp_circuits s)\<rparr>)"
| open_failed: "keystoneError (sp_circuits s) kss = Some err \<or> keystoneError (sp_circuits s) kss = None \<and> \<not> dbOk \<and> kss \<noteq> [] \<and> err = ErrDatabase \<Longrightarrow>
    circuit_spec s (Open dbOk kss) (Done (Some err)) s"
| failing: "sp_circuits s k = Some (e, out) \<Longrightarrow> k \<notin> sp_closing s \<Longrightarrow>
    circuit_spec s (Fail k) (Circuit (Inr (k, e, out))) (s\<lparr>sp_closing := insert k (sp_closing s)\<rparr>)"
| failing_twice: "sp_circuits s k \<noteq> None \<Longrightarrow> k \<in> sp_closing s \<Longrightarrow> circuit_spec s (Fail k) (Circuit (Inl ErrCircuitClosing)) s"
| failing_unknown: "sp_circuits s k = None \<Longrightarrow> circuit_spec s (Fail k) (Circuit (Inl ErrUnknownCircuit)) s"
| closing: "sp_circuits s k = Some (e, Some out) \<Longrightarrow> k \<notin> sp_closing s \<Longrightarrow>
    circuit_spec s (Close out) (Circuit (Inr (k, e, Some out))) (s\<lparr>sp_closing := insert k (sp_closing s)\<rparr>)"
| closing_twice: "sp_circuits s k = Some (e, Some out) \<Longrightarrow> k \<in> sp_closing s \<Longrightarrow> circuit_spec s (Close out) (Circuit (Inl ErrCircuitClosing)) s"
| closing_unknown: "\<not> isOpen (sp_circuits s) out \<Longrightarrow> circuit_spec s (Close out) (Circuit (Inl ErrUnknownCircuit)) s"
| deleting: "circuit_spec s (Delete True ks) (Done None)
    \<lparr>sp_circuits = sp_circuits s |` (- set ks), sp_closing = sp_closing s - set ks, sp_loaded = sp_loaded s - set ks\<rparr>"
| deleting_failed: "circuit_spec s (Delete False ks) (Done (Some ErrDatabase)) s"
| trimming: "circuit_spec s (Trim chanID start) (Done None)
    (s\<lparr>sp_circuits := dropKeystones (trimRun chanID start (sp_circuits s)) (sp_circuits s)\<rparr>)"

subsection \<open>Refinement\<close>

lemma newCircuits_inv:
  assumes "cm_inv vk cm" and "newCircuits pkts cm = (cm', ps)"
  shows "cm_inv vk cm' \<and> specOf cm' = specOf cm \<and> map (heap cm') ps = map (\<lambda>(hash, pkt). makePaymentCircuit hash pkt) pkts \<and>
    (\<forall>p \<in> set ps. nextPtr cm \<le> p \<and> p < nextPtr cm') \<and> nextPtr cm \<le> nextPtr cm' \<and> (\<forall>q < nextPtr cm. heap cm' q = heap cm q)"
  using assms
proof (induction pkts arbitrary: cm ps)
  case Nil
  then show ?case by auto
next
  case (Cons x pkts)
  obtain hash pkt where x: "x = (hash, pkt)" by fastforce
  obtain cm1 p where n: "newPaymentCircuit hash pkt cm = (cm1, p)" by fastforce
  obtain qs where q: "newCircuits pkts cm1 = (cm', qs)" "ps = p # qs" using Cons.prems(2) by (auto simp: x n split: prod.splits)
  note N = newPaymentCircuit_inv [OF Cons.prems(1) n]
  have IH: "cm_inv vk cm'" "specOf cm' = specOf cm1" "map (heap cm') qs = map (\<lambda>(hash, pkt). makePaymentCircuit hash pkt) pkts"
    "\<forall>p \<in> set qs. nextPtr cm1 \<le> p \<and> p < nextPtr cm'" "nextPtr cm1 \<le> nextPtr cm'" "\<forall>q < nextPtr cm1. heap cm' q = heap cm1 q"
    using Cons.IH [OF N(1) q(1)] by blast+
  have m: "mem_inv vk cm" using Cons.prems(1) by (simp add: cm_inv_def)
  have h: "heap cm1 q = heap cm q" if "q < nextPtr cm" for q using N(7) [of q] N(4) that by simp
  have "loadedOf cm1 = loadedOf cm"
    unfolding loadedOf_def N(6) using h mem_invD(3) [OF m] by auto
  moreover have "closed cm1 = closed cm" using n by (auto simp: newPaymentCircuit_def)
  ultimately have "specOf cm1 = specOf cm" by (simp add: specOf_def N(2))
  moreover have "heap cm' p = makePaymentCircuit hash pkt" using IH(6) N(3,4,5) by simp
  moreover have "\<forall>q < nextPtr cm. heap cm' q = heap cm q" using IH(6) N(5) h by simp
  moreover have "\<forall>q \<in> set (p # qs). nextPtr cm \<le> q \<and> q < nextPtr cm'" using IH(4,5) N(4,5) by auto
  moreover have "nextPtr cm \<le> nextPtr cm'" using IH(5) N(5) by simp
  moreover have "map (heap cm') (p # qs) = map (\<lambda>(hash, pkt). makePaymentCircuit hash pkt) ((hash, pkt) # pkts)"
    unfolding list.map IH(3) using \<open>heap cm' p = makePaymentCircuit hash pkt\<close> by simp
  ultimately show ?case using IH(1) unfolding q(2) x IH(2) by (intro conjI)
qed

lemma reconcile_partition:
  assumes "\<forall>p \<in> set cs. Outgoing (h p) = None \<and> \<not> LoadedFromDisk (h p)"
  shows "distinct (map (Incoming \<circ> h) (rc_adds (reconcile h cs pend)))" (is ?A)
    and "(Incoming \<circ> h) ` set (rc_adds (reconcile h cs pend)) = {k \<in> (Incoming \<circ> h) ` set cs. pend k = None}" (is ?B)
    and "rc_fails (reconcile h cs pend) = filter (\<lambda>c. \<exists>q. pend (Incoming (h c)) = Some q \<and> Outgoing (h q) = None \<and> LoadedFromDisk (h q)) cs" (is ?C)
    and "mset cs = mset (rc_adds (reconcile h cs pend)) + mset (rc_drops (reconcile h cs pend)) + mset (rc_fails (reconcile h cs pend))" (is ?D)
    and "mset (rc_addFails (reconcile h cs pend)) = mset (rc_adds (reconcile h cs pend)) + mset (rc_fails (reconcile h cs pend))" (is ?E)
proof -
  have "?A \<and> ?B \<and> ?C \<and> ?D \<and> ?E" using assms
  proof (induction cs arbitrary: pend)
    case (Cons c cs)
    have cs: "\<forall>p \<in> set cs. Outgoing (h p) = None \<and> \<not> LoadedFromDisk (h p)" using Cons.prems by simp
    show ?case
    proof (cases "pend (Incoming (h c))")
      case (Some q)
      note IH = Cons.IH [OF cs, of pend, THEN conjunct1]
        Cons.IH [OF cs, of pend, THEN conjunct2, THEN conjunct1]
        Cons.IH [OF cs, of pend, THEN conjunct2, THEN conjunct2, THEN conjunct1]
        Cons.IH [OF cs, of pend, THEN conjunct2, THEN conjunct2, THEN conjunct2, THEN conjunct1]
        Cons.IH [OF cs, of pend, THEN conjunct2, THEN conjunct2, THEN conjunct2, THEN conjunct2]
      have S: "{k \<in> (Incoming \<circ> h) ` set (c # cs). pend k = None} = {k \<in> (Incoming \<circ> h) ` set cs. pend k = None}" using Some by auto
      show ?thesis
      proof (cases "Outgoing (h q) = None \<and> LoadedFromDisk (h q)")
        case True
        then have "reconcile h (c # cs) pend = (let r = reconcile h cs pend in r\<lparr>rc_fails := c # rc_fails r, rc_addFails := c # rc_addFails r\<rparr>)"
          using Some by (simp add: reconcile.simps InKey_def HasKeystone_def Let_def)
        then have f: "rc_adds (reconcile h (c # cs) pend) = rc_adds (reconcile h cs pend)" "rc_drops (reconcile h (c # cs) pend) = rc_drops (reconcile h cs pend)"
          "rc_fails (reconcile h (c # cs) pend) = c # rc_fails (reconcile h cs pend)" "rc_addFails (reconcile h (c # cs) pend) = c # rc_addFails (reconcile h cs pend)"
          by (simp_all add: Let_def)
        show ?thesis unfolding f S
        proof (intro conjI)
          show "c # rc_fails (reconcile h cs pend) =
            filter (\<lambda>c. \<exists>q. pend (Incoming (h c)) = Some q \<and> Outgoing (h q) = None \<and> LoadedFromDisk (h q)) (c # cs)"
            unfolding IH(3) using Some True by simp
        qed (use IH(1,2,4,5) in simp_all)
      next
        case False
        then have "reconcile h (c # cs) pend = (let r = reconcile h cs pend in r\<lparr>rc_drops := c # rc_drops r\<rparr>)"
          using Some by (auto simp: reconcile.simps InKey_def HasKeystone_def Let_def)
        then have f: "rc_adds (reconcile h (c # cs) pend) = rc_adds (reconcile h cs pend)" "rc_drops (reconcile h (c # cs) pend) = c # rc_drops (reconcile h cs pend)"
          "rc_fails (reconcile h (c # cs) pend) = rc_fails (reconcile h cs pend)" "rc_addFails (reconcile h (c # cs) pend) = rc_addFails (reconcile h cs pend)"
          by (simp_all add: Let_def)
        show ?thesis unfolding f S
        proof (intro conjI)
          show "rc_fails (reconcile h cs pend) =
            filter (\<lambda>c. \<exists>q. pend (Incoming (h c)) = Some q \<and> Outgoing (h q) = None \<and> LoadedFromDisk (h q)) (c # cs)"
            unfolding IH(3) using Some False by simp
        qed (use IH(1,2,4,5) in simp_all)
      qed
    next
      case None
      let ?pend = "pend(Incoming (h c) \<mapsto> c)"
      let ?r = "reconcile h cs ?pend"
      have e: "reconcile h (c # cs) pend = ?r\<lparr>rc_adds := c # rc_adds ?r, rc_addFails := c # rc_addFails ?r\<rparr>"
        using None by (simp add: reconcile.simps InKey_def Let_def)
      note IH = Cons.IH [OF cs, of ?pend, THEN conjunct1]
        Cons.IH [OF cs, of ?pend, THEN conjunct2, THEN conjunct1]
        Cons.IH [OF cs, of ?pend, THEN conjunct2, THEN conjunct2, THEN conjunct1]
        Cons.IH [OF cs, of ?pend, THEN conjunct2, THEN conjunct2, THEN conjunct2, THEN conjunct1]
        Cons.IH [OF cs, of ?pend, THEN conjunct2, THEN conjunct2, THEN conjunct2, THEN conjunct2]
      have c: "\<not> LoadedFromDisk (h c)" using Cons.prems by simp
      have nin: "(Incoming \<circ> h) c \<notin> (Incoming \<circ> h) ` set (rc_adds ?r)" unfolding IH(2) by simp
      have ff: "filter (\<lambda>x. \<exists>q. ?pend (Incoming (h x)) = Some q \<and> Outgoing (h q) = None \<and> LoadedFromDisk (h q)) cs =
        filter (\<lambda>x. \<exists>q. pend (Incoming (h x)) = Some q \<and> Outgoing (h q) = None \<and> LoadedFromDisk (h q)) cs"
        using None c by (intro filter_cong) auto
      have ii: "{k \<in> (Incoming \<circ> h) ` set (c # cs). pend k = None} = insert ((Incoming \<circ> h) c) {k \<in> (Incoming \<circ> h) ` set cs. ?pend k = None}"
        using None by auto
      have fl: "rc_fails ?r = filter (\<lambda>x. \<exists>q. pend (Incoming (h x)) = Some q \<and> Outgoing (h q) = None \<and> LoadedFromDisk (h q)) (c # cs)"
        unfolding IH(3) ff using None by simp
      have im: "(Incoming \<circ> h) ` set (c # rc_adds ?r) = {k \<in> (Incoming \<circ> h) ` set (c # cs). pend k = None}"
        unfolding list.set image_insert IH(2) using ii by simp
      have f: "rc_adds (reconcile h (c # cs) pend) = c # rc_adds ?r" "rc_drops (reconcile h (c # cs) pend) = rc_drops ?r"
          "rc_fails (reconcile h (c # cs) pend) = rc_fails ?r" "rc_addFails (reconcile h (c # cs) pend) = c # rc_addFails ?r"
        unfolding e by simp_all
      show ?thesis unfolding f
      proof (intro conjI)
        show "rc_fails ?r = filter (\<lambda>x. \<exists>q. pend (Incoming (h x)) = Some q \<and> Outgoing (h q) = None \<and> LoadedFromDisk (h q)) (c # cs)" by (rule fl)
        show "(Incoming \<circ> h) ` set (c # rc_adds ?r) = {k \<in> (Incoming \<circ> h) ` set (c # cs). pend k = None}" by (rule im)
      qed (use IH(1,4,5) nin in \<open>simp_all del: fun_upd_apply\<close>)
    qed
  qed simp
  then show ?A ?B ?C ?D ?E by - (elim conjE, assumption)+
qed

lemma OpenCircuits_loaded: "OpenCircuits dbOk kss cm = (cm', err) \<Longrightarrow> loadedOf cm' = loadedOf cm"
proof -
  have f: "pending (fold openCircuit xs cm) = pending cm \<and> (\<forall>p. LoadedFromDisk (heap (fold openCircuit xs cm) p) = LoadedFromDisk (heap cm p))"
    for xs cm by (induction xs arbitrary: cm) (auto simp: openCircuit_def split: if_splits)
  assume "OpenCircuits dbOk kss cm = (cm', err)"
  then obtain xs d where "cm' = cm \<or> cm' = fold openCircuit xs (cm\<lparr>disk := d\<rparr>) \<or> cm' = cm\<lparr>disk := d\<rparr>"
    by (auto simp: OpenCircuits_def split: if_splits sum.splits prod.splits option.splits)
  then show ?thesis using f by (auto simp: loadedOf_def)
qed

lemma findKeystones_error:
  assumes "mem_inv vk cm"
  shows "findKeystones cm kss = Inl err \<longleftrightarrow> keystoneError (circuitsOf cm) kss = Some err"
proof (induction kss)
  case (Cons ks kss)
  show ?case using Cons opened_circuitsOf [OF assms, of "ks_OutKey ks"] circuitsOf_None [of cm "ks_InKey ks"]
    by (cases "pending cm (ks_InKey ks)") (auto simp: isOpen_def bindR_Inl_iff)
qed simp

lemma DeleteCircuits_res:
  assumes inv: "cm_inv vk cm" and c: "DeleteCircuits dbOk ks cm = (cm', err)"
  shows "err = (if dbOk then None else Some ErrDatabase)" "err = None \<Longrightarrow> loadedOf cm' = loadedOf cm - set ks"
proof -
  have I: "mem_inv vk cm" "index_inv cm" "denotes (disk cm) (circuitsOf cm)" using inv by (simp_all add: cm_inv_def)
  obtain A K where d: "disk cm = \<lparr>circuitAddKey = Some A, circuitKeystoneKey = Some K\<rparr>" "addsRep A (circuitsOf cm)"
    "keystonesRep K (circuitsOf cm)" using I(3) by (auto simp: denotes_def)
  obtain cm1 removed closing where r: "removeFromMemory ks cm = (cm1, removed, closing)" by (metis prod_cases3)
  note R = removeFromMemory_inv [OF I(1,2) r d(2,3)] and F = removeFromMemory_forms [OF I(1,2) r]
  obtain d' where D: "deleteFromDisk (map (\<lambda>x. heap cm (snd x)) removed) (disk cm) = Inr d'" using R unfolding d(1) by blast
  have h1: "heap cm1 = heap cm" "disk cm1 = disk cm" using R by blast+
  have p: "pending cm1 = pending cm |` (- set ks)" using F by (elim conjE)
  have e: "err = (if dbOk then None else Some ErrDatabase)" "dbOk \<Longrightarrow> cm' = cm1\<lparr>disk := d'\<rparr>"
    using c r D by (cases dbOk; simp add: DeleteCircuits_def dbUpdate_def h1)+
  show "err = (if dbOk then None else Some ErrDatabase)" by (rule e)
  show "loadedOf cm' = loadedOf cm - set ks" if "err = None"
    using e that by (auto simp: loadedOf_def p h1 restrict_map_def split: if_splits)
qed

lemma makePaymentCircuit_fresh [simp]: "Outgoing (makePaymentCircuit hash pkt) = None" "\<not> LoadedFromDisk (makePaymentCircuit hash pkt)"
  by (simp_all add: makePaymentCircuit_def)

lemma filter_map_cong:
  "(\<And>x. x \<in> set xs \<Longrightarrow> P (f x) = Q x) \<Longrightarrow> map f (filter Q xs) = filter P (map f xs)"
  by (induction xs) auto

lemma commit_refines:
  assumes inv: "cm_inv vk cm" and ok: "allowed vk cm (Commit dbOk pkts)" and e: "cmExec (Commit dbOk pkts) cm = (cm', r)"
  shows "cm_inv vk cm'" "circuit_spec (specOf cm) (Commit dbOk pkts) r (specOf cm')"
proof -
  obtain cm1 ps where n: "newCircuits pkts cm = (cm1, ps)" by fastforce
  obtain acts err where c: "CommitCircuits dbOk ps cm1 = (cm', acts, err)" using e by (auto simp: n split: prod.splits)
  have N: "cm_inv vk cm1" "specOf cm1 = specOf cm" "map (heap cm1) ps = map (\<lambda>(hash, pkt). makePaymentCircuit hash pkt) pkts"
    "\<forall>p \<in> set ps. nextPtr cm \<le> p \<and> p < nextPtr cm1" using newCircuits_inv [OF inv n] by blast+
  have h: "heap cm1 p \<in> (\<lambda>(hash, pkt). makePaymentCircuit hash pkt) ` set pkts" if "p \<in> set ps" for p
  proof -
    have "heap cm1 p \<in> set (map (heap cm1) ps)" using that by simp
    then show ?thesis unfolding N(3) by simp
  qed
  have P: "\<forall>p \<in> set ps. Outgoing (heap cm1 p) = None \<and> wf_circuit vk (heap cm1 p) \<and> p < nextPtr cm1" "\<forall>p \<in> set ps. Outgoing (heap cm1 p) = None \<and> \<not> LoadedFromDisk (heap cm1 p)"
    using h N(4) ok by fastforce+
  note C = CommitCircuits_inv [OF N(1) P(1) c]
  show "cm_inv vk cm'" by (rule C)
  let ?h = "heap cm1" and ?r = "reconcile (heap cm1) ps (pending cm1)"
  note R = reconcile_partition [OF P(2), of "pending cm1"]
  define key where "key = (\<lambda>p. Incoming (?h p))"
  have key: "Incoming \<circ> ?h = key" by (simp add: key_def comp_def)
  have b: "batchOf pkts = map (\<lambda>p. (Incoming (?h p), CircuitEncode (?h p))) ps"
  proof -
    have "map (\<lambda>p. (Incoming (?h p), CircuitEncode (?h p))) ps = map (\<lambda>c. (Incoming c, CircuitEncode c)) (map ?h ps)" by simp
    then show ?thesis unfolding N(3) by (simp add: batchOf_def split_def comp_def)
  qed
  have fb: "map fst (batchOf pkts) = map key ps" unfolding b by (simp add: key_def comp_def)
  have s: "sp_circuits (specOf cm) = circuitsOf cm1" "sp_loaded (specOf cm) = loadedOf cm1" using N(2) by (simp_all add: specOf_def)
  have F: "forwarding (specOf cm) (map fst (batchOf pkts)) (map key (rc_adds ?r)) (map key (rc_drops ?r)) (map key (rc_fails ?r))"
    unfolding forwarding_def fb s
  proof (intro conjI)
    show "distinct (map key (rc_adds ?r))" using R(1) by (simp only: key)
    have "set (map key (rc_adds ?r)) = {k \<in> key ` set ps. pending cm1 k = None}" using R(2) by (simp only: key set_map)
    then show "set (map key (rc_adds ?r)) = {k \<in> set (map key ps). circuitsOf cm1 k = None}" by (simp only: circuitsOf_None set_map)
    show "map key (rc_fails ?r) = filter (\<lambda>k. k \<in> loadedOf cm1 \<and> (\<exists>e. circuitsOf cm1 k = Some (e, None))) (map key ps)"
      unfolding R(3) by (rule filter_map_cong) (auto simp: key_def loadedOf_def circuitsOf_def)
    have "image_mset key (mset ps) = image_mset key (mset (rc_adds ?r) + mset (rc_drops ?r) + mset (rc_fails ?r))"
      using R(4) by (rule arg_cong)
    then show "mset (map key ps) = mset (map key (rc_adds ?r)) + mset (map key (rc_drops ?r)) + mset (map key (rc_fails ?r))"
      by (simp only: mset_map image_mset_union)
  qed
  have AF: "mset (map key (rc_addFails ?r)) = mset (map key (rc_adds ?r)) + mset (map key (rc_fails ?r))"
    using arg_cong [OF R(5), of "image_mset key"] by (simp only: mset_map image_mset_union)
  have hp: "heap cm' = ?h" by (rule C)
  have r: "r = Forward (map key (Adds acts)) (map key (Drops acts)) (map key (Fails acts)) err"
    using e by (simp add: n c hp key_def Let_def)
  obtain A K where d: "disk cm1 = \<lparr>circuitAddKey = Some A, circuitKeystoneKey = Some K\<rparr>" using N(1) by (auto simp: cm_inv_def denotes_def)
  have acts: "acts = (if dbOk \<or> rc_adds ?r = [] then \<lparr>Adds = rc_adds ?r, Drops = rc_drops ?r, Fails = rc_fails ?r\<rparr> else \<lparr>Adds = [], Drops = rc_drops ?r, Fails = rc_addFails ?r\<rparr>)"
      "err = (if dbOk \<or> rc_adds ?r = [] then None else Some ErrDatabase)"
    using c by (cases "ps = []"; cases "rc_adds ?r = []"; cases dbOk; simp add: CommitCircuits_def Let_def dbUpdate_def onAdds_def onBucket_def d)+
  have L: "loadedOf cm' = loadedOf cm1" if "err = None"
  proof -
    have m: "mem_inv vk cm1" using N(1) by (simp add: cm_inv_def)
    have p: "pending cm' k = Some q \<longleftrightarrow> rc_pending ?r k = Some q" for k q
      using c that acts(2) by (cases "ps = []"; cases "rc_adds ?r = []"; cases dbOk) (auto simp: CommitCircuits_def Let_def dbUpdate_def onAdds_def onBucket_def d)
    show ?thesis
    proof (intro set_eqI iffI)
      fix k assume "k \<in> loadedOf cm'"
      then obtain q where q: "rc_pending ?r k = Some q" "LoadedFromDisk (?h q)" unfolding loadedOf_def p hp by blast
      then have "q \<notin> set ps" using P(2) by blast
      then have "pending cm1 k = Some q" using reconcile_from [OF q(1)] by blast
      then show "k \<in> loadedOf cm1" using q(2) unfolding loadedOf_def by blast
    next
      fix k assume "k \<in> loadedOf cm1"
      then obtain q where q: "pending cm1 k = Some q" "LoadedFromDisk (?h q)" unfolding loadedOf_def by blast
      then show "k \<in> loadedOf cm'" using reconcile_keeps [of "pending cm1" k q ?h ps, OF q(1)] unfolding loadedOf_def p hp by blast
    qed
  qed
  show "circuit_spec (specOf cm) (Commit dbOk pkts) r (specOf cm')"
  proof (cases "dbOk \<or> rc_adds ?r = []")
    case True
    then have e0: "err = None" using acts(2) by simp
    have "circuitsOf cm' = addCircuits (batchOf pkts) (circuitsOf cm1)" using C(2) e0 unfolding b by simp
    then have "specOf cm' = (specOf cm)\<lparr>sp_circuits := addCircuits (batchOf pkts) (sp_circuits (specOf cm))\<rparr>"
      using C(3) L [OF e0] N(2) by (simp add: specOf_def)
    moreover have "r = Forward (map key (rc_adds ?r)) (map key (rc_drops ?r)) (map key (rc_fails ?r)) None"
      unfolding r using acts True by simp
    ultimately show ?thesis using circuit_spec.commit [OF F, of dbOk] True by simp
  next
    case False
    then have e0: "err = Some ErrDatabase" "dbOk = False" using acts(2) by simp_all
    then have "specOf cm' = specOf cm" using C(6) N(2) by simp
    moreover have "r = Forward [] (map key (rc_drops ?r)) (map key (rc_addFails ?r)) (Some ErrDatabase)"
      unfolding r using acts False by simp
    moreover have "map key (rc_adds ?r) \<noteq> []" using False by simp
    ultimately show ?thesis using circuit_spec.commit_failed [OF F _ AF] e0(2) by simp
  qed
qed

lemma open_refines:
  assumes inv: "cm_inv vk cm" and ok: "allowed vk cm (Open dbOk kss)" and e: "cmExec (Open dbOk kss) cm = (cm', r)"
  shows "cm_inv vk cm'" "circuit_spec (specOf cm) (Open dbOk kss) r (specOf cm')"
proof -
  obtain err where c: "OpenCircuits dbOk kss cm = (cm', err)" "r = Done err" using e by (auto split: prod.splits)
  have m: "mem_inv vk cm" using inv by (simp add: cm_inv_def)
  obtain A K where d: "disk cm = \<lparr>circuitAddKey = Some A, circuitKeystoneKey = Some K\<rparr>" using inv by (auto simp: cm_inv_def denotes_def)
  have ok': "openable kss (circuitsOf cm)" using ok by simp
  note O = OpenCircuits_inv [OF inv ok' c(1)]
  show "cm_inv vk cm'" by (rule O)
  have s: "sp_circuits (specOf cm) = circuitsOf cm" by (simp add: specOf_def)
  have err: "err = (if kss = [] then None else case keystoneError (circuitsOf cm) kss of Some er \<Rightarrow> Some er | None \<Rightarrow> if dbOk then None else Some ErrDatabase)"
  proof (cases "findKeystones cm kss")
    case (Inl er)
    then have "kss \<noteq> []" "keystoneError (circuitsOf cm) kss = Some er" using findKeystones_error [OF m, of kss er] by auto
    moreover have "err = Some er" using c(1) Inl \<open>kss \<noteq> []\<close> by (auto simp: OpenCircuits_def)
    ultimately show ?thesis by simp
  next
    case (Inr ps)
    then have "keystoneError (circuitsOf cm) kss = None" using findKeystones_error [OF m, of kss] by (cases "keystoneError (circuitsOf cm) kss") auto
    then show ?thesis using c(1) Inr by (cases "kss = []"; cases dbOk) (auto simp: OpenCircuits_def dbUpdate_def onKeystones_def onBucket_def d)
  qed
  show "circuit_spec (specOf cm) (Open dbOk kss) r (specOf cm')"
  proof (cases err)
    case None
    then have k: "keystoneError (circuitsOf cm) kss = None" "dbOk \<or> kss = []"
      using err by (auto split: if_splits option.splits)
    have "specOf cm' = (specOf cm)\<lparr>sp_circuits := addKeystones kss (sp_circuits (specOf cm))\<rparr>"
      using O(2,3) None OpenCircuits_loaded [OF c(1)] by (simp add: specOf_def)
    then show ?thesis using circuit_spec.open_ok [of "specOf cm" kss dbOk] k unfolding s c(2) None by simp
  next
    case (Some er)
    then have "cm' = cm" using O(5) by simp
    moreover have "keystoneError (circuitsOf cm) kss = Some er \<or> keystoneError (circuitsOf cm) kss = None \<and> \<not> dbOk \<and> kss \<noteq> [] \<and> er = ErrDatabase"
      using err Some by (auto split: if_splits option.splits)
    ultimately show ?thesis using circuit_spec.open_failed [of "specOf cm" kss er dbOk] unfolding s c(2) Some by simp
  qed
qed

lemma fail_refines:
  assumes inv: "cm_inv vk cm" and e: "cmExec (Fail k) cm = (cm', r)"
  shows "circuit_spec (specOf cm) (Fail k) r (specOf cm')"
proof (cases "pending cm k")
  case None
  then have "cm' = cm" "r = Circuit (Inl ErrUnknownCircuit)" using e by (simp_all add: FailCircuit_def shown_def)
  then show ?thesis using circuit_spec.failing_unknown [of "specOf cm" k] None by (simp add: specOf_def circuitsOf_None)
next
  case (Some p)
  have m: "mem_inv vk cm" using inv by (simp add: cm_inv_def)
  have i: "Incoming (heap cm p) = k" by (rule mem_invD(1) [OF m Some])
  have s: "sp_circuits (specOf cm) k = Some (CircuitEncode (heap cm p), Outgoing (heap cm p))" using Some by (simp add: specOf_def circuitsOf_def)
  show ?thesis
  proof (cases "k \<in> closed cm")
    case True
    then have "cm' = cm" "r = Circuit (Inl ErrCircuitClosing)" using e Some by (simp_all add: FailCircuit_def shown_def)
    then show ?thesis using circuit_spec.failing_twice [of "specOf cm" k] s True by (simp add: specOf_def)
  next
    case False
    then have c: "cm' = cm\<lparr>closed := insert k (closed cm)\<rparr>" "r = Circuit (Inr (k, CircuitEncode (heap cm p), Outgoing (heap cm p)))"
      using e Some i by (auto simp: FailCircuit_def shown_def)
    have "specOf cm' = (specOf cm)\<lparr>sp_closing := insert k (sp_closing (specOf cm))\<rparr>"
      unfolding c by (simp add: specOf_def circuitsOf_def loadedOf_def)
    then show ?thesis using circuit_spec.failing [OF s] False c(2) by (simp add: specOf_def)
  qed
qed

lemma close_refines:
  assumes inv: "cm_inv vk cm" and e: "cmExec (Close out) cm = (cm', r)"
  shows "circuit_spec (specOf cm) (Close out) r (specOf cm')"
proof -
  have m: "mem_inv vk cm" using inv by (simp add: cm_inv_def)
  show ?thesis
  proof (cases "opened cm out")
    case None
    then have "\<not> isOpen (circuitsOf cm) out" using opened_circuitsOf [OF m, of out] by (auto simp: isOpen_def)
    moreover have "cm' = cm" "r = Circuit (Inl ErrUnknownCircuit)" using e None by (simp_all add: CloseCircuit_def shown_def)
    ultimately show ?thesis using circuit_spec.closing_unknown [of "specOf cm" out] by (simp add: specOf_def)
  next
    case (Some p)
    let ?k = "Incoming (heap cm p)"
    have p: "pending cm ?k = Some p" "Outgoing (heap cm p) = Some out" using mem_invD(5) [OF m, of out p] Some by simp_all
    have s: "sp_circuits (specOf cm) ?k = Some (CircuitEncode (heap cm p), Some out)" using p by (simp add: specOf_def circuitsOf_def)
    show ?thesis
    proof (cases "?k \<in> closed cm")
      case True
      then have "cm' = cm" "r = Circuit (Inl ErrCircuitClosing)" using e Some by (simp_all add: CloseCircuit_def shown_def)
      then show ?thesis using circuit_spec.closing_twice [OF s] True by (simp add: specOf_def)
    next
      case False
      then have c: "cm' = cm\<lparr>closed := insert ?k (closed cm)\<rparr>" "r = Circuit (Inr (?k, CircuitEncode (heap cm p), Some out))"
        using e Some p by (auto simp: CloseCircuit_def shown_def)
      have "specOf cm' = (specOf cm)\<lparr>sp_closing := insert ?k (sp_closing (specOf cm))\<rparr>"
        unfolding c by (simp add: specOf_def circuitsOf_def loadedOf_def)
      then show ?thesis using circuit_spec.closing [OF s] False c(2) by (simp add: specOf_def)
    qed
  qed
qed

lemma delete_refines:
  assumes inv: "cm_inv vk cm" and e: "cmExec (Delete dbOk ks) cm = (cm', r)"
  shows "cm_inv vk cm'" "circuit_spec (specOf cm) (Delete dbOk ks) r (specOf cm')"
proof -
  obtain err where c: "DeleteCircuits dbOk ks cm = (cm', err)" "r = Done err" using e by (auto split: prod.splits)
  note D = DeleteCircuits_inv [OF inv c(1)] and R = DeleteCircuits_res [OF inv c(1)]
  show "cm_inv vk cm'" by (rule D)
  show "circuit_spec (specOf cm) (Delete dbOk ks) r (specOf cm')"
  proof (cases dbOk)
    case True
    then have "specOf cm' = \<lparr>sp_circuits = sp_circuits (specOf cm) |` (- set ks), sp_closing = sp_closing (specOf cm) - set ks,
        sp_loaded = sp_loaded (specOf cm) - set ks\<rparr>" using D(2,3) R by (simp add: specOf_def)
    then show ?thesis using circuit_spec.deleting [of "specOf cm" ks] R(1) True c(2) by simp
  next
    case False
    then show ?thesis using circuit_spec.deleting_failed [of "specOf cm" ks] R(1) D(4) c(2) by simp
  qed
qed

lemma trim_refines:
  assumes inv: "cm_inv vk cm" and e: "cmExec (Trim chanID start) cm = (cm', r)"
  shows "cm_inv vk cm'" "circuit_spec (specOf cm) (Trim chanID start) r (specOf cm')"
proof -
  obtain err where c: "TrimOpenCircuits True chanID start cm = (cm', err)" "r = Done err" using e by (auto split: prod.splits)
  note T = TrimOpenCircuits_inv [OF inv c(1)]
  show "cm_inv vk cm'" by (rule T)
  have "loadedOf cm' = loadedOf cm" using TrimOpenCircuits_keeps(1) [OF c(1)] by (simp add: loadedOf_def)
  then have "specOf cm' = (specOf cm)\<lparr>sp_circuits := dropKeystones (trimRun chanID start (sp_circuits (specOf cm))) (sp_circuits (specOf cm))\<rparr>"
    using T(2,4) by (simp add: specOf_def)
  then show "circuit_spec (specOf cm) (Trim chanID start) r (specOf cm')"
    using circuit_spec.trimming [of "specOf cm" chanID start] T(3) c(2) by simp
qed

lemma exec_refines:
  assumes "cm_inv vk cm" and "allowed vk cm op" and "cmExec op cm = (cm', r)"
  shows "cm_inv vk cm'" "circuit_spec (specOf cm) op r (specOf cm')"
proof -
  have "cm_inv vk cm' \<and> circuit_spec (specOf cm) op r (specOf cm')"
  proof (cases op)
    case (Commit dbOk pkts)
    then show ?thesis using commit_refines [of vk cm dbOk pkts cm' r] assms by blast
  next
    case (Open dbOk kss)
    then show ?thesis using open_refines [of vk cm dbOk kss cm' r] assms by blast
  next
    case (Fail k)
    obtain x where "FailCircuit k cm = (cm', x)" using assms(3) Fail by (auto split: prod.splits)
    then show ?thesis using FailCircuit_inv(1) [OF assms(1)] fail_refines [of vk cm k cm' r] assms Fail by blast
  next
    case (Close out)
    obtain x where "CloseCircuit out cm = (cm', x)" using assms(3) Close by (auto split: prod.splits)
    then show ?thesis using CloseCircuit_inv(1) [OF assms(1)] close_refines [of vk cm out cm' r] assms Close by blast
  next
    case (Delete dbOk ks)
    then show ?thesis using delete_refines [of vk cm dbOk ks cm' r] assms by blast
  next
    case (Trim chanID start)
    then show ?thesis using trim_refines [of vk cm chanID start cm' r] assms by blast
  qed
  then show "cm_inv vk cm'" "circuit_spec (specOf cm) op r (specOf cm')" by blast+
qed

inductive_cases circuit_specE: "circuit_spec s op r s'"

lemma addCircuits_dom: "dom (addCircuits cs m) = fst ` set cs \<union> dom m"
proof (induction cs arbitrary: m)
  case (Cons x cs)
  show ?case by (cases x) (auto simp: addCircuits_Cons Cons)
qed (simp add: addCircuits_def)

lemma addKeystones_dom: "dom (addKeystones kss m) = dom m"
proof -
  have "dom (m(k := map_option f (m k))) = dom m" for m :: circuits and k f by auto
  then show ?thesis unfolding addKeystones_def by (induction kss arbitrary: m) simp_all
qed

lemma dropKeystones_dom: "dom (dropKeystones outs m) = dom m"
  by (auto simp: dropKeystones_def dom_def split: option.splits)

lemma spec_finite:
  assumes "circuit_spec s op r s'" and "finite (dom (sp_circuits s))"
  shows "finite (dom (sp_circuits s'))"
  using assms by cases (simp_all add: addCircuits_dom addKeystones_dom dropKeystones_dom)

subsection \<open>Runs\<close>

fun state_inv :: "(bytes \<Rightarrow> bool) \<Rightarrow> cmState \<Rightarrow> bool" where
  "state_inv vk (Running cm) \<longleftrightarrow> cm_inv vk cm \<and> finite (dom (circuitsOf cm))"
| "state_inv vk (Stopped d) \<longleftrightarrow> (\<exists>m. holds vk d m)"

lemma running_holds: "cm_inv vk cm \<Longrightarrow> finite (dom (circuitsOf cm)) \<Longrightarrow> holds vk (disk cm) (circuitsOf cm)"
  using wf_circuitsOf by (auto simp: cm_inv_def intro: holdsI)

lemma cm_reachable_inv: "cm_reachable vk s \<Longrightarrow> state_inv vk s"
proof (induction rule: cm_reachable.induct)
  case fresh
  have "holds vk \<lparr>circuitAddKey = None, circuitKeystoneKey = None\<rparr> Map.empty"
    by (simp add: holds_def denotes_def withBuckets_def addsRep_def keystonesRep_def wf_circuits_def)
  then show ?case by auto
next
  case (start d env d' cm)
  then show ?case using NewCircuitMap_inv(1) [of env d _ d' cm] by auto
next
  case (failed d env d' err)
  then show ?case using NewCircuitMap_inv(2) [of env d _ d' err] by auto
next
  case (operation cm op cm' r)
  then have "cm_inv vk cm" "finite (dom (circuitsOf cm))" by simp_all
  then show ?case using exec_refines [OF _ operation(2,3)] spec_finite [of "specOf cm" op r "specOf cm'"] by (simp add: specOf_def)
next
  case (crash cm)
  then show ?case using running_holds by auto
qed

lemma reachable_running:
  assumes "cm_reachable vk (Running cm)"
  shows "cm_inv vk cm" "finite (dom (circuitsOf cm))"
  using cm_reachable_inv [OF assms] by simp_all

interpretation circuits: refinement cmExec circuit_spec specOf "cm_inv vk" "allowed vk" for vk
  by unfold_locales (rule exec_refines; assumption)+

subsection \<open>A circuit is handed out once\<close>

fun removes :: "CircuitKey \<Rightarrow> cmOp \<Rightarrow> bool" where
  "removes k (Delete dbOk ks) \<longleftrightarrow> dbOk \<and> k \<in> set ks"
| "removes k _ \<longleftrightarrow> False"

fun handsOut :: "CircuitKey \<Rightarrow> cmResp \<Rightarrow> bool" where
  "handsOut k (Circuit (Inr (k', e, out))) \<longleftrightarrow> k' = k"
| "handsOut k _ \<longleftrightarrow> False"

lemma closing_stays:
  assumes "circuit_spec s op r s'" and "k \<in> sp_closing s" and "\<not> removes k op"
  shows "k \<in> sp_closing s'" "\<not> handsOut k r"
  using assms by (cases; auto)+

lemma hands_out_closes: "circuit_spec s op r s' \<Longrightarrow> handsOut k r \<Longrightarrow> k \<in> sp_closing s'"
  by (cases rule: circuit_spec.cases) auto

interpretation handout: gated cmExec circuit_spec specOf "cm_inv vk" "allowed vk" "handsOut k" "\<lambda>s. k \<in> sp_closing s" "removes k" for vk k
  by unfold_locales (rule hands_out_closes closing_stays; assumption)+

subsection \<open>Starting succeeds\<close>

text \<open>The environment of a start in which nothing fails.\<close>

definition healthy :: "cmEnv \<Rightarrow> bool" where
  "healthy env \<longleftrightarrow> initOk env \<and> cleanOk env \<and> restoreOk env \<and> trimOk env \<and> FetchClosedChannels env \<noteq> None \<and>
     (\<exists>chans. FetchAllOpenChannels env = Some chans \<and> (\<forall>c \<in> set chans. ac_NextLocalHtlcIndex c \<noteq> None)) \<and>
     (\<forall>key. \<exists>key' secret. ExtractErrorEncrypter env key = (SphinxErrorEncrypter key' secret, 0))"

lemma decodeCircuit_ok:
  assumes "healthy env" and "wf_circuit (validKey env) c"
  shows "\<exists>c'. decodeCircuit (validKey env) (ExtractErrorEncrypter env) (CircuitEncode c) = Inr c'"
proof -
  have d: "CircuitDecode (validKey env) (CircuitEncode c) = Inr (stored c, [])" using CircuitDecode_Encode [OF assms(2), of "[]"] by simp
  have e: "pc_Encrypter (stored c) = map_option stripEncrypter (pc_Encrypter c)" by (simp add: stored_def)
  have r: "\<exists>x'. Reextract (ExtractErrorEncrypter env) (stripEncrypter x) = Inr x'" for x
  proof (cases x)
    case (SphinxErrorEncrypter k s)
    obtain k' s' where "ExtractErrorEncrypter env k = (SphinxErrorEncrypter k' s', 0)" using assms(1) unfolding healthy_def by blast
    then show ?thesis using SphinxErrorEncrypter by simp
  qed simp
  show ?thesis
  proof (cases "pc_Encrypter c")
    case None
    then show ?thesis by (simp add: decodeCircuit_def d e)
  next
    case (Some x)
    then show ?thesis using r [of x] by (auto simp: decodeCircuit_def d e)
  qed
qed

definition stored_entries :: "cmEnv \<Rightarrow> (bytes \<times> bytes) list \<Rightarrow> bool" where
  "stored_entries env es \<longleftrightarrow> (\<forall>(b, v) \<in> set es. \<exists>c. wf_circuit (validKey env) c \<and> v = CircuitEncode c)"

definition key_entries :: "(bytes \<times> bytes) list \<Rightarrow> bool" where
  "key_entries es \<longleftrightarrow> (\<forall>(b, v) \<in> set es. length b = 16 \<and> length v = 16)"

lemma closedCircuits_ok: "healthy env \<Longrightarrow> stored_entries env es \<Longrightarrow> \<exists>ks. closedCircuits env ids es = Inr ks"
proof (induction es)
  case (Cons x es)
  obtain b v where x: "x = (b, v)" by fastforce
  obtain c' where "decodeCircuit (validKey env) (ExtractErrorEncrypter env) v = Inr c'"
    using decodeCircuit_ok [OF Cons.prems(1)] Cons.prems(2) by (auto simp: stored_entries_def x)
  moreover obtain ks where "closedCircuits env ids es = Inr ks" using Cons by (auto simp: stored_entries_def)
  ultimately show ?case by (simp add: x)
qed simp

lemma loadCircuits_ok: "healthy env \<Longrightarrow> stored_entries env es \<Longrightarrow> \<exists>cm'. loadCircuits env es cm = Inr cm'"
proof (induction es arbitrary: cm)
  case (Cons x es)
  obtain b v where x: "x = (b, v)" by fastforce
  obtain c' where "decodeCircuit (validKey env) (ExtractErrorEncrypter env) v = Inr c'"
    using decodeCircuit_ok [OF Cons.prems(1)] Cons.prems(2) by (auto simp: stored_entries_def x)
  moreover have "stored_entries env es" using Cons.prems(2) by (simp add: stored_entries_def)
  ultimately show ?case using Cons.IH [OF Cons.prems(1)] by (simp add: x)
qed simp

lemma SetBytes_ok: "length b = 16 \<Longrightarrow> \<exists>k. SetBytes b = Inr k"
  by (simp add: SetBytes_def)

lemma closedKeystones_ok: "key_entries es \<Longrightarrow> \<exists>x. closedKeystones ids es = Inr x"
proof (induction es)
  case (Cons x es)
  obtain b v where x: "x = (b, v)" by fastforce
  obtain k out where "SetBytes v = Inr k" "SetBytes b = Inr out" using Cons.prems SetBytes_ok [of v] SetBytes_ok [of b] by (auto simp: key_entries_def x)
  moreover obtain ks outs where "closedKeystones ids es = Inr (ks, outs)" using Cons by (auto simp: key_entries_def)
  ultimately show ?case by (simp add: x)
qed simp

lemma loadKeystones_ok: "key_entries es \<Longrightarrow> \<exists>x. loadKeystones es cm = Inr x"
proof (induction es arbitrary: cm)
  case (Cons x es)
  obtain b v where x: "x = (b, v)" by fastforce
  have es: "key_entries es" using Cons.prems by (simp add: key_entries_def)
  obtain k out where k: "SetBytes v = Inr k" "SetBytes b = Inr out" using Cons.prems SetBytes_ok [of v] SetBytes_ok [of b] by (auto simp: key_entries_def x)
  show ?case
  proof (cases "pending cm k")
    case None
    obtain cm' st where "loadKeystones es cm = Inr (cm', st)" using Cons.IH [OF es, of cm] by auto
    then show ?thesis using k None by (simp add: x)
  next
    case (Some p)
    then show ?thesis using k Cons.IH [OF es] by (simp add: x)
  qed
qed simp

lemma CircuitKeyBytes_length [simp]: "length (CircuitKeyBytes k) = 16"
  by (simp add: CircuitKeyBytes_def)

lemma entries_ok:
  assumes "denotes d m" and "wf_circuits (validKey env) m" and "iterates env" and "finite (dom m)"
  obtains A K where "d = \<lparr>circuitAddKey = Some A, circuitKeystoneKey = Some K\<rparr>"
    "stored_entries env (bucketEntries (addOrder env A) A)" "key_entries (bucketEntries (keystoneOrder env K) K)"
proof -
  obtain A K where d: "d = \<lparr>circuitAddKey = Some A, circuitKeystoneKey = Some K\<rparr>" "addsRep A m" "keystonesRep K m"
    using assms(1) by (auto simp: denotes_def)
  note E = entries_of [OF assms(3) d(2,3) assms(4)]
  have "stored_entries env (bucketEntries (addOrder env A) A)"
    unfolding stored_entries_def E using adds_entry [OF d(2) assms(2)] by blast
  moreover have "key_entries (bucketEntries (keystoneOrder env K) K)"
    unfolding key_entries_def E using keystones_entry [OF d(3) assms(2)] by fastforce
  ultimately show ?thesis using that d(1) by blast
qed

lemma trimChannels_ok:
  assumes "cm_inv (validKey env) cm" and "trimOk env" and "\<forall>c \<in> set chans. ac_NextLocalHtlcIndex c \<noteq> None"
  shows "\<exists>cm'. trimChannels env chans cm = (cm', None)"
  using assms
proof (induction chans arbitrary: cm)
  case (Cons c chans)
  show ?case
  proof (cases "ac_IsPending c \<or> ac_ShortChanID c = zeroChanID")
    case True
    then have "trimChannels env (c # chans) cm = trimChannels env chans cm" by auto
    then show ?thesis using Cons by simp
  next
    case False
    obtain start where s: "ac_NextLocalHtlcIndex c = Some start" using Cons.prems(3) by auto
    obtain cm1 err where t: "TrimOpenCircuits True (ac_ShortChanID c) start cm = (cm1, err)" by fastforce
    note T = TrimOpenCircuits_inv [OF Cons.prems(1) t]
    have "trimChannels env (c # chans) cm = trimChannels env chans cm1" using False s t T(3) Cons.prems(2) by simp
    then show ?thesis using Cons.IH [OF T(1)] Cons.prems(2,3) by simp
  qed
qed simp

lemma start_ok:
  assumes h: "holds (validKey env) d m" and it: "iterates env" and ok: "healthy env"
  shows "\<exists>d' cm. NewCircuitMap env d = (d', Inr cm)"
proof -
  have H: "denotes (withBuckets d) m" "wf_circuits (validKey env) m" "finite (dom m)" using h by (simp_all add: holds_def)
  have O: "initOk env" "cleanOk env" "restoreOk env" "trimOk env" using ok by (simp_all add: healthy_def)
  obtain cs where cs: "FetchClosedChannels env = Some cs" using ok by (auto simp: healthy_def)
  obtain chans where chans: "FetchAllOpenChannels env = Some chans" "\<forall>c \<in> set chans. ac_NextLocalHtlcIndex c \<noteq> None"
    using ok by (auto simp: healthy_def)
  have i: "initBuckets env d = (withBuckets d, None)" by (simp add: initBuckets_def dbUpdate_def O withBuckets_def)
  obtain A K where d: "withBuckets d = \<lparr>circuitAddKey = Some A, circuitKeystoneKey = Some K\<rparr>"
    "stored_entries env (bucketEntries (addOrder env A) A)" "key_entries (bucketEntries (keystoneOrder env K) K)"
    using entries_ok [OF H(1,2) it H(3)] .
  obtain d2 where c: "cleanClosedChannels env (withBuckets d) = (d2, None)"
  proof -
    obtain ks where "closedCircuits env (closedIDs env) (bucketEntries (addOrder env A) A) = Inr ks" using closedCircuits_ok [OF ok d(2)] by blast
    moreover obtain x y where "closedKeystones (closedIDs env) (bucketEntries (keystoneOrder env K) K) = Inr (x, y)" using closedKeystones_ok [OF d(3)] by fastforce
    ultimately have "snd (cleanClosedChannels env (withBuckets d)) = None"
      unfolding cleanClosedChannels_def cs option.case Let_def d(1)
      by (simp add: closedIDs_def cs O dbUpdate_def onAdds_def onKeystones_def onBucket_def)
    then show ?thesis using that by (metis prod.collapse)
  qed
  let ?m = "m |` (- inClosed (closedIDs env) m)"
  have D: "denotes d2 ?m" by (rule cleanClosedChannels_spec [OF H(1,2) it H(3) c])
  have W: "wf_circuits (validKey env) ?m" "finite (dom ?m)" using wf_circuits_restrict [OF H(2)] dom_restrict [OF H(3)] .
  obtain A2 K2 where d2: "d2 = \<lparr>circuitAddKey = Some A2, circuitKeystoneKey = Some K2\<rparr>"
    "stored_entries env (bucketEntries (addOrder env A2) A2)" "key_entries (bucketEntries (keystoneOrder env K2) K2)"
    using entries_ok [OF D W(1) it W(2)] .
  obtain d3 cm where r: "restoreMemState env d2 = (d3, Inr cm)"
  proof -
    obtain cm1 where l: "loadCircuits env (bucketEntries (addOrder env A2) A2) (blankMap d2) = Inr cm1" using loadCircuits_ok [OF ok d2(2)] by blast
    obtain cm2 st where "loadKeystones (bucketEntries (keystoneOrder env K2) K2) cm1 = Inr (cm2, st)" using loadKeystones_ok [OF d2(3)] by fastforce
    then show ?thesis using that l unfolding restoreMemState_def d2(1)
      by (simp add: Let_def O dbUpdate_def onKeystones_def onBucket_def)
  qed
  have "cm_inv (validKey env) cm" by (rule restoreMemState_spec [OF D W(1) it W(2) r])
  then obtain cm' where "trimChannels env chans cm = (cm', None)" using trimChannels_ok [OF _ O(4) chans(2)] by blast
  then show ?thesis by (simp add: NewCircuitMap_def i c r trimAllOpenCircuits_def chans(1))
qed

end
