(* ===== verification/CircuitProps.thy ===== *)
theory CircuitProps
  imports CircuitSystem "HOL-Library.List_Lexorder"
begin

text \<open>
  The properties of the circuit map: it implements its specification, survives crashes, hands a
  circuit out once, and what its hash index does and does not guarantee.
\<close>

subsection \<open>An example\<close>

definition exEnv :: cmEnv where
  "exEnv = \<lparr>FetchClosedChannels = Some [], FetchAllOpenChannels = Some [], validKey = (\<lambda>_. True),
     ExtractErrorEncrypter = (\<lambda>key. (SphinxErrorEncrypter key (Some [1]), 0)), initOk = True, cleanOk = True,
     restoreOk = True, trimOk = True, addOrder = (\<lambda>b. sorted_list_of_set (dom b)),
     keystoneOrder = (\<lambda>b. sorted_list_of_set (dom b))\<rparr>"

definition exDisk :: circuitDisk where
  "exDisk = \<lparr>circuitAddKey = Some Map.empty, circuitKeystoneKey = Some Map.empty\<rparr>"

definition exKey :: "u32 \<Rightarrow> u64 \<Rightarrow> CircuitKey" where
  "exKey h i = \<lparr>ck_ChanID = \<lparr>BlockHeight = h, TxIndex = 0, TxPosition = 0\<rparr>, ck_HtlcID = i\<rparr>"

definition exPacket :: "CircuitKey \<Rightarrow> htlcPacket" where
  "exPacket k = \<lparr>incomingChanID = ck_ChanID k, incomingHTLCID = ck_HtlcID k, sourceRef = None, incomingAmount = 1000,
     pkt_amount = 900, obfuscator = None\<rparr>"

definition exHash :: "u8 \<Rightarrow> bytes" where
  "exHash b = replicate 32 b"

lemma exEnv_ok: "iterates exEnv" "healthy exEnv" "validKey exEnv = (\<lambda>_. True)"
  by (simp_all add: iterates_def healthy_def exEnv_def)

lemma run_reachable:
  assumes "cm_reachable vk (Running cm)" and "permittedRun (allowed vk) cmExec ops cm" and "execRun cmExec ops cm = (cm', rs)"
  shows "cm_reachable vk (Running cm')"
  using assms
proof (induction ops arbitrary: cm rs)
  case (Cons op ops)
  obtain cm1 r rs1 where e: "cmExec op cm = (cm1, r)" "execRun cmExec ops cm1 = (cm', rs1)"
    using execRun_Cons [OF Cons.prems(3)] by metis
  then have "cm_reachable vk (Running cm1)" using cm_reachable.operation [OF Cons.prems(1) _ e(1)] Cons.prems(2) by simp
  then show ?case using Cons.IH [of cm1] Cons.prems(2) e by simp
qed simp

lemma exStart: "cm_reachable (\<lambda>_. True) (Running (blankMap exDisk))"
proof (rule cm_reachable.start [OF cm_reachable.fresh exEnv_ok(1,3)])
  show "NewCircuitMap exEnv \<lparr>circuitAddKey = None, circuitKeystoneKey = None\<rparr> = (exDisk, Inr (blankMap exDisk))"
    by (simp add: NewCircuitMap_def exEnv_def initBuckets_def dbUpdate_def cleanClosedChannels_def restoreMemState_def bucketEntries_def
        onKeystones_def onBucket_def deleteKeys_def trimAllOpenCircuits_def exDisk_def blankMap_def)
qed

definition exOps :: "cmOp list" where
  "exOps = [Commit True [(exHash 1, exPacket (exKey 1 0))], Open True [\<lparr>ks_InKey = exKey 1 0, ks_OutKey = exKey 5 0\<rparr>],
            Close (exKey 5 0), Fail (exKey 1 0)]"

definition exMap :: circuitMap where
  "exMap = fst (execRun cmExec exOps (blankMap exDisk))"

lemmas ex_simps = newPaymentCircuit_def CommitCircuits_def reconcile.simps InKey_def Let_def dbUpdate_def onAdds_def onBucket_def
  onKeystones_def OpenCircuits_def openCircuit_def addCircuitToHashIndex_def CloseCircuit_def FailCircuit_def shown_def blankMap_def
  exDisk_def exKey_def exPacket_def makePaymentCircuit_def putKeystones_def putCircuits_def OutKey_def HasKeystone_def EmptyCircuitKey_def

lemma ex_allowed: "permittedRun (allowed (\<lambda>_. True)) cmExec exOps (blankMap exDisk)"
  by (simp add: exOps_def ex_simps wf_circuit_def wf_key_def small_id_def exHash_def openable_def wf_out_def zeroChanID_def circuitsOf_def)

lemma ex_run: "execRun cmExec exOps (blankMap exDisk) = (exMap, snd (execRun cmExec exOps (blankMap exDisk)))"
  by (simp add: exMap_def)

lemma exMap_reachable: "cm_reachable (\<lambda>_. True) (Running exMap)"
  by (rule run_reachable [OF exStart ex_allowed ex_run])

lemma exMap_opened: "opened exMap (exKey 5 0) = Some 0" "PaymentHash (heap exMap 0) = exHash 1" "Outgoing (heap exMap 0) = Some (exKey 5 0)"
  by (simp_all add: exMap_def exOps_def ex_simps)






lemma LookupByPaymentHash_iff: "p \<in> LookupByPaymentHash cm h \<longleftrightarrow> Some p \<in> opened cm ` hset cm h"
  by (simp add: LookupByPaymentHash_def hset_def in_these_eq split: option.split)

subsection \<open>The circuit map implements its specification\<close>









text \<open>C20. A start succeeds. On any disk that an earlier run of the program can leave behind, a start
  during which the database and the onion processor do not fail returns a circuit map: no
  record the program wrote is refused, and no loop of the start-up runs forever.\<close>

theorem restart_succeeds:
  assumes "cm_reachable vk (Stopped d)" and "iterates env" and "validKey env = vk" and "healthy env"
  shows "\<exists>d' cm. NewCircuitMap env d = (d', Inr cm) \<and> cm_reachable vk (Running cm)"
proof -
  obtain m where "holds (validKey env) d m" using cm_reachable_inv [OF assms(1)] assms(3) by auto
  then obtain d' cm where n: "NewCircuitMap env d = (d', Inr cm)" using start_ok [OF _ assms(2,4)] by blast
  then show ?thesis using cm_reachable.start [OF assms(1-3) n] by blast
qed

theorem restart_succeeds_witness: "\<exists>d' cm. NewCircuitMap exEnv (disk exMap) = (d', Inr cm) \<and> cm_reachable (\<lambda>_. True) (Running cm)"
  by (rule restart_succeeds [OF cm_reachable.crash [OF exMap_reachable] exEnv_ok(1,3,2)])

text \<open>C15. A circuit is handed out once. In any sequence of calls from a reachable state in which the
  circuit is not deleted, \<open>CloseCircuit\<close> and \<open>FailCircuit\<close> together return it at most once, whichever
  of its two keys they are called with: a settle or a fail is forwarded to the incoming link at most
  once.\<close>

theorem circuit_handed_out_once:
  assumes "cm_reachable vk (Running cm)" and "permittedRun (allowed vk) cmExec ops cm" and "execRun cmExec ops cm = (cm', rs)"
    and "\<forall>op \<in> set ops. \<not> removes k op"
  shows "length (filter (handsOut k) rs) \<le> 1"
  by (rule handout.once [OF reachable_running(1) [OF assms(1)] assms(2-4)])

lemma ex_responses: "filter (handsOut (exKey 1 0)) (snd (execRun cmExec exOps (blankMap exDisk))) \<noteq> []"
  by (simp add: exOps_def ex_simps)

theorem circuit_handed_out_once_witness:
  "length (filter (handsOut (exKey 1 0)) (snd (execRun cmExec exOps (blankMap exDisk)))) = 1"
proof -
  have "\<forall>op \<in> set exOps. \<not> removes (exKey 1 0) op" by (simp add: exOps_def)
  from circuit_handed_out_once [OF exStart ex_allowed ex_run this] show ?thesis using ex_responses
    by (simp add: order_antisym Suc_leI)
qed

text \<open>C24. A failed write changes nothing. When \<open>OpenCircuits\<close> or \<open>DeleteCircuits\<close> returns an error, the maps, the
  hash index, the circuits and the disk are exactly as before, although \<open>DeleteCircuits\<close> has removed the
  circuits from memory before the write; and when \<open>CommitCircuits\<close> fails, no circuit of the batch stays
  pending.\<close>

theorem failed_write_keeps_map:
  assumes "cm_reachable vk (Running cm)"
    and "OpenCircuits dbOk kss cm = (cm', Some err) \<or> DeleteCircuits dbOk ks cm = (cm', Some err) \<or>
      CommitCircuits dbOk ps cm = (cm', acts, Some err)"
  shows "cm' = cm"
  using assms(2)
proof (elim disjE)
  assume "OpenCircuits dbOk kss cm = (cm', Some err)"
  then show ?thesis using dbUpdate_failed
    by (auto simp: OpenCircuits_def split: if_splits sum.splits prod.splits option.splits)
next
  assume d: "DeleteCircuits dbOk ks cm = (cm', Some err)"
  then show ?thesis using DeleteCircuits_inv(4) [OF reachable_running(1) [OF assms(1)] d] by simp
next
  assume "CommitCircuits dbOk ps cm = (cm', acts, Some err)"
  then show ?thesis using reconcile_rollback [of "heap cm" ps "pending cm"] dbUpdate_failed
    by (auto simp: CommitCircuits_def Let_def split: if_splits prod.splits option.splits)
qed

theorem failed_write_keeps_map_witness:
  "DeleteCircuits False [exKey 1 0] exMap = (exMap, Some ErrDatabase) \<and> pending exMap (exKey 1 0) = Some 0"
proof -
  obtain cm' err where d: "DeleteCircuits False [exKey 1 0] exMap = (cm', err)" by fastforce
  have e: "err = Some ErrDatabase" using DeleteCircuits_res(1) [OF reachable_running(1) [OF exMap_reachable] d] by simp
  have "cm' = exMap" using failed_write_keeps_map [OF exMap_reachable] d e by blast
  moreover have "pending exMap (exKey 1 0) = Some 0" by (simp add: exMap_def exOps_def ex_simps)
  ultimately show ?thesis using d e by simp
qed

text \<open>C29. Lookup by payment hash is complete. In every reachable state, \<open>LookupByPaymentHash\<close> of a circuit's
  payment hash returns every open circuit with that hash.\<close>

theorem payment_hash_found:
  assumes "cm_reachable vk (Running cm)" and "LookupOpenCircuit cm out = Some p"
  shows "p \<in> LookupByPaymentHash cm (PaymentHash (heap cm p))"
proof -
  have "opened cm out = Some p" using assms(2) by (simp add: LookupOpenCircuit_def)
  then have "out \<in> hset cm (PaymentHash (heap cm p))" using reachable_running(1) [OF assms(1)] by (simp add: cm_inv_def index_inv_def)
  then show ?thesis using \<open>opened cm out = Some p\<close> unfolding LookupByPaymentHash_iff by force
qed

theorem payment_hash_found_witness: "0 \<in> LookupByPaymentHash exMap (exHash 1)"
proof -
  have "LookupOpenCircuit exMap (exKey 5 0) = Some 0" using exMap_opened(1) by (simp add: LookupOpenCircuit_def)
  from payment_hash_found [OF exMap_reachable this] show ?thesis using exMap_opened(2) by simp
qed


text \<open>C32. Encoding and decoding of circuits. Decoding what \<open>Encode\<close> writes for a circuit returns the circuit
  with its reference, keys, hash and amounts, without the keystone, which has its own bucket, and
  without the shared secret of its encrypter, which is extracted again; the rest of the input is left
  untouched.\<close>

theorem circuit_roundtrip:
  assumes "wf_circuit vk c"
  shows "CircuitDecode vk (CircuitEncode c @ r) =
    Inr (c\<lparr>Outgoing := None, LoadedFromDisk := False, pc_Encrypter := map_option stripEncrypter (pc_Encrypter c)\<rparr>, r)"
  using CircuitDecode_Encode [OF assms, of r] by (simp add: stored_def)

theorem circuit_roundtrip_witness:
  "CircuitDecode (\<lambda>_. True) (CircuitEncode (makePaymentCircuit (exHash 1) (exPacket (exKey 1 0))) @ [42]) =
     Inr (makePaymentCircuit (exHash 1) (exPacket (exKey 1 0)), [42])"
proof -
  have "wf_circuit (\<lambda>_. True) (makePaymentCircuit (exHash 1) (exPacket (exKey 1 0)))"
    by (simp add: wf_circuit_def wf_key_def small_id_def exHash_def ex_simps)
  from circuit_roundtrip [OF this, of "[42]"] show ?thesis by (simp add: makePaymentCircuit_def exPacket_def)
qed

end
