(* ===== verification/Payments.thy ===== *)
theory Payments
  imports Prelude "HOL-Library.Finite_Map" "HOL-Library.List_Lexorder"
begin

text \<open>
  Package \<^verbatim>\<open>channeldb\<close>, \<^verbatim>\<open>payment_control.go\<close>, \<^verbatim>\<open>payments.go\<close>, \<^verbatim>\<open>mp_payment.go\<close> and
  \<^verbatim>\<open>payments_inflight.go\<close>: the control of outgoing payments. The buckets are finite maps with
  their values decoded; a transaction is a function on the database whose effects are lost when
  it fails or, as the argument \<open>dbOk\<close> says, its commit does.
\<close>

subsection \<open>Data\<close>

datatype pay_error =
    ErrAlreadyPaid
  | ErrPaymentInFlight
  | ErrPaymentNotInitiated
  | ErrPaymentAlreadySucceeded
  | ErrPaymentAlreadyFailed
  | ErrPaymentTerminal
  | ErrAttemptAlreadySettled
  | ErrAttemptAlreadyFailed
  | ErrValueMismatch
  | ErrValueExceedsAmt
  | ErrNonMPPayment
  | ErrMPPayment
  | ErrMPPPaymentAddrMismatch
  | ErrMPPTotalAmountMismatch
  | errNoAttemptInfo
  | ErrSequenceNumberNotFound
  | ErrCreationInfoNotFound
  | ErrHtlcsBucketNotFound
  | ErrHtlcNotRegistered u64
  | ErrNoPaymentBucket
  | ErrCannotDeleteInFlight
  | ErrSeqNotInIndex u64
  | ErrDatabase
  | ErrNoSequenceNumber
  | ErrNoDuplicateBucket
  | ErrDuplicateNotFound
  | NilDereference

record MPP =
  paymentAddr :: bytes
  totalMAtoms :: u64

text \<open>Of a route and its hops, what the payment control reads.\<close>

record Hop =
  AmtToForward :: u64
  hop_MPP :: "MPP option"

record Route =
  TotalAmount :: u64
  Hops :: "Hop list"

definition ReceiverAmt :: "Route \<Rightarrow> u64" where
  "ReceiverAmt r = (if Hops r = [] then 0 else AmtToForward (last (Hops r)))"

definition TotalFees :: "Route \<Rightarrow> u64" where
  "TotalFees r = (if Hops r = [] then 0 else TotalAmount r - ReceiverAmt r)"

definition FinalHop :: "Route \<Rightarrow> Hop option" where
  "FinalHop r = (if Hops r = [] then None else Some (last (Hops r)))"

record HTLCAttemptInfo =
  AttemptID :: u64
  at_Route :: Route

record HTLCSettleInfo =
  Preimage :: bytes
  SettleTime :: int

record HTLCFailInfo =
  FailTime :: int
  Reason :: u8
  FailureSourceIndex :: u32

record HTLCAttempt =
  ha_Info :: HTLCAttemptInfo
  ha_Settle :: "HTLCSettleInfo option"
  ha_Failure :: "HTLCFailInfo option"

record PaymentCreationInfo =
  PaymentIdentifier :: bytes
  Value :: u64
  CreationTime :: int
  PaymentRequest :: bytes

datatype PaymentStatus = StatusUnknown | StatusInFlight | StatusSucceeded | StatusFailed

record MPPayment =
  SequenceNum :: u64
  Info :: PaymentCreationInfo
  HTLCs :: "HTLCAttempt list"
  FailureReason :: "u8 option"
  Status :: PaymentStatus

definition TerminalInfo :: "MPPayment \<Rightarrow> HTLCSettleInfo option \<times> u8 option" where
  "TerminalInfo m =
     (case List.find (\<lambda>h. ha_Settle h \<noteq> None) (HTLCs m) of
        Some h \<Rightarrow> (ha_Settle h, None)
      | None \<Rightarrow> (None, FailureReason m))"

definition SentAmt :: "MPPayment \<Rightarrow> u64 \<times> u64" where
  "SentAmt m =
     (let hs = filter (\<lambda>h. ha_Failure h = None) (HTLCs m)
      in (sum_list (map (\<lambda>h. ReceiverAmt (at_Route (ha_Info h))) hs),
          sum_list (map (\<lambda>h. TotalFees (at_Route (ha_Info h))) hs)))"

definition InFlightHTLCs :: "MPPayment \<Rightarrow> HTLCAttempt list" where
  "InFlightHTLCs m = filter (\<lambda>h. ha_Settle h = None \<and> ha_Failure h = None) (HTLCs m)"

definition GetAttempt :: "u64 \<Rightarrow> MPPayment \<Rightarrow> HTLCAttempt option" where
  "GetAttempt i m = List.find (\<lambda>h. AttemptID (ha_Info h) = i) (HTLCs m)"

subsection \<open>The database\<close>

text \<open>The buckets, with their values decoded: in the bucket of the HTLCs of a payment the keys are
  a prefix and the attempt id, one map for each prefix. The duplicate payments that old versions
  left behind, keyed by their sequence numbers, are only read.\<close>

record htlcsBucket =
  htlcAttemptInfo :: "(u64, HTLCAttemptInfo) fmap"
  htlcSettleInfo :: "(u64, HTLCSettleInfo) fmap"
  htlcFailInfo :: "(u64, HTLCFailInfo) fmap"

record paymentBucket =
  paymentSequenceKey :: "u64 option"
  paymentCreationInfoKey :: "PaymentCreationInfo option"
  paymentFailInfoKey :: "u8 option"
  paymentHtlcsBucket :: "htlcsBucket option"
  duplicatePaymentsBucket :: "(u64, MPPayment) fmap option"

record rootBucket =
  Sequence :: u64
  Payments :: "(bytes, paymentBucket) fmap"

record paymentsDB =
  paymentsRootBucket :: "rootBucket option"
  paymentsIndexBucket :: "(u64, bytes) fmap"
  paymentsInflightIndexBucket :: "u64 fset option"

record PaymentControl =
  currPaymentSeq :: u64
  storedPaymentSeq :: u64
  db :: paymentsDB

text \<open>The database as it is created: with the index of sequence numbers only.\<close>

definition newPaymentsDB :: paymentsDB where
  "newPaymentsDB = \<lparr>paymentsRootBucket = None, paymentsIndexBucket = fmempty, paymentsInflightIndexBucket = None\<rparr>"

definition NewPaymentControl :: "paymentsDB \<Rightarrow> PaymentControl" where
  "NewPaymentControl d = \<lparr>currPaymentSeq = 0, storedPaymentSeq = 0, db = d\<rparr>"

definition emptyBucket :: paymentBucket where
  "emptyBucket = \<lparr>paymentSequenceKey = None, paymentCreationInfoKey = None, paymentFailInfoKey = None,
     paymentHtlcsBucket = None, duplicatePaymentsBucket = None\<rparr>"

definition emptyHtlcs :: htlcsBucket where
  "emptyHtlcs = \<lparr>htlcAttemptInfo = fmempty, htlcSettleInfo = fmempty, htlcFailInfo = fmempty\<rparr>"

definition createRoot :: "paymentsDB \<Rightarrow> rootBucket" where
  "createRoot d = (case paymentsRootBucket d of Some r \<Rightarrow> r | None \<Rightarrow> \<lparr>Sequence = 0, Payments = fmempty\<rparr>)"

definition createPaymentBucket :: "bytes \<Rightarrow> paymentsDB \<Rightarrow> paymentsDB \<times> paymentBucket" where
  "createPaymentBucket h d =
     (let r = createRoot d;
          b = (case fmlookup (Payments r) h of Some b \<Rightarrow> b | None \<Rightarrow> emptyBucket)
      in (d\<lparr>paymentsRootBucket := Some (r\<lparr>Payments := fmupd h b (Payments r)\<rparr>)\<rparr>, b))"

definition fetchPaymentBucket :: "bytes \<Rightarrow> paymentsDB \<Rightarrow> pay_error + paymentBucket" where
  "fetchPaymentBucket h d =
     (case paymentsRootBucket d of
        None \<Rightarrow> Inl ErrPaymentNotInitiated
      | Some r \<Rightarrow> (case fmlookup (Payments r) h of None \<Rightarrow> Inl ErrPaymentNotInitiated | Some b \<Rightarrow> Inr b))"

definition putBucket :: "bytes \<Rightarrow> paymentBucket \<Rightarrow> paymentsDB \<Rightarrow> paymentsDB" where
  "putBucket h b d =
     d\<lparr>paymentsRootBucket := map_option (\<lambda>r. r\<lparr>Payments := fmupd h b (Payments r)\<rparr>) (paymentsRootBucket d)\<rparr>"

definition fetchHtlcAttempts :: "htlcsBucket \<Rightarrow> pay_error + HTLCAttempt list" where
  "fetchHtlcAttempts b =
     (let keys = fmdom (htlcAttemptInfo b) |\<union>| fmdom (htlcSettleInfo b) |\<union>| fmdom (htlcFailInfo b)
      in if fcard (fmdom (htlcAttemptInfo b)) \<noteq> fcard keys then Inl errNoAttemptInfo
         else Inr (map (\<lambda>aid. \<lparr>ha_Info = (the (fmlookup (htlcAttemptInfo b) aid))\<lparr>AttemptID := aid\<rparr>,
                               ha_Settle = fmlookup (htlcSettleInfo b) aid,
                               ha_Failure = fmlookup (htlcFailInfo b) aid\<rparr>)
                       (sorted_list_of_fset keys)))"

definition paymentStatus :: "HTLCAttempt list \<Rightarrow> u8 option \<Rightarrow> PaymentStatus" where
  "paymentStatus htlcs failureReason =
     (let settled = (\<exists>h \<in> set htlcs. ha_Failure h = None \<and> ha_Settle h \<noteq> None);
          inflight = (\<exists>h \<in> set htlcs. ha_Failure h = None \<and> ha_Settle h = None)
      in if \<not> inflight \<and> settled then StatusSucceeded
         else if \<not> inflight \<and> failureReason \<noteq> None then StatusFailed
         else StatusInFlight)"

definition fetchPayment :: "paymentBucket \<Rightarrow> pay_error + MPPayment" where
  "fetchPayment b =
     (case paymentSequenceKey b of
        None \<Rightarrow> Inl ErrSequenceNumberNotFound
      | Some sequenceNum \<Rightarrow>
          (case paymentCreationInfoKey b of
             None \<Rightarrow> Inl ErrCreationInfoNotFound
           | Some creationInfo \<Rightarrow>
               bindR (case paymentHtlcsBucket b of None \<Rightarrow> Inr [] | Some hb \<Rightarrow> fetchHtlcAttempts hb) (\<lambda>htlcs.
                 Inr \<lparr>SequenceNum = sequenceNum, Info = creationInfo, HTLCs = htlcs,
                      FailureReason = paymentFailInfoKey b,
                      Status = paymentStatus htlcs (paymentFailInfoKey b)\<rparr>)))"

definition fetchPaymentStatus :: "paymentBucket \<Rightarrow> pay_error + PaymentStatus" where
  "fetchPaymentStatus b =
     (if paymentCreationInfoKey b = None then Inr StatusUnknown
      else bindR (fetchPayment b) (\<lambda>p. Inr (Status p)))"

definition ensureInFlight :: "MPPayment \<Rightarrow> pay_error option" where
  "ensureInFlight p =
     (case Status p of
        StatusInFlight \<Rightarrow> None
      | StatusUnknown \<Rightarrow> Some ErrPaymentNotInitiated
      | StatusSucceeded \<Rightarrow> Some ErrPaymentAlreadySucceeded
      | StatusFailed \<Rightarrow> Some ErrPaymentAlreadyFailed)"

subsection \<open>The index of payments in flight\<close>

definition createPaymentInflightIndexEntry :: "u64 \<Rightarrow> paymentsDB \<Rightarrow> paymentsDB" where
  "createPaymentInflightIndexEntry s d =
     d\<lparr>paymentsInflightIndexBucket := map_option (finsert s) (paymentsInflightIndexBucket d)\<rparr>"

definition deletePaymentInflightIndexEntry :: "u64 \<Rightarrow> paymentsDB \<Rightarrow> paymentsDB" where
  "deletePaymentInflightIndexEntry s d =
     d\<lparr>paymentsInflightIndexBucket := map_option (\<lambda>i. i |-| {|s|}) (paymentsInflightIndexBucket d)\<rparr>"

definition updatePaymentInflightIndexEntry :: "MPPayment \<Rightarrow> paymentsDB \<Rightarrow> paymentsDB" where
  "updatePaymentInflightIndexEntry p d =
     (if Status p = StatusInFlight then createPaymentInflightIndexEntry (SequenceNum p) d
      else deletePaymentInflightIndexEntry (SequenceNum p) d)"

fun indexPayments :: "paymentBucket list \<Rightarrow> paymentsDB \<Rightarrow> pay_error + paymentsDB" where
  "indexPayments [] d = Inr d"
| "indexPayments (b # bs) d =
     bindR (fetchPayment b) (\<lambda>p. indexPayments bs (updatePaymentInflightIndexEntry p d))"

text \<open>The buckets of all payments, in the order of their keys.\<close>

definition bucketList :: "rootBucket \<Rightarrow> (bytes \<times> paymentBucket) list" where
  "bucketList r = map (\<lambda>h. (h, the (fmlookup (Payments r) h))) (sorted_list_of_fset (fmdom (Payments r)))"

definition recreatePaymentsInflightIndex :: "paymentsDB \<Rightarrow> pay_error + paymentsDB" where
  "recreatePaymentsInflightIndex d =
     (let d1 = (case paymentsInflightIndexBucket d of
                  None \<Rightarrow> d\<lparr>paymentsInflightIndexBucket := Some {||}\<rparr> | Some _ \<Rightarrow> d)
      in case paymentsRootBucket d1 of
           None \<Rightarrow> Inr d1
         | Some r \<Rightarrow> indexPayments (map snd (bucketList r)) d1)"

text \<open>What a start of the database does to the index. The version migrations of the same transaction
  touch no bucket of payments.\<close>

definition initDcrlndFeatures :: "paymentsDB \<Rightarrow> pay_error + paymentsDB" where
  "initDcrlndFeatures d =
     (if paymentsInflightIndexBucket d = None then recreatePaymentsInflightIndex d else Inr d)"

fun collectIndexed :: "u64 list \<Rightarrow> rootBucket \<Rightarrow> paymentsDB \<Rightarrow> pay_error + MPPayment list" where
  "collectIndexed [] r d = Inr []"
| "collectIndexed (s # ss) r d =
     (case fmlookup (paymentsIndexBucket d) s of
        None \<Rightarrow> Inl (ErrSeqNotInIndex s)
      | Some h \<Rightarrow>
          (case fmlookup (Payments r) h of
             None \<Rightarrow> Inl NilDereference
           | Some b \<Rightarrow>
               bindR (fetchPayment b) (\<lambda>p.
               bindR (collectIndexed ss r d) (\<lambda>ps.
                 Inr (if Status p = StatusInFlight then p # ps else ps)))))"

fun collectInFlight :: "paymentBucket list \<Rightarrow> pay_error + MPPayment list" where
  "collectInFlight [] = Inr []"
| "collectInFlight (b # bs) =
     bindR (fetchPaymentStatus b) (\<lambda>s.
       if s \<noteq> StatusInFlight then collectInFlight bs
       else bindR (fetchPayment b) (\<lambda>p. bindR (collectInFlight bs) (\<lambda>ps. Inr (p # ps))))"

definition FetchInFlightPayments :: "PaymentControl \<Rightarrow> pay_error + MPPayment list" where
  "FetchInFlightPayments pc =
     (case paymentsRootBucket (db pc) of
        None \<Rightarrow> Inr []
      | Some r \<Rightarrow>
          (case paymentsInflightIndexBucket (db pc) of
             Some i \<Rightarrow> collectIndexed (sorted_list_of_fset i) r (db pc)
           | None \<Rightarrow> collectInFlight (map snd (bucketList r))))"

definition FetchPayment :: "bytes \<Rightarrow> PaymentControl \<Rightarrow> pay_error + MPPayment" where
  "FetchPayment h pc = bindR (fetchPaymentBucket h (db pc)) fetchPayment"

subsection \<open>Operations\<close>

text \<open>A transaction: an error of its closure rolls it back, as does a failed commit.\<close>

definition inTx :: "bool \<Rightarrow> (paymentsDB \<Rightarrow> pay_error + (paymentsDB \<times> 'a)) \<Rightarrow> PaymentControl \<Rightarrow> PaymentControl \<times> (pay_error + 'a)" where
  "inTx dbOk f pc =
     (case f (db pc) of
        Inl err \<Rightarrow> (pc, Inl err)
      | Inr (d, x) \<Rightarrow> if dbOk then (pc\<lparr>db := d\<rparr>, Inr x) else (pc, Inl ErrDatabase))"

definition paymentSeqBlockSize :: u64 where
  "paymentSeqBlockSize = 1000"

definition nextPaymentSequence :: "bool \<Rightarrow> PaymentControl \<Rightarrow> PaymentControl \<times> (pay_error + u64)" where
  "nextPaymentSequence dbOk pc =
     (if currPaymentSeq pc = storedPaymentSeq pc then
        if \<not> dbOk then (pc, Inl ErrDatabase)
        else let r = createRoot (db pc);
                 currSeq = Sequence r;
                 newUpperBound = currSeq + paymentSeqBlockSize;
                 curr = (if currPaymentSeq pc = 0 then currSeq else currPaymentSeq pc)
             in (pc\<lparr>db := (db pc)\<lparr>paymentsRootBucket := Some (r\<lparr>Sequence := newUpperBound\<rparr>)\<rparr>,
                    currPaymentSeq := curr + 1, storedPaymentSeq := newUpperBound\<rparr>, Inr (curr + 1))
      else (pc\<lparr>currPaymentSeq := currPaymentSeq pc + 1\<rparr>, Inr (currPaymentSeq pc + 1)))"

definition initPaymentTx :: "bytes \<Rightarrow> PaymentCreationInfo \<Rightarrow> u64 \<Rightarrow> paymentsDB \<Rightarrow> pay_error + (paymentsDB \<times> pay_error option)" where
  "initPaymentTx h info sequenceNum d =
     (case createPaymentBucket h d of (d1, b) \<Rightarrow>
        bindR (fetchPaymentStatus b) (\<lambda>s.
          case s of
            StatusInFlight \<Rightarrow> Inr (d1, Some ErrPaymentInFlight)
          | StatusSucceeded \<Rightarrow> Inr (d1, Some ErrAlreadyPaid)
          | _ \<Rightarrow>
              (let d2 = (case paymentSequenceKey b of
                           None \<Rightarrow> d1
                         | Some s \<Rightarrow> d1\<lparr>paymentsIndexBucket := fmdrop s (paymentsIndexBucket d1)\<rparr>);
                   d3 = d2\<lparr>paymentsIndexBucket := fmupd sequenceNum (PaymentIdentifier info) (paymentsIndexBucket d2)\<rparr>;
                   b' = b\<lparr>paymentSequenceKey := Some sequenceNum, paymentCreationInfoKey := Some info,
                          paymentHtlcsBucket := None, paymentFailInfoKey := None\<rparr>
               in Inr (createPaymentInflightIndexEntry sequenceNum (putBucket h b' d3), None))))"

definition InitPayment :: "bool \<Rightarrow> bool \<Rightarrow> bytes \<Rightarrow> PaymentCreationInfo \<Rightarrow> PaymentControl \<Rightarrow> PaymentControl \<times> pay_error option" where
  "InitPayment seqOk dbOk h info pc =
     (case nextPaymentSequence seqOk pc of
        (pc1, Inl err) \<Rightarrow> (pc1, Some err)
      | (pc1, Inr sequenceNum) \<Rightarrow>
          (case inTx dbOk (initPaymentTx h info sequenceNum) pc1 of
             (pc2, Inl err) \<Rightarrow> (pc2, Some err)
           | (pc2, Inr updateErr) \<Rightarrow> (pc2, updateErr)))"

fun checkShards :: "MPP option \<Rightarrow> HTLCAttempt list \<Rightarrow> pay_error option" where
  "checkShards mpp [] = None"
| "checkShards mpp (h # hs) =
     (case FinalHop (at_Route (ha_Info h)) of
        None \<Rightarrow> Some NilDereference
      | Some hop \<Rightarrow>
          (case (mpp, hop_MPP hop) of
             (None, Some _) \<Rightarrow> Some ErrMPPayment
           | (Some _, None) \<Rightarrow> Some ErrNonMPPayment
           | (None, None) \<Rightarrow> checkShards mpp hs
           | (Some m, Some hm) \<Rightarrow>
               if paymentAddr m \<noteq> paymentAddr hm then Some ErrMPPPaymentAddrMismatch
               else if totalMAtoms m \<noteq> totalMAtoms hm then Some ErrMPPTotalAmountMismatch
               else checkShards mpp hs))"

definition registerAttemptTx :: "bytes \<Rightarrow> HTLCAttemptInfo \<Rightarrow> paymentsDB \<Rightarrow> pay_error + (paymentsDB \<times> MPPayment)" where
  "registerAttemptTx h attempt d =
     bindR (fetchPaymentBucket h d) (\<lambda>b.
     bindR (fetchPayment b) (\<lambda>p.
       if TerminalInfo p \<noteq> (None, None) then Inl ErrPaymentTerminal
       else case ensureInFlight p of
              Some err \<Rightarrow> Inl err
            | None \<Rightarrow>
                (case FinalHop (at_Route attempt) of
                   None \<Rightarrow> Inl NilDereference
                 | Some hop \<Rightarrow>
                     (case checkShards (hop_MPP hop) (InFlightHTLCs p) of
                        Some err \<Rightarrow> Inl err
                      | None \<Rightarrow>
                          (let amt = ReceiverAmt (at_Route attempt) in
                           if hop_MPP hop = None \<and> amt \<noteq> Value (Info p) then Inl ErrValueMismatch
                           else if fst (SentAmt p) + amt > Value (Info p) then Inl ErrValueExceedsAmt
                           else
                             let hb = (case paymentHtlcsBucket b of None \<Rightarrow> emptyHtlcs | Some hb \<Rightarrow> hb);
                                 b' = b\<lparr>paymentHtlcsBucket := Some (hb\<lparr>htlcAttemptInfo :=
                                        fmupd (AttemptID attempt) attempt (htlcAttemptInfo hb)\<rparr>)\<rparr>
                             in bindR (fetchPayment b') (\<lambda>payment.
                                  Inr (updatePaymentInflightIndexEntry payment (putBucket h b' d), payment)))))))"

definition RegisterAttempt :: "bool \<Rightarrow> bytes \<Rightarrow> HTLCAttemptInfo \<Rightarrow> PaymentControl \<Rightarrow> PaymentControl \<times> (pay_error + MPPayment)" where
  "RegisterAttempt dbOk h attempt pc = inTx dbOk (registerAttemptTx h attempt) pc"

datatype htlcOutcome = Settled HTLCSettleInfo | Failed HTLCFailInfo

fun putOutcome :: "u64 \<Rightarrow> htlcOutcome \<Rightarrow> htlcsBucket \<Rightarrow> htlcsBucket" where
  "putOutcome aid (Settled i) hb = hb\<lparr>htlcSettleInfo := fmupd aid i (htlcSettleInfo hb)\<rparr>"
| "putOutcome aid (Failed i) hb = hb\<lparr>htlcFailInfo := fmupd aid i (htlcFailInfo hb)\<rparr>"

definition updateHtlcKey :: "bytes \<Rightarrow> u64 \<Rightarrow> htlcOutcome \<Rightarrow> paymentsDB \<Rightarrow> pay_error + (paymentsDB \<times> MPPayment)" where
  "updateHtlcKey h aid val d =
     bindR (fetchPaymentBucket h d) (\<lambda>b.
     bindR (fetchPayment b) (\<lambda>p.
       case ensureInFlight p of
         Some err \<Rightarrow> Inl err
       | None \<Rightarrow>
           (case paymentHtlcsBucket b of
              None \<Rightarrow> Inl ErrHtlcsBucketNotFound
            | Some hb \<Rightarrow>
                if fmlookup (htlcAttemptInfo hb) aid = None then Inl (ErrHtlcNotRegistered aid)
                else if fmlookup (htlcFailInfo hb) aid \<noteq> None then Inl ErrAttemptAlreadyFailed
                else if fmlookup (htlcSettleInfo hb) aid \<noteq> None then Inl ErrAttemptAlreadySettled
                else
                  let b' = b\<lparr>paymentHtlcsBucket := Some (putOutcome aid val hb)\<rparr>
                  in bindR (fetchPayment b') (\<lambda>payment.
                       Inr (updatePaymentInflightIndexEntry payment (putBucket h b' d), payment)))))"

definition SettleAttempt :: "bool \<Rightarrow> bytes \<Rightarrow> u64 \<Rightarrow> HTLCSettleInfo \<Rightarrow> PaymentControl \<Rightarrow> PaymentControl \<times> (pay_error + MPPayment)" where
  "SettleAttempt dbOk h aid info pc = inTx dbOk (updateHtlcKey h aid (Settled info)) pc"

definition FailAttempt :: "bool \<Rightarrow> bytes \<Rightarrow> u64 \<Rightarrow> HTLCFailInfo \<Rightarrow> PaymentControl \<Rightarrow> PaymentControl \<times> (pay_error + MPPayment)" where
  "FailAttempt dbOk h aid info pc = inTx dbOk (updateHtlcKey h aid (Failed info)) pc"

definition failTx :: "bytes \<Rightarrow> u8 \<Rightarrow> paymentsDB \<Rightarrow> pay_error + (paymentsDB \<times> (pay_error + MPPayment))" where
  "failTx h reason d =
     (case fetchPaymentBucket h d of
        Inl err \<Rightarrow> if err = ErrPaymentNotInitiated then Inr (d, Inl ErrPaymentNotInitiated) else Inl err
      | Inr b \<Rightarrow>
          bindR (fetchPaymentStatus b) (\<lambda>s.
            if s = StatusUnknown then Inr (d, Inl ErrPaymentNotInitiated)
            else let b' = b\<lparr>paymentFailInfoKey := Some reason\<rparr>
                 in bindR (fetchPayment b') (\<lambda>payment.
                      Inr (updatePaymentInflightIndexEntry payment (putBucket h b' d), Inr payment))))"

definition FailPayment :: "bool \<Rightarrow> bytes \<Rightarrow> u8 \<Rightarrow> PaymentControl \<Rightarrow> PaymentControl \<times> (pay_error + MPPayment)" where
  "FailPayment dbOk h reason pc =
     (case inTx dbOk (failTx h reason) pc of
        (pc', Inl err) \<Rightarrow> (pc', Inl err)
      | (pc', Inr r) \<Rightarrow> (pc', r))"

subsection \<open>Deletion\<close>

definition fetchFailedHtlcKeys :: "paymentBucket \<Rightarrow> pay_error + u64 list" where
  "fetchFailedHtlcKeys b =
     bindR (case paymentHtlcsBucket b of None \<Rightarrow> Inr [] | Some hb \<Rightarrow> fetchHtlcAttempts hb) (\<lambda>htlcs.
       Inr (map (\<lambda>h. AttemptID (ha_Info h)) (filter (\<lambda>h. ha_Failure h \<noteq> None) htlcs)))"

definition dropHtlc :: "u64 \<Rightarrow> htlcsBucket \<Rightarrow> htlcsBucket" where
  "dropHtlc aid hb =
     \<lparr>htlcAttemptInfo = fmdrop aid (htlcAttemptInfo hb), htlcSettleInfo = fmdrop aid (htlcSettleInfo hb),
      htlcFailInfo = fmdrop aid (htlcFailInfo hb)\<rparr>"

definition dropHtlcs :: "u64 list \<Rightarrow> paymentBucket \<Rightarrow> paymentBucket" where
  "dropHtlcs aids b = b\<lparr>paymentHtlcsBucket := map_option (fold dropHtlc aids) (paymentHtlcsBucket b)\<rparr>"

definition dropIndexes :: "u64 list \<Rightarrow> paymentsDB \<Rightarrow> paymentsDB" where
  "dropIndexes ss d = d\<lparr>paymentsIndexBucket := fold fmdrop ss (paymentsIndexBucket d)\<rparr>"

definition dropPayments :: "bytes list \<Rightarrow> paymentsDB \<Rightarrow> paymentsDB" where
  "dropPayments hs d =
     d\<lparr>paymentsRootBucket := map_option (\<lambda>r. r\<lparr>Payments := fold fmdrop hs (Payments r)\<rparr>) (paymentsRootBucket d)\<rparr>"

definition fetchSequenceNumbers :: "paymentBucket \<Rightarrow> pay_error + u64 list" where
  "fetchSequenceNumbers b =
     (case paymentSequenceKey b of None \<Rightarrow> Inl ErrSequenceNumberNotFound | Some s \<Rightarrow>
        Inr (s # (case duplicatePaymentsBucket b of None \<Rightarrow> [] | Some m \<Rightarrow> sorted_list_of_fset (fmdom m))))"

definition deletePaymentTx :: "bytes \<Rightarrow> bool \<Rightarrow> paymentsDB \<Rightarrow> pay_error + (paymentsDB \<times> unit)" where
  "deletePaymentTx h failedHtlcsOnly d =
     (case paymentsRootBucket d of
        None \<Rightarrow> Inr (d, ())
      | Some r \<Rightarrow>
          (case fmlookup (Payments r) h of
             None \<Rightarrow> Inl ErrNoPaymentBucket
           | Some b \<Rightarrow>
               bindR (fetchPaymentStatus b) (\<lambda>s.
                 if s = StatusInFlight then Inl ErrCannotDeleteInFlight
                 else if failedHtlcsOnly then
                   bindR (fetchFailedHtlcKeys b) (\<lambda>toDelete. Inr (putBucket h (dropHtlcs toDelete b) d, ()))
                 else
                   bindR (fetchSequenceNumbers b) (\<lambda>seqNrs.
                     Inr (dropIndexes seqNrs (dropPayments [h] d), ())))))"

definition DeletePayment :: "bool \<Rightarrow> bytes \<Rightarrow> bool \<Rightarrow> PaymentControl \<Rightarrow> PaymentControl \<times> (pay_error + unit)" where
  "DeletePayment dbOk h failedHtlcsOnly pc = inTx dbOk (deletePaymentTx h failedHtlcsOnly) pc"

fun collectDeletes :: "bool \<Rightarrow> bool \<Rightarrow> (bytes \<times> paymentBucket) list \<Rightarrow>
    pay_error + (bytes list \<times> u64 list \<times> (bytes \<times> u64 list) list)" where
  "collectDeletes failedOnly failedHtlcsOnly [] = Inr ([], [], [])"
| "collectDeletes failedOnly failedHtlcsOnly ((h, b) # bs) =
     bindR (fetchPaymentStatus b) (\<lambda>s.
       if s = StatusInFlight \<or> failedOnly \<and> s \<noteq> StatusFailed then collectDeletes failedOnly failedHtlcsOnly bs
       else if failedHtlcsOnly then
         bindR (fetchFailedHtlcKeys b) (\<lambda>toDelete.
         bindR (collectDeletes failedOnly failedHtlcsOnly bs) (\<lambda>(hs, ss, hts). Inr (hs, ss, (h, toDelete) # hts)))
       else
         bindR (fetchSequenceNumbers b) (\<lambda>seqNrs.
         bindR (collectDeletes failedOnly failedHtlcsOnly bs) (\<lambda>(hs, ss, hts). Inr (h # hs, seqNrs @ ss, hts))))"

definition dropPaymentHtlcs :: "bytes \<times> u64 list \<Rightarrow> paymentsDB \<Rightarrow> paymentsDB" where
  "dropPaymentHtlcs x d =
     d\<lparr>paymentsRootBucket := map_option (\<lambda>r. r\<lparr>Payments :=
        (case fmlookup (Payments r) (fst x) of
           None \<Rightarrow> Payments r
         | Some b \<Rightarrow> fmupd (fst x) (dropHtlcs (snd x) b) (Payments r))\<rparr>) (paymentsRootBucket d)\<rparr>"

text \<open>With the index of payments in flight, the entries are deleted from the other index once more.\<close>

definition deletePaymentsTx :: "bool \<Rightarrow> bool \<Rightarrow> paymentsDB \<Rightarrow> pay_error + (paymentsDB \<times> unit)" where
  "deletePaymentsTx failedOnly failedHtlcsOnly d =
     (case paymentsRootBucket d of
        None \<Rightarrow> Inr (d, ())
      | Some r \<Rightarrow>
          bindR (collectDeletes failedOnly failedHtlcsOnly (bucketList r)) (\<lambda>(deleteBuckets, deleteIndexes, deleteHtlcs).
            let d1 = fold dropPaymentHtlcs deleteHtlcs d;
                d2 = dropPayments deleteBuckets d1;
                d3 = dropIndexes deleteIndexes d2
            in Inr (if paymentsInflightIndexBucket d3 = None then d3 else dropIndexes deleteIndexes d3, ())))"

definition DeletePayments :: "bool \<Rightarrow> bool \<Rightarrow> bool \<Rightarrow> PaymentControl \<Rightarrow> PaymentControl \<times> (pay_error + unit)" where
  "DeletePayments dbOk failedOnly failedHtlcsOnly pc = inTx dbOk (deletePaymentsTx failedOnly failedHtlcsOnly) pc"

subsection \<open>Queries\<close>

fun fetchAll :: "paymentBucket list \<Rightarrow> pay_error + MPPayment list" where
  "fetchAll [] = Inr []"
| "fetchAll (b # bs) =
     bindR (fetchPayment b) (\<lambda>p.
     bindR (fetchAll bs) (\<lambda>ps.
       Inr (p # (case duplicatePaymentsBucket b of
                   None \<Rightarrow> [] | Some m \<Rightarrow> map (\<lambda>s. the (fmlookup m s)) (sorted_list_of_fset (fmdom m))) @ ps)))"

definition FetchPayments :: "paymentsDB \<Rightarrow> pay_error + MPPayment list" where
  "FetchPayments d =
     (case paymentsRootBucket d of
        None \<Rightarrow> Inr []
      | Some r \<Rightarrow> bindR (fetchAll (map snd (bucketList r))) (\<lambda>ps. Inr (sort_key SequenceNum ps)))"

text \<open>The paginator: \<open>keys\<close> are the keys of the index in ascending order; \<open>cursorStart\<close> returns the keys
  the cursor passes from its start, in the order it passes them.\<close>

record paginator =
  reversed :: bool
  indexOffset :: u64
  totalItems :: u64

definition keyValueForIndex :: "u64 \<Rightarrow> u64 list \<Rightarrow> u64 list" where
  "keyValueForIndex i keys = dropWhile (\<lambda>k. k < i) keys"

definition lastIndex :: "u64 list \<Rightarrow> u64" where
  "lastIndex keys = (if keys = [] then 0 else last keys)"

definition cursorStart :: "paginator \<Rightarrow> u64 list \<Rightarrow> u64 list" where
  "cursorStart p keys =
     (if \<not> reversed p then keyValueForIndex (indexOffset p + 1) keys
      else if indexOffset p = 0 then rev keys
      else if indexOffset p = 1 then []
      else if indexOffset p > lastIndex keys then rev keys
      else rev (take (length keys - length (keyValueForIndex (indexOffset p) keys)) keys))"

fun queryLoop :: "u64 \<Rightarrow> (u64 \<Rightarrow> pay_error + 'a option) \<Rightarrow> nat \<Rightarrow> u64 list \<Rightarrow> pay_error + 'a list" where
  "queryLoop limit fetch n [] = Inr []"
| "queryLoop limit fetch n (k # ks) =
     (if n \<ge> unat limit then Inr []
      else bindR (fetch k) (\<lambda>added.
             case added of
               None \<Rightarrow> queryLoop limit fetch n ks
             | Some x \<Rightarrow> bindR (queryLoop limit fetch (n + 1) ks) (\<lambda>xs. Inr (x # xs))))"

definition query :: "paginator \<Rightarrow> (u64 \<Rightarrow> pay_error + 'a option) \<Rightarrow> u64 list \<Rightarrow> pay_error + 'a list" where
  "query p fetchAndAppend keys = queryLoop (totalItems p) fetchAndAppend 0 (cursorStart p keys)"

record PaymentsQuery =
  IndexOffset :: u64
  MaxPayments :: u64
  Reversed :: bool
  IncludeIncomplete :: bool

record PaymentsResponse =
  resp_Payments :: "MPPayment list"
  FirstIndexOffset :: u64
  LastIndexOffset :: u64

definition fetchPaymentWithSequenceNumber :: "bytes \<Rightarrow> u64 \<Rightarrow> paymentsDB \<Rightarrow> pay_error + MPPayment" where
  "fetchPaymentWithSequenceNumber h s d =
     bindR (fetchPaymentBucket h d) (\<lambda>b.
       case paymentSequenceKey b of
         None \<Rightarrow> Inl ErrNoSequenceNumber
       | Some s' \<Rightarrow>
           if s' = s then fetchPayment b
           else case duplicatePaymentsBucket b of
                  None \<Rightarrow> Inl ErrNoDuplicateBucket
                | Some m \<Rightarrow> (case fmlookup m s of None \<Rightarrow> Inl ErrDuplicateNotFound | Some p \<Rightarrow> Inr p))"

definition accumulatePayments :: "PaymentsQuery \<Rightarrow> paymentsDB \<Rightarrow> u64 \<Rightarrow> pay_error + MPPayment option" where
  "accumulatePayments q d s =
     bindR (fetchPaymentWithSequenceNumber (the (fmlookup (paymentsIndexBucket d) s)) s d) (\<lambda>payment.
       Inr (if Status payment \<noteq> StatusSucceeded \<and> \<not> IncludeIncomplete q then None else Some payment))"

definition pageOf :: "MPPayment list \<Rightarrow> PaymentsResponse" where
  "pageOf ps = \<lparr>resp_Payments = ps,
     FirstIndexOffset = (if ps = [] then 0 else SequenceNum (hd ps)),
     LastIndexOffset = (if ps = [] then 0 else SequenceNum (last ps))\<rparr>"

definition QueryPayments :: "PaymentsQuery \<Rightarrow> paymentsDB \<Rightarrow> pay_error + PaymentsResponse" where
  "QueryPayments q d =
     (case paymentsRootBucket d of
        None \<Rightarrow> Inr (pageOf [])
      | Some r \<Rightarrow>
          bindR (query \<lparr>reversed = Reversed q, indexOffset = IndexOffset q, totalItems = MaxPayments q\<rparr>
                   (accumulatePayments q d) (sorted_list_of_fset (fmdom (paymentsIndexBucket d)))) (\<lambda>ps.
            Inr (pageOf (if Reversed q then rev ps else ps))))"

subsection \<open>Wiping\<close>

text \<open>Wiping deletes the buckets of the list \<open>dbTopLevelBuckets\<close> and creates them anew; of the buckets
  of the payments the list has the index of sequence numbers.\<close>

definition Wipe :: "paymentsDB \<Rightarrow> paymentsDB" where
  "Wipe d = d\<lparr>paymentsIndexBucket := fmempty\<rparr>"

subsection \<open>Sequences of calls\<close>

datatype payOp =
    Init bool bool bytes PaymentCreationInfo
  | Register bool bytes HTLCAttemptInfo
  | Settle bool bytes u64 HTLCSettleInfo
  | FailHtlc bool bytes u64 HTLCFailInfo
  | FailPay bool bytes u8
  | Delete bool bytes bool
  | DeleteAll bool bool bool
  | Restart bool

definition errOf :: "'e + 'a \<Rightarrow> 'e option" where
  "errOf r = (case r of Inl e \<Rightarrow> Some e | Inr _ \<Rightarrow> None)"

fun payExec :: "payOp \<Rightarrow> PaymentControl \<Rightarrow> PaymentControl \<times> pay_error option" where
  "payExec (Init seqOk dbOk h info) pc = InitPayment seqOk dbOk h info pc"
| "payExec (Register dbOk h a) pc = (case RegisterAttempt dbOk h a pc of (pc', r) \<Rightarrow> (pc', errOf r))"
| "payExec (Settle dbOk h aid i) pc = (case SettleAttempt dbOk h aid i pc of (pc', r) \<Rightarrow> (pc', errOf r))"
| "payExec (FailHtlc dbOk h aid i) pc = (case FailAttempt dbOk h aid i pc of (pc', r) \<Rightarrow> (pc', errOf r))"
| "payExec (FailPay dbOk h reason) pc = (case FailPayment dbOk h reason pc of (pc', r) \<Rightarrow> (pc', errOf r))"
| "payExec (Delete dbOk h fo) pc = (case DeletePayment dbOk h fo pc of (pc', r) \<Rightarrow> (pc', errOf r))"
| "payExec (DeleteAll dbOk fo fh) pc = (case DeletePayments dbOk fo fh pc of (pc', r) \<Rightarrow> (pc', errOf r))"
| "payExec (Restart dbOk) pc =
     (case initDcrlndFeatures (db pc) of
        Inl err \<Rightarrow> (NewPaymentControl (db pc), Some err)
      | Inr d \<Rightarrow> if dbOk then (NewPaymentControl d, None) else (NewPaymentControl (db pc), Some ErrDatabase))"

end
