(* ===== verification/PaymentsInv.thy ===== *)
theory PaymentsInv
  imports Payments
begin

text \<open>
  The invariant of the payment control: the index of sequence numbers and the index of payments
  in flight are exact, the attempts of a payment that have not failed stay within its amount,
  and sequence numbers are new. Every transaction keeps it.
\<close>

subsection \<open>The invariant\<close>

definition bucketOf :: "paymentsDB \<Rightarrow> bytes \<Rightarrow> paymentBucket option" where
  "bucketOf d h = (case paymentsRootBucket d of None \<Rightarrow> None | Some r \<Rightarrow> fmlookup (Payments r) h)"

definition rootSeq :: "paymentsDB \<Rightarrow> u64" where
  "rootSeq d = (case paymentsRootBucket d of None \<Rightarrow> 0 | Some r \<Rightarrow> Sequence r)"

definition htlcs_ok :: "htlcsBucket \<Rightarrow> bool" where
  "htlcs_ok hb \<longleftrightarrow> fmdom (htlcSettleInfo hb) |\<subseteq>| fmdom (htlcAttemptInfo hb) \<and> fmdom (htlcFailInfo hb) |\<subseteq>| fmdom (htlcAttemptInfo hb) \<and>
     fmdom (htlcSettleInfo hb) |\<inter>| fmdom (htlcFailInfo hb) = {||}"

definition amountAt :: "htlcsBucket \<Rightarrow> u64 \<Rightarrow> nat" where
  "amountAt hb aid = unat (ReceiverAmt (at_Route (the (fmlookup (htlcAttemptInfo hb) aid))))"

text \<open>What the attempts of a payment that have not failed pay to the receiver.\<close>

definition sentOf :: "htlcsBucket \<Rightarrow> nat" where
  "sentOf hb = (\<Sum>aid \<in> fset (fmdom (htlcAttemptInfo hb)) - fset (fmdom (htlcFailInfo hb)). amountAt hb aid)"

definition htlcsOf :: "paymentBucket \<Rightarrow> htlcsBucket" where
  "htlcsOf b = (case paymentHtlcsBucket b of None \<Rightarrow> emptyHtlcs | Some hb \<Rightarrow> hb)"

definition isSettled :: "paymentBucket \<Rightarrow> bool" where
  "isSettled b \<longleftrightarrow> fmdom (htlcSettleInfo (htlcsOf b)) \<noteq> {||}"

definition isPending :: "paymentBucket \<Rightarrow> bool" where
  "isPending b \<longleftrightarrow> (\<exists>aid. aid |\<in>| fmdom (htlcAttemptInfo (htlcsOf b)) \<and> aid |\<notin>| fmdom (htlcSettleInfo (htlcsOf b)) \<and>
     aid |\<notin>| fmdom (htlcFailInfo (htlcsOf b)))"

definition statusOf :: "paymentBucket \<Rightarrow> PaymentStatus" where
  "statusOf b = (if isPending b then StatusInFlight else if isSettled b then StatusSucceeded
     else if paymentFailInfoKey b \<noteq> None then StatusFailed else StatusInFlight)"

definition bucket_ok :: "bytes \<Rightarrow> paymentBucket \<Rightarrow> bool" where
  "bucket_ok h b \<longleftrightarrow> (\<exists>s i. paymentSequenceKey b = Some s \<and> paymentCreationInfoKey b = Some i \<and> PaymentIdentifier i = h \<and>
     unat (Value i) < 2 ^ 63 \<and> htlcs_ok (htlcsOf b) \<and> sentOf (htlcsOf b) \<le> unat (Value i) \<and> duplicatePaymentsBucket b = None)"

definition db_inv :: "paymentsDB \<Rightarrow> bool" where
  "db_inv d \<longleftrightarrow> (\<forall>h b. bucketOf d h = Some b \<longrightarrow> bucket_ok h b) \<and>
     (\<forall>s h. fmlookup (paymentsIndexBucket d) s = Some h \<longleftrightarrow> (\<exists>b. bucketOf d h = Some b \<and> paymentSequenceKey b = Some s)) \<and>
     (\<forall>i. paymentsInflightIndexBucket d = Some i \<longrightarrow>
        (\<forall>s. s |\<in>| i \<longleftrightarrow> (\<exists>h b. bucketOf d h = Some b \<and> paymentSequenceKey b = Some s \<and> statusOf b = StatusInFlight)))"

definition seq_inv :: "PaymentControl \<Rightarrow> bool" where
  "seq_inv pc \<longleftrightarrow>
     (currPaymentSeq pc = 0 \<and> storedPaymentSeq pc = 0 \<or>
      0 < currPaymentSeq pc \<and> currPaymentSeq pc \<le> storedPaymentSeq pc \<and> storedPaymentSeq pc = rootSeq (db pc)) \<and>
     (\<forall>s \<in> fset (fmdom (paymentsIndexBucket (db pc))). 0 < s \<and> s \<le> (if currPaymentSeq pc = 0 then rootSeq (db pc) else currPaymentSeq pc))"

definition pay_inv :: "PaymentControl \<Rightarrow> bool" where
  "pay_inv pc \<longleftrightarrow> db_inv (db pc) \<and> seq_inv pc"

subsection \<open>Reading a payment\<close>

definition attemptsOf :: "htlcsBucket \<Rightarrow> HTLCAttempt list" where
  "attemptsOf hb = map (\<lambda>aid. \<lparr>ha_Info = (the (fmlookup (htlcAttemptInfo hb) aid))\<lparr>AttemptID := aid\<rparr>,
     ha_Settle = fmlookup (htlcSettleInfo hb) aid, ha_Failure = fmlookup (htlcFailInfo hb) aid\<rparr>)
     (sorted_list_of_fset (fmdom (htlcAttemptInfo hb)))"

lemma htlcs_union: "htlcs_ok hb \<Longrightarrow> fmdom (htlcAttemptInfo hb) |\<union>| fmdom (htlcSettleInfo hb) |\<union>| fmdom (htlcFailInfo hb) = fmdom (htlcAttemptInfo hb)"
  unfolding htlcs_ok_def by auto

lemma fetchHtlcAttempts_ok: "htlcs_ok hb \<Longrightarrow> fetchHtlcAttempts hb = Inr (attemptsOf hb)"
  by (simp add: fetchHtlcAttempts_def Let_def htlcs_union attemptsOf_def)

lemma fmlookup_None_iff: "fmlookup m k = None \<longleftrightarrow> k |\<notin>| fmdom m"
  using fmdom_notI fmdom_notD by metis

lemma fmlookup_Some_iff: "(\<exists>v. fmlookup m k = Some v) \<longleftrightarrow> k |\<in>| fmdom m"
  using fmlookup_None_iff [of m k] by auto

lemma sorted_list_of_fset_empty [simp]: "sorted_list_of_fset ({||} :: 'a :: linorder fset) = []"
  by (simp add: sorted_list_of_fset.rep_eq)

lemma distinct_sorted_fset [simp]: "distinct (sorted_list_of_fset S)"
  by (simp add: sorted_list_of_fset.rep_eq)

lemma paymentStatus_attempts:
  assumes "htlcs_ok (htlcsOf b)"
  shows "paymentStatus (attemptsOf (htlcsOf b)) (paymentFailInfoKey b) = statusOf b"
proof -
  let ?hb = "htlcsOf b"
  have "(\<exists>h \<in> set (attemptsOf ?hb). ha_Failure h = None \<and> ha_Settle h = None) \<longleftrightarrow> isPending b"
    unfolding attemptsOf_def isPending_def by (auto simp: fmlookup_None_iff)
  moreover have "(\<exists>h \<in> set (attemptsOf ?hb). ha_Failure h = None \<and> ha_Settle h \<noteq> None) \<longleftrightarrow> isSettled b"
  proof -
    have "(\<exists>h \<in> set (attemptsOf ?hb). ha_Failure h = None \<and> ha_Settle h \<noteq> None) \<longleftrightarrow>
      (\<exists>aid. aid |\<in>| fmdom (htlcAttemptInfo ?hb) \<and> aid |\<notin>| fmdom (htlcFailInfo ?hb) \<and> aid |\<in>| fmdom (htlcSettleInfo ?hb))"
      unfolding attemptsOf_def by (auto simp: fmlookup_None_iff fmlookup_Some_iff)
    also have "\<dots> \<longleftrightarrow> isSettled b" using assms unfolding isSettled_def htlcs_ok_def by blast
    finally show ?thesis .
  qed
  ultimately show ?thesis unfolding paymentStatus_def Let_def statusOf_def by auto
qed

lemma fetchHtlcs_ok:
  assumes "htlcs_ok (htlcsOf b)"
  shows "(case paymentHtlcsBucket b of None \<Rightarrow> Inr [] | Some hb \<Rightarrow> fetchHtlcAttempts hb) = Inr (attemptsOf (htlcsOf b))"
proof (cases "paymentHtlcsBucket b")
  case None
  have "fmdom fmempty = {||}" by simp
  then show ?thesis using None by (simp add: htlcsOf_def emptyHtlcs_def attemptsOf_def)
next
  case (Some hb)
  then show ?thesis using assms by (simp add: htlcsOf_def fetchHtlcAttempts_ok)
qed

definition paymentOf :: "paymentBucket \<Rightarrow> MPPayment" where
  "paymentOf b = \<lparr>SequenceNum = the (paymentSequenceKey b), Info = the (paymentCreationInfoKey b), HTLCs = attemptsOf (htlcsOf b),
     FailureReason = paymentFailInfoKey b, Status = statusOf b\<rparr>"

lemma fetchPayment_ok:
  assumes "bucket_ok h b"
  shows "fetchPayment b = Inr (paymentOf b)" "fetchPaymentStatus b = Inr (statusOf b)"
proof -
  obtain s i where b: "paymentSequenceKey b = Some s" "paymentCreationInfoKey b = Some i" "htlcs_ok (htlcsOf b)"
    using assms unfolding bucket_ok_def by blast
  then show "fetchPayment b = Inr (paymentOf b)"
    by (simp add: fetchPayment_def fetchHtlcs_ok paymentStatus_attempts paymentOf_def)
  then show "fetchPaymentStatus b = Inr (statusOf b)" using b by (simp add: fetchPaymentStatus_def paymentOf_def)
qed

lemma statusOf_known: "statusOf b \<noteq> StatusUnknown"
  by (simp add: statusOf_def)

lemma paymentOf_simps [simp]:
  "SequenceNum (paymentOf b) = the (paymentSequenceKey b)" "Info (paymentOf b) = the (paymentCreationInfoKey b)" "Status (paymentOf b) = statusOf b"
  "HTLCs (paymentOf b) = attemptsOf (htlcsOf b)" "FailureReason (paymentOf b) = paymentFailInfoKey b"
  by (simp_all add: paymentOf_def)

lemma find_settled: "List.find (\<lambda>h. ha_Settle h \<noteq> None) (attemptsOf hb) = None \<longleftrightarrow> (\<forall>aid. aid |\<in>| fmdom (htlcAttemptInfo hb) \<longrightarrow> aid |\<notin>| fmdom (htlcSettleInfo hb))"
  unfolding find_None_iff attemptsOf_def by (auto simp: fmlookup_None_iff)

lemma TerminalInfo_ok:
  assumes "htlcs_ok (htlcsOf b)"
  shows "TerminalInfo (paymentOf b) = (None, None) \<longleftrightarrow> \<not> isSettled b \<and> paymentFailInfoKey b = None"
proof -
  have f: "List.find (\<lambda>h. ha_Settle h \<noteq> None) (attemptsOf (htlcsOf b)) = None \<longleftrightarrow> \<not> isSettled b"
    unfolding find_settled isSettled_def using assms unfolding htlcs_ok_def by blast
  show ?thesis
  proof (cases "List.find (\<lambda>h. ha_Settle h \<noteq> None) (attemptsOf (htlcsOf b))")
    case None
    then show ?thesis using f by (simp add: TerminalInfo_def)
  next
    case (Some h)
    then have "ha_Settle h \<noteq> None" by (auto simp: find_Some_iff)
    then show ?thesis using f Some by (simp add: TerminalInfo_def)
  qed
qed

subsection \<open>Writing a payment\<close>

lemma bucketOf_put:
  assumes "bucketOf d h = Some b"
  shows "bucketOf (putBucket h b' d) h' = (if h' = h then Some b' else bucketOf d h')"
  using assms by (auto simp: bucketOf_def putBucket_def split: option.splits)

lemma bucketOf_inflight [simp]:
  "bucketOf (createPaymentInflightIndexEntry s d) = bucketOf d" "bucketOf (deletePaymentInflightIndexEntry s d) = bucketOf d"
  "bucketOf (updatePaymentInflightIndexEntry p d) = bucketOf d"
  by (simp_all add: fun_eq_iff bucketOf_def createPaymentInflightIndexEntry_def deletePaymentInflightIndexEntry_def updatePaymentInflightIndexEntry_def)

lemma index_put [simp]:
  "paymentsIndexBucket (putBucket h b d) = paymentsIndexBucket d" "paymentsInflightIndexBucket (putBucket h b d) = paymentsInflightIndexBucket d"
  "paymentsIndexBucket (updatePaymentInflightIndexEntry p d) = paymentsIndexBucket d" "rootSeq (putBucket h b d) = rootSeq d"
  "rootSeq (updatePaymentInflightIndexEntry p d) = rootSeq d"
  by (simp_all add: putBucket_def updatePaymentInflightIndexEntry_def createPaymentInflightIndexEntry_def deletePaymentInflightIndexEntry_def
      rootSeq_def split: option.split)

lemma db_invD:
  assumes "db_inv d"
  shows "bucketOf d h = Some b \<Longrightarrow> bucket_ok h b"
    "fmlookup (paymentsIndexBucket d) s = Some h \<longleftrightarrow> (\<exists>b. bucketOf d h = Some b \<and> paymentSequenceKey b = Some s)"
    "paymentsInflightIndexBucket d = Some i \<Longrightarrow> s |\<in>| i \<longleftrightarrow> (\<exists>h b. bucketOf d h = Some b \<and> paymentSequenceKey b = Some s \<and> statusOf b = StatusInFlight)"
  using assms unfolding db_inv_def by blast+

lemma seq_unique:
  assumes "db_inv d" and "bucketOf d h = Some b" "paymentSequenceKey b = Some s" and "bucketOf d h' = Some b'" "paymentSequenceKey b' = Some s"
  shows "h' = h"
  using db_invD(2) [OF assms(1), of s h] db_invD(2) [OF assms(1), of s h'] assms(2-5) by auto

lemma put_inv:
  assumes inv: "db_inv d" and b: "bucketOf d h = Some b" and b': "bucket_ok h b'" "paymentSequenceKey b' = paymentSequenceKey b"
  shows "db_inv (updatePaymentInflightIndexEntry (paymentOf b') (putBucket h b' d))"
proof -
  obtain s where s: "paymentSequenceKey b = Some s" using db_invD(1) [OF inv b] unfolding bucket_ok_def by blast
  let ?d = "updatePaymentInflightIndexEntry (paymentOf b') (putBucket h b' d)"
  have bk: "bucketOf ?d h' = (if h' = h then Some b' else bucketOf d h')" for h' by (simp add: bucketOf_put [OF b])
  show ?thesis unfolding db_inv_def
  proof (intro conjI allI impI)
    show "bucket_ok h' x" if "bucketOf ?d h' = Some x" for h' x
      using that db_invD(1) [OF inv, of h' x] b'(1) unfolding bk by (auto split: if_splits)
    show "fmlookup (paymentsIndexBucket ?d) s' = Some h' \<longleftrightarrow> (\<exists>x. bucketOf ?d h' = Some x \<and> paymentSequenceKey x = Some s')" for s' h'
      using db_invD(2) [OF inv, of s' h'] b b'(2) unfolding bk by simp
    show "s' |\<in>| i \<longleftrightarrow> (\<exists>h' x. bucketOf ?d h' = Some x \<and> paymentSequenceKey x = Some s' \<and> statusOf x = StatusInFlight)"
      if i: "paymentsInflightIndexBucket ?d = Some i" for i s'
    proof -
      obtain i0 where i0: "paymentsInflightIndexBucket d = Some i0"
        "i = (if statusOf b' = StatusInFlight then finsert s i0 else i0 |-| {|s|})"
        using i s b'(2) by (auto simp: updatePaymentInflightIndexEntry_def createPaymentInflightIndexEntry_def deletePaymentInflightIndexEntry_def split: if_splits)
      have old: "s' |\<in>| i0 \<longleftrightarrow> (\<exists>h' x. bucketOf d h' = Some x \<and> paymentSequenceKey x = Some s' \<and> statusOf x = StatusInFlight)"
        by (rule db_invD(3) [OF inv i0(1)])
      show ?thesis
      proof (cases "s' = s")
        case True
        have "(\<exists>h' x. bucketOf ?d h' = Some x \<and> paymentSequenceKey x = Some s \<and> statusOf x = StatusInFlight) \<longleftrightarrow> statusOf b' = StatusInFlight"
        proof
          assume "\<exists>h' x. bucketOf ?d h' = Some x \<and> paymentSequenceKey x = Some s \<and> statusOf x = StatusInFlight"
          then obtain h' x where x: "bucketOf ?d h' = Some x" "paymentSequenceKey x = Some s" "statusOf x = StatusInFlight" by blast
          show "statusOf b' = StatusInFlight"
          proof (cases "h' = h")
            case True
            then show ?thesis using x unfolding bk by simp
          next
            case False
            then have "bucketOf d h' = Some x" using x(1) unfolding bk by simp
            then show ?thesis using seq_unique [OF inv b s _ x(2)] False by blast
          qed
        next
          assume "statusOf b' = StatusInFlight"
          then show "\<exists>h' x. bucketOf ?d h' = Some x \<and> paymentSequenceKey x = Some s \<and> statusOf x = StatusInFlight"
            using s b'(2) unfolding bk by auto
        qed
        then show ?thesis using True i0(2) by simp
      next
        case False
        then have "s' |\<in>| i \<longleftrightarrow> s' |\<in>| i0" using i0(2) by simp
        moreover have "(\<exists>h' x. bucketOf ?d h' = Some x \<and> paymentSequenceKey x = Some s' \<and> statusOf x = StatusInFlight) \<longleftrightarrow>
          (\<exists>h' x. bucketOf d h' = Some x \<and> paymentSequenceKey x = Some s' \<and> statusOf x = StatusInFlight)"
          using False s b b'(2) unfolding bk by (metis option.inject)
        ultimately show ?thesis using old by simp
      qed
    qed
  qed
qed

subsection \<open>Amounts\<close>

lemma unat_sum_list:
  fixes f :: "'a \<Rightarrow> u64"
  assumes "(\<Sum>x \<leftarrow> xs. unat (f x)) < 2 ^ 64"
  shows "unat (\<Sum>x \<leftarrow> xs. f x) = (\<Sum>x \<leftarrow> xs. unat (f x))"
  using assms
proof (induction xs)
  case (Cons x xs)
  then have IH: "unat (\<Sum>x \<leftarrow> xs. f x) = (\<Sum>x \<leftarrow> xs. unat (f x))" by simp
  have "unat (f x) + unat (\<Sum>x \<leftarrow> xs. f x) < 2 ^ LENGTH(64)" using Cons.prems IH by simp
  then have "unat (f x + (\<Sum>x \<leftarrow> xs. f x)) = unat (f x) + unat (\<Sum>x \<leftarrow> xs. f x)" by (simp add: unat_plus_if_size word_size)
  then show ?case using IH by simp
qed simp

lemma sum_attempts:
  "(\<Sum>h \<leftarrow> filter (\<lambda>h. ha_Failure h = None) (attemptsOf hb). unat (ReceiverAmt (at_Route (ha_Info h)))) = sentOf hb"
proof -
  let ?ids = "filter (\<lambda>aid. fmlookup (htlcFailInfo hb) aid = None) (sorted_list_of_fset (fmdom (htlcAttemptInfo hb)))"
  have "(\<Sum>h \<leftarrow> filter (\<lambda>h. ha_Failure h = None) (attemptsOf hb). unat (ReceiverAmt (at_Route (ha_Info h)))) = (\<Sum>aid \<leftarrow> ?ids. amountAt hb aid)"
    unfolding attemptsOf_def filter_map comp_def by (simp add: comp_def amountAt_def)
  also have "\<dots> = (\<Sum>aid \<in> set ?ids. amountAt hb aid)" by (rule sum_list_distinct_conv_sum_set) (simp add: distinct_filter)
  also have "set ?ids = fset (fmdom (htlcAttemptInfo hb)) - fset (fmdom (htlcFailInfo hb))" by (auto simp: fmlookup_None_iff)
  finally show ?thesis unfolding sentOf_def .
qed

lemma SentAmt_ok:
  assumes "bucket_ok h b"
  shows "unat (fst (SentAmt (paymentOf b))) = sentOf (htlcsOf b)"
proof -
  obtain i :: PaymentCreationInfo where "sentOf (htlcsOf b) \<le> unat (Value i)" "unat (Value i) < 2 ^ 63" using assms unfolding bucket_ok_def by blast
  then have "sentOf (htlcsOf b) < 2 ^ 64" by simp
  then show ?thesis unfolding SentAmt_def Let_def fst_conv paymentOf_simps
    using unat_sum_list [of "\<lambda>h. ReceiverAmt (at_Route (ha_Info h))" "filter (\<lambda>h. ha_Failure h = None) (attemptsOf (htlcsOf b))"]
    unfolding sum_attempts by simp
qed

text \<open>The amounts after an attempt, an outcome, and the removal of failed attempts.\<close>

lemma sentOf_register:
  "sentOf (hb\<lparr>htlcAttemptInfo := fmupd aid a (htlcAttemptInfo hb)\<rparr>) \<le> sentOf hb + unat (ReceiverAmt (at_Route a))"
proof -
  let ?hb = "hb\<lparr>htlcAttemptInfo := fmupd aid a (htlcAttemptInfo hb)\<rparr>"
  let ?A = "fset (fmdom (htlcAttemptInfo hb)) - fset (fmdom (htlcFailInfo hb))"
  have "sentOf ?hb \<le> (\<Sum>x \<in> insert aid (?A - {aid}). amountAt ?hb x)"
    unfolding sentOf_def by (rule sum_mono2) auto
  also have "\<dots> = amountAt ?hb aid + (\<Sum>x \<in> ?A - {aid}. amountAt ?hb x)" by (subst sum.insert) auto
  also have "(\<Sum>x \<in> ?A - {aid}. amountAt ?hb x) = (\<Sum>x \<in> ?A - {aid}. amountAt hb x)" by (rule sum.cong) (auto simp: amountAt_def)
  also have "\<dots> \<le> sentOf hb" unfolding sentOf_def by (rule sum_mono2) auto
  finally show ?thesis by (simp add: amountAt_def)
qed

lemma sentOf_outcome: "sentOf (putOutcome aid val hb) \<le> sentOf hb"
proof (cases val)
  case (Settled i)
  then show ?thesis by (simp add: sentOf_def amountAt_def)
next
  case (Failed i)
  then show ?thesis unfolding sentOf_def amountAt_def by (auto intro: sum_mono2)
qed

lemma htlcs_ok_register: "htlcs_ok hb \<Longrightarrow> htlcs_ok (hb\<lparr>htlcAttemptInfo := fmupd aid a (htlcAttemptInfo hb)\<rparr>)"
  unfolding htlcs_ok_def by auto

lemma htlcs_ok_outcome:
  assumes "htlcs_ok hb" and "fmlookup (htlcAttemptInfo hb) aid \<noteq> None" "fmlookup (htlcFailInfo hb) aid = None" "fmlookup (htlcSettleInfo hb) aid = None"
  shows "htlcs_ok (putOutcome aid val hb)"
proof -
  have a: "aid |\<in>| fmdom (htlcAttemptInfo hb)" "aid |\<notin>| fmdom (htlcFailInfo hb)" "aid |\<notin>| fmdom (htlcSettleInfo hb)"
    using assms(2-4) fmlookup_None_iff by metis+
  show ?thesis
  proof (cases val)
    case (Settled i)
    then show ?thesis using assms(1) a unfolding htlcs_ok_def by auto
  next
    case (Failed i)
    then show ?thesis using assms(1) a unfolding htlcs_ok_def by auto
  qed
qed

subsection \<open>Attempts\<close>

lemma fetchPaymentBucket_iff: "fetchPaymentBucket h d = Inr b \<longleftrightarrow> bucketOf d h = Some b"
  by (auto simp: fetchPaymentBucket_def bucketOf_def split: option.splits)

lemma ensureInFlight_None: "ensureInFlight (paymentOf b) = None \<longleftrightarrow> statusOf b = StatusInFlight"
  by (simp add: ensureInFlight_def split: PaymentStatus.split)

lemma registerAttemptTx_inv:
  assumes inv: "db_inv d" and r: "registerAttemptTx h a d = Inr (d', p)" and amt: "unat (ReceiverAmt (at_Route a)) < 2 ^ 63"
  obtains b b' where "bucketOf d h = Some b" "\<not> isSettled b" "paymentFailInfoKey b = None"
    "b' = b\<lparr>paymentHtlcsBucket := Some ((htlcsOf b)\<lparr>htlcAttemptInfo := fmupd (AttemptID a) a (htlcAttemptInfo (htlcsOf b))\<rparr>)\<rparr>"
    "bucket_ok h b'" "d' = updatePaymentInflightIndexEntry (paymentOf b') (putBucket h b' d)"
    "sentOf (htlcsOf b) + unat (ReceiverAmt (at_Route a)) \<le> unat (Value (the (paymentCreationInfoKey b)))"
proof -
  obtain b where b: "bucketOf d h = Some b"
    using r by (auto simp: registerAttemptTx_def bindR_Inr_iff fetchPaymentBucket_iff)
  have ok: "bucket_ok h b" by (rule db_invD(1) [OF inv b])
  let ?hb = "(htlcsOf b)\<lparr>htlcAttemptInfo := fmupd (AttemptID a) a (htlcAttemptInfo (htlcsOf b))\<rparr>"
  let ?b = "b\<lparr>paymentHtlcsBucket := Some ?hb\<rparr>"
  obtain s i where si: "paymentSequenceKey b = Some s" "paymentCreationInfoKey b = Some i" "PaymentIdentifier i = h" "unat (Value i) < 2 ^ 63"
    "htlcs_ok (htlcsOf b)" "sentOf (htlcsOf b) \<le> unat (Value i)" "duplicatePaymentsBucket b = None" using ok unfolding bucket_ok_def by blast
  have f: "fetchPaymentBucket h d = Inr b" "fetchPayment b = Inr (paymentOf b)" using b fetchPayment_ok [OF ok] by (simp_all add: fetchPaymentBucket_iff)
  have hb: "(case paymentHtlcsBucket b of None \<Rightarrow> emptyHtlcs | Some hb \<Rightarrow> hb) = htlcsOf b" by (simp add: htlcsOf_def)
  have t: "TerminalInfo (paymentOf b) = (None, None)" "ensureInFlight (paymentOf b) = None"
    "\<not> fst (SentAmt (paymentOf b)) + ReceiverAmt (at_Route a) > Value i"
    "fetchPayment ?b = Inr p" "d' = updatePaymentInflightIndexEntry p (putBucket h ?b d)"
    using r unfolding registerAttemptTx_def f bindR_simps hb Let_def
    by (auto simp: si(2) bindR_Inr_iff split: if_splits option.splits)
  have sum: "sentOf (htlcsOf b) + unat (ReceiverAmt (at_Route a)) \<le> unat (Value i)"
  proof -
    have s: "unat (fst (SentAmt (paymentOf b))) = sentOf (htlcsOf b)" by (rule SentAmt_ok [OF ok])
    have "unat (fst (SentAmt (paymentOf b)) + ReceiverAmt (at_Route a)) = sentOf (htlcsOf b) + unat (ReceiverAmt (at_Route a))"
      using s si(4,6) amt by (simp add: unat_plus_if_size word_size)
    then show ?thesis using t(3) by (simp add: word_less_nat_alt not_less)
  qed
  have ok': "bucket_ok h ?b" unfolding bucket_ok_def
    using si sum sentOf_register [of "AttemptID a" a "htlcsOf b"] htlcs_ok_register [OF si(5)] by (simp add: htlcsOf_def)
  then have "p = paymentOf ?b" using t(4) fetchPayment_ok(1) [OF ok'] by simp
  then show ?thesis using that [OF b _ _ refl ok'] t(1,5) TerminalInfo_ok [OF si(5)] sum si(2) by auto
qed

lemma updateHtlcKey_inv:
  assumes inv: "db_inv d" and r: "updateHtlcKey h aid val d = Inr (d', p)"
  obtains b b' where "bucketOf d h = Some b" "b' = b\<lparr>paymentHtlcsBucket := Some (putOutcome aid val (htlcsOf b))\<rparr>"
    "bucket_ok h b'" "d' = updatePaymentInflightIndexEntry (paymentOf b') (putBucket h b' d)"
    "fmlookup (htlcAttemptInfo (htlcsOf b)) aid \<noteq> None" "fmlookup (htlcSettleInfo (htlcsOf b)) aid = None" "fmlookup (htlcFailInfo (htlcsOf b)) aid = None"
proof -
  obtain b where b: "bucketOf d h = Some b"
    using r by (auto simp: updateHtlcKey_def bindR_Inr_iff fetchPaymentBucket_iff)
  have ok: "bucket_ok h b" by (rule db_invD(1) [OF inv b])
  obtain s i where si: "paymentSequenceKey b = Some s" "paymentCreationInfoKey b = Some i" "PaymentIdentifier i = h" "unat (Value i) < 2 ^ 63"
    "htlcs_ok (htlcsOf b)" "sentOf (htlcsOf b) \<le> unat (Value i)" "duplicatePaymentsBucket b = None" using ok unfolding bucket_ok_def by blast
  have f: "fetchPaymentBucket h d = Inr b" "fetchPayment b = Inr (paymentOf b)" using b fetchPayment_ok [OF ok] by (simp_all add: fetchPaymentBucket_iff)
  let ?b = "b\<lparr>paymentHtlcsBucket := Some (putOutcome aid val (htlcsOf b))\<rparr>"
  have t: "ensureInFlight (paymentOf b) = None" "fmlookup (htlcAttemptInfo (htlcsOf b)) aid \<noteq> None"
    "fmlookup (htlcFailInfo (htlcsOf b)) aid = None" "fmlookup (htlcSettleInfo (htlcsOf b)) aid = None"
    "fetchPayment ?b = Inr p" "d' = updatePaymentInflightIndexEntry p (putBucket h ?b d)"
    using r unfolding updateHtlcKey_def f bindR_simps Let_def
    by (auto simp: bindR_Inr_iff htlcsOf_def split: if_splits option.splits)
  have ok': "bucket_ok h ?b" unfolding bucket_ok_def
    using si sentOf_outcome [of aid val "htlcsOf b"] htlcs_ok_outcome [OF si(5) t(2-4)] by (simp add: htlcsOf_def)
  then have "p = paymentOf ?b" using t(5) fetchPayment_ok(1) [OF ok'] by simp
  then show ?thesis using that [OF b refl ok' _ t(2,4,3)] t(6) by simp
qed

lemma failTx_inv:
  assumes inv: "db_inv d" and r: "failTx h reason d = Inr (d', x)"
  obtains (unknown) "bucketOf d h = None" "d' = d" "x = Inl ErrPaymentNotInitiated"
  | (known) b b' where "bucketOf d h = Some b" "b' = b\<lparr>paymentFailInfoKey := Some reason\<rparr>"
    "bucket_ok h b'" "d' = updatePaymentInflightIndexEntry (paymentOf b') (putBucket h b' d)" "x = Inr (paymentOf b')"
proof (cases "bucketOf d h")
  case None
  then have "fetchPaymentBucket h d = Inl ErrPaymentNotInitiated" by (auto simp: fetchPaymentBucket_def bucketOf_def split: option.splits)
  then show ?thesis using r unknown [OF None] by (simp add: failTx_def)
next
  case (Some b)
  have ok: "bucket_ok h b" by (rule db_invD(1) [OF inv Some])
  let ?b = "b\<lparr>paymentFailInfoKey := Some reason\<rparr>"
  have ok': "bucket_ok h ?b" using ok by (simp add: bucket_ok_def htlcsOf_def)
  have f: "fetchPaymentBucket h d = Inr b" using Some by (simp add: fetchPaymentBucket_iff)
  show ?thesis using r known [OF Some refl ok']
    unfolding failTx_def f by (simp add: statusOf_known Let_def fetchPayment_ok [OF ok] fetchPayment_ok [OF ok'])
qed

subsection \<open>A new payment\<close>

definition newBucket :: "u64 \<Rightarrow> PaymentCreationInfo \<Rightarrow> paymentBucket" where
  "newBucket s info = \<lparr>paymentSequenceKey = Some s, paymentCreationInfoKey = Some info, paymentFailInfoKey = None, paymentHtlcsBucket = None,
     duplicatePaymentsBucket = None\<rparr>"

lemma newBucket_ok:
  assumes "PaymentIdentifier info = h" "unat (Value info) < 2 ^ 63"
  shows "bucket_ok h (newBucket s info)" "statusOf (newBucket s info) = StatusInFlight" "htlcsOf (newBucket s info) = emptyHtlcs"
  using assms by (simp_all add: newBucket_def bucket_ok_def htlcsOf_def emptyHtlcs_def htlcs_ok_def sentOf_def statusOf_def isPending_def isSettled_def)

definition startPayment :: "bytes \<Rightarrow> PaymentCreationInfo \<Rightarrow> u64 \<Rightarrow> paymentsDB \<Rightarrow> paymentsDB" where
  "startPayment h info s d =
     \<lparr>paymentsRootBucket = Some ((createRoot d)\<lparr>Payments := fmupd h (newBucket s info) (Payments (createRoot d))\<rparr>),
      paymentsIndexBucket = fmupd s (PaymentIdentifier info)
        (case bucketOf d h of None \<Rightarrow> paymentsIndexBucket d
         | Some b \<Rightarrow> (case paymentSequenceKey b of None \<Rightarrow> paymentsIndexBucket d | Some s0 \<Rightarrow> fmdrop s0 (paymentsIndexBucket d))),
      paymentsInflightIndexBucket = map_option (finsert s) (paymentsInflightIndexBucket d)\<rparr>"

lemma fmupd_same: "fmlookup m k = Some v \<Longrightarrow> fmupd k v m = m"
  by (rule fmap_ext) auto

lemma fmupd_twice: "fmupd k v (fmupd k w m) = fmupd k v m"
  by (rule fmap_ext) simp

lemma createRoot_lookup: "fmlookup (Payments (createRoot d)) h = bucketOf d h"
  by (simp add: createRoot_def bucketOf_def split: option.split)

lemma initPaymentTx_ok:
  assumes inv: "db_inv d"
  shows "initPaymentTx h info s d =
    (case bucketOf d h of
       None \<Rightarrow> Inr (startPayment h info s d, None)
     | Some b \<Rightarrow> (case statusOf b of
         StatusInFlight \<Rightarrow> Inr (d, Some ErrPaymentInFlight)
       | StatusSucceeded \<Rightarrow> Inr (d, Some ErrAlreadyPaid)
       | _ \<Rightarrow> Inr (startPayment h info s d, None)))"
proof (cases "bucketOf d h")
  case None
  then show ?thesis
    by (simp add: initPaymentTx_def createPaymentBucket_def Let_def createRoot_lookup fetchPaymentStatus_def emptyBucket_def
        startPayment_def putBucket_def createPaymentInflightIndexEntry_def newBucket_def fmupd_twice)
next
  case (Some b)
  have ok: "bucket_ok h b" by (rule db_invD(1) [OF inv Some])
  obtain r where r: "paymentsRootBucket d = Some r" "fmlookup (Payments r) h = Some b" using Some by (auto simp: bucketOf_def split: option.splits)
  have c: "createPaymentBucket h d = (d, b)" using r by (simp add: createPaymentBucket_def createRoot_def fmupd_same)
  obtain s0 where s0: "paymentSequenceKey b = Some s0" using ok unfolding bucket_ok_def by blast
  show ?thesis
  proof (cases "statusOf b")
    case StatusUnknown
    then show ?thesis using statusOf_known by blast
  next
    case StatusFailed
    have "b\<lparr>paymentSequenceKey := Some s, paymentCreationInfoKey := Some info, paymentHtlcsBucket := None, paymentFailInfoKey := None\<rparr> = newBucket s info"
      using ok by (cases b) (auto simp: newBucket_def bucket_ok_def)
    then show ?thesis using StatusFailed Some r s0
      by (simp add: initPaymentTx_def c fetchPayment_ok [OF ok] Let_def startPayment_def putBucket_def createPaymentInflightIndexEntry_def createRoot_def)
  qed (simp_all add: initPaymentTx_def c fetchPayment_ok [OF ok] Some)
qed

lemma startPayment_bucketOf: "bucketOf (startPayment h info s d) h' = (if h' = h then Some (newBucket s info) else bucketOf d h')"
proof -
  have "bucketOf (startPayment h info s d) h' = (if h' = h then Some (newBucket s info) else fmlookup (Payments (createRoot d)) h')"
    by (simp add: startPayment_def bucketOf_def)
  then show ?thesis unfolding createRoot_lookup .
qed

lemma startPayment_inv:
  assumes inv: "db_inv d" and info: "PaymentIdentifier info = h" "unat (Value info) < 2 ^ 63"
    and fresh: "s |\<notin>| fmdom (paymentsIndexBucket d)"
    and old: "\<And>b. bucketOf d h = Some b \<Longrightarrow> statusOf b \<noteq> StatusInFlight"
  shows "db_inv (startPayment h info s d)"
proof -
  let ?d = "startPayment h info s d" and ?n = "newBucket s info"
  note bk = startPayment_bucketOf [of h info s d]
  note n = newBucket_ok [OF info, of s]
  have ns: "paymentSequenceKey ?n = Some s" by (simp add: newBucket_def)
  have fr: "paymentSequenceKey x \<noteq> Some s" if "bucketOf d h' = Some x" for h' x
    using db_invD(2) [OF inv, of s h'] that fresh fmlookup_None_iff by (metis option.distinct(1))
  have ix: "fmlookup (paymentsIndexBucket ?d) s' = Some h' \<longleftrightarrow> (if s' = s then h' = h else fmlookup (paymentsIndexBucket d) s' = Some h' \<and> h' \<noteq> h)" for s' h'
  proof (cases "bucketOf d h")
    case None
    then have "fmlookup (paymentsIndexBucket d) s' \<noteq> Some h" using db_invD(2) [OF inv, of s' h] by simp
    then show ?thesis using None info(1) by (auto simp: startPayment_def)
  next
    case (Some b)
    obtain s0 where s0: "paymentSequenceKey b = Some s0" using db_invD(1) [OF inv Some] unfolding bucket_ok_def by blast
    have "fmlookup (paymentsIndexBucket d) s' = Some h \<longleftrightarrow> s' = s0" using db_invD(2) [OF inv, of s' h] Some s0 by auto
    then show ?thesis using Some s0 info(1) by (auto simp: startPayment_def)
  qed
  show ?thesis unfolding db_inv_def
  proof (intro conjI allI impI)
    show "bucket_ok h' x" if "bucketOf ?d h' = Some x" for h' x
      using that db_invD(1) [OF inv, of h' x] n(1) unfolding bk by (auto split: if_splits)
    show "fmlookup (paymentsIndexBucket ?d) s' = Some h' \<longleftrightarrow> (\<exists>x. bucketOf ?d h' = Some x \<and> paymentSequenceKey x = Some s')" for s' h'
      using db_invD(2) [OF inv, of s' h'] fr [of h'] ns unfolding ix bk by auto
    show "s' |\<in>| i \<longleftrightarrow> (\<exists>h' x. bucketOf ?d h' = Some x \<and> paymentSequenceKey x = Some s' \<and> statusOf x = StatusInFlight)"
      if i: "paymentsInflightIndexBucket ?d = Some i" for i s'
    proof -
      obtain i0 where i0: "paymentsInflightIndexBucket d = Some i0" "i = finsert s i0" using i by (auto simp: startPayment_def)
      show ?thesis
      proof (cases "s' = s")
        case True
        then show ?thesis using i0(2) ns n(2) unfolding bk by auto
      next
        case False
        then have "s' |\<in>| i \<longleftrightarrow> s' |\<in>| i0" using i0(2) by simp
        also have "\<dots> \<longleftrightarrow> (\<exists>h' x. bucketOf d h' = Some x \<and> paymentSequenceKey x = Some s' \<and> statusOf x = StatusInFlight)"
          by (rule db_invD(3) [OF inv i0(1)])
        also have "\<dots> \<longleftrightarrow> (\<exists>h' x. bucketOf ?d h' = Some x \<and> paymentSequenceKey x = Some s' \<and> statusOf x = StatusInFlight)"
          using False ns old unfolding bk by (metis option.inject)
        finally show ?thesis .
      qed
    qed
  qed
qed

subsection \<open>Deletion\<close>

lemma fmlookup_fold_fmdrop: "fmlookup (fold fmdrop ks m) k = (if k \<in> set ks then None else fmlookup m k)"
  by (induction ks arbitrary: m) auto

lemma fmdom_fold_fmdrop: "k |\<in>| fmdom (fold fmdrop ks m) \<longleftrightarrow> k |\<in>| fmdom m \<and> k \<notin> set ks"
  using fmlookup_fold_fmdrop [of ks m k] fmlookup_None_iff [of "fold fmdrop ks m" k] fmlookup_None_iff [of m k] by (auto split: if_splits)

lemma fold_dropHtlc:
  "fold dropHtlc aids hb = \<lparr>htlcAttemptInfo = fold fmdrop aids (htlcAttemptInfo hb), htlcSettleInfo = fold fmdrop aids (htlcSettleInfo hb),
     htlcFailInfo = fold fmdrop aids (htlcFailInfo hb)\<rparr>"
  by (induction aids arbitrary: hb) (simp_all add: dropHtlc_def)

definition failedKeys :: "paymentBucket \<Rightarrow> u64 list" where
  "failedKeys b = filter (\<lambda>aid. aid |\<in>| fmdom (htlcFailInfo (htlcsOf b))) (sorted_list_of_fset (fmdom (htlcAttemptInfo (htlcsOf b))))"

lemma fetchFailedHtlcKeys_ok:
  assumes "htlcs_ok (htlcsOf b)"
  shows "fetchFailedHtlcKeys b = Inr (failedKeys b)"
  unfolding fetchFailedHtlcKeys_def fetchHtlcs_ok [OF assms] failedKeys_def attemptsOf_def
  by (simp add: filter_map comp_def fmlookup_Some_iff)

text \<open>A payment without its failed attempts has the same state.\<close>

definition cleaned :: "paymentBucket \<Rightarrow> paymentBucket" where
  "cleaned b = dropHtlcs (failedKeys b) b"

lemma htlcsOf_cleaned: "htlcsOf (cleaned b) = fold dropHtlc (failedKeys b) (htlcsOf b)"
proof (cases "paymentHtlcsBucket b")
  case None
  then have "failedKeys b = []" by (simp add: failedKeys_def htlcsOf_def emptyHtlcs_def)
  then show ?thesis using None by (simp add: cleaned_def dropHtlcs_def htlcsOf_def)
qed (simp add: cleaned_def dropHtlcs_def htlcsOf_def)

lemma cleaned_doms:
  assumes "htlcs_ok (htlcsOf b)"
  shows "aid |\<in>| fmdom (htlcAttemptInfo (htlcsOf (cleaned b))) \<longleftrightarrow> aid |\<in>| fmdom (htlcAttemptInfo (htlcsOf b)) \<and> aid |\<notin>| fmdom (htlcFailInfo (htlcsOf b))"
    "aid |\<in>| fmdom (htlcSettleInfo (htlcsOf (cleaned b))) \<longleftrightarrow> aid |\<in>| fmdom (htlcSettleInfo (htlcsOf b))"
    "aid |\<notin>| fmdom (htlcFailInfo (htlcsOf (cleaned b)))"
  using assms unfolding htlcsOf_cleaned fold_dropHtlc htlcs_ok_def by (auto simp: fmdom_fold_fmdrop failedKeys_def)

lemma cleaned_keys [simp]:
  "paymentSequenceKey (cleaned b) = paymentSequenceKey b" "paymentCreationInfoKey (cleaned b) = paymentCreationInfoKey b"
  "paymentFailInfoKey (cleaned b) = paymentFailInfoKey b" "duplicatePaymentsBucket (cleaned b) = duplicatePaymentsBucket b"
  by (simp_all add: cleaned_def dropHtlcs_def)

lemma cleaned_ok:
  assumes "bucket_ok h b"
  shows "bucket_ok h (cleaned b)" "statusOf (cleaned b) = statusOf b" "sentOf (htlcsOf (cleaned b)) = sentOf (htlcsOf b)"
proof -
  have hok: "htlcs_ok (htlcsOf b)" using assms unfolding bucket_ok_def by blast
  note cd = cleaned_doms [OF hok]
  have p: "isPending (cleaned b) = isPending b" unfolding isPending_def using cd by blast
  have "fmdom (htlcSettleInfo (htlcsOf (cleaned b))) = fmdom (htlcSettleInfo (htlcsOf b))" using cd(2) by blast
  then have s: "isSettled (cleaned b) = isSettled b" unfolding isSettled_def by simp
  show st: "statusOf (cleaned b) = statusOf b" unfolding statusOf_def p s by simp
  have A: "fset (fmdom (htlcAttemptInfo (htlcsOf (cleaned b)))) - fset (fmdom (htlcFailInfo (htlcsOf (cleaned b)))) =
    fset (fmdom (htlcAttemptInfo (htlcsOf b))) - fset (fmdom (htlcFailInfo (htlcsOf b)))" using cd(1,3) by blast
  show sent: "sentOf (htlcsOf (cleaned b)) = sentOf (htlcsOf b)" unfolding sentOf_def A
  proof (rule sum.cong [OF refl])
    fix aid assume "aid \<in> fset (fmdom (htlcAttemptInfo (htlcsOf b))) - fset (fmdom (htlcFailInfo (htlcsOf b)))"
    then have "aid \<notin> set (failedKeys b)" by (simp add: failedKeys_def)
    then show "amountAt (htlcsOf (cleaned b)) aid = amountAt (htlcsOf b) aid"
      by (simp add: amountAt_def htlcsOf_cleaned fold_dropHtlc fmlookup_fold_fmdrop)
  qed
  have "htlcs_ok (htlcsOf (cleaned b))" using hok cd unfolding htlcs_ok_def by blast
  then show "bucket_ok h (cleaned b)" using assms unfolding bucket_ok_def sent cleaned_keys by blast
qed

lemma update_inv:
  assumes inv: "db_inv d"
    and ix: "paymentsIndexBucket d' = paymentsIndexBucket d" "paymentsInflightIndexBucket d' = paymentsInflightIndexBucket d"
    and bk: "\<And>h. bucketOf d' h = map_option (\<lambda>b. if C h b then cleaned b else b) (bucketOf d h)"
  shows "db_inv d'"
proof -
  let ?g = "\<lambda>h b. if C h b then cleaned b else b"
  have g: "bucket_ok h (?g h b)" "paymentSequenceKey (?g h b) = paymentSequenceKey b" "statusOf (?g h b) = statusOf b" if "bucketOf d h = Some b" for h b
    using cleaned_ok [OF db_invD(1) [OF inv that]] db_invD(1) [OF inv that] by simp_all
  have ex: "(\<exists>x. bucketOf d' h = Some x \<and> paymentSequenceKey x = Some s \<and> P (statusOf x)) \<longleftrightarrow>
    (\<exists>x. bucketOf d h = Some x \<and> paymentSequenceKey x = Some s \<and> P (statusOf x))" for h s P
    using g [of h] unfolding bk by (cases "bucketOf d h") simp_all
  show ?thesis unfolding db_inv_def
  proof (intro conjI allI impI)
    show "bucket_ok h x" if "bucketOf d' h = Some x" for h x using that g(1) [of h] unfolding bk by auto
    show "fmlookup (paymentsIndexBucket d') s = Some h \<longleftrightarrow> (\<exists>b. bucketOf d' h = Some b \<and> paymentSequenceKey b = Some s)" for s h
      using db_invD(2) [OF inv, of s h] ex [of h s "\<lambda>_. True"] unfolding ix by simp
    show "s |\<in>| i \<longleftrightarrow> (\<exists>h b. bucketOf d' h = Some b \<and> paymentSequenceKey b = Some s \<and> statusOf b = StatusInFlight)"
      if "paymentsInflightIndexBucket d' = Some i" for i s
      using db_invD(3) [OF inv, of i s] that ex [of _ s "\<lambda>x. x = StatusInFlight"] unfolding ix by simp
  qed
qed

lemma remove_inv:
  assumes inv: "db_inv d"
    and bk: "\<And>h. bucketOf d' h = (if h \<in> H then None else bucketOf d h)"
    and ix: "\<And>s. fmlookup (paymentsIndexBucket d') s = (if s \<in> S then None else fmlookup (paymentsIndexBucket d) s)"
    and S: "\<And>h b s. bucketOf d h = Some b \<Longrightarrow> paymentSequenceKey b = Some s \<Longrightarrow> s \<in> S \<longleftrightarrow> h \<in> H"
    and fl: "paymentsInflightIndexBucket d' = paymentsInflightIndexBucket d"
    and nf: "\<And>h b. bucketOf d h = Some b \<Longrightarrow> h \<in> H \<Longrightarrow> statusOf b \<noteq> StatusInFlight"
  shows "db_inv d'"
  unfolding db_inv_def
proof (intro conjI allI impI)
  show "bucket_ok h x" if "bucketOf d' h = Some x" for h x using that db_invD(1) [OF inv, of h x] unfolding bk by (simp split: if_splits)
  show "fmlookup (paymentsIndexBucket d') s = Some h \<longleftrightarrow> (\<exists>b. bucketOf d' h = Some b \<and> paymentSequenceKey b = Some s)" for s h
    using db_invD(2) [OF inv, of s h] S [of h _ s] unfolding bk ix by auto
  show "s |\<in>| i \<longleftrightarrow> (\<exists>h b. bucketOf d' h = Some b \<and> paymentSequenceKey b = Some s \<and> statusOf b = StatusInFlight)"
    if "paymentsInflightIndexBucket d' = Some i" for i s
    using db_invD(3) [OF inv, of i s] that nf unfolding bk fl by auto
qed

lemma option_eqI: "(\<And>k. x = Some k \<longleftrightarrow> y = Some k) \<Longrightarrow> x = y"
  by (cases x; cases y) auto

lemma bucketOf_dropPayments: "bucketOf (dropPayments hs d) h = (if h \<in> set hs then None else bucketOf d h)"
  by (simp add: bucketOf_def dropPayments_def fmlookup_fold_fmdrop split: option.split)

lemma dropIndexes_simps [simp]:
  "bucketOf (dropIndexes ss d) = bucketOf d" "paymentsInflightIndexBucket (dropIndexes ss d) = paymentsInflightIndexBucket d"
  "fmlookup (paymentsIndexBucket (dropIndexes ss d)) s = (if s \<in> set ss then None else fmlookup (paymentsIndexBucket d) s)"
  "rootSeq (dropIndexes ss d) = rootSeq d" "paymentsRootBucket (dropIndexes ss d) = paymentsRootBucket d"
  by (simp_all add: fun_eq_iff bucketOf_def dropIndexes_def fmlookup_fold_fmdrop rootSeq_def)

lemma dropPayments_simps [simp]:
  "paymentsInflightIndexBucket (dropPayments hs d) = paymentsInflightIndexBucket d" "paymentsIndexBucket (dropPayments hs d) = paymentsIndexBucket d"
  "rootSeq (dropPayments hs d) = rootSeq d"
  by (simp_all add: dropPayments_def rootSeq_def split: option.split)

lemma dropPaymentHtlcs_simps [simp]:
  "paymentsInflightIndexBucket (dropPaymentHtlcs x d) = paymentsInflightIndexBucket d" "paymentsIndexBucket (dropPaymentHtlcs x d) = paymentsIndexBucket d"
  "rootSeq (dropPaymentHtlcs x d) = rootSeq d"
  by (simp_all add: dropPaymentHtlcs_def rootSeq_def split: option.split)

lemma bucketOf_dropPaymentHtlcs:
  "bucketOf (dropPaymentHtlcs x d) h = (if h = fst x then map_option (dropHtlcs (snd x)) (bucketOf d h) else bucketOf d h)"
  by (auto simp: bucketOf_def dropPaymentHtlcs_def split: option.split)

lemma fold_dropPaymentHtlcs:
  assumes "distinct (map fst hts)"
  shows "bucketOf (fold dropPaymentHtlcs hts d) h =
      (case map_of hts h of None \<Rightarrow> bucketOf d h | Some ks \<Rightarrow> map_option (dropHtlcs ks) (bucketOf d h))"
    "paymentsInflightIndexBucket (fold dropPaymentHtlcs hts d) = paymentsInflightIndexBucket d"
    "paymentsIndexBucket (fold dropPaymentHtlcs hts d) = paymentsIndexBucket d" "rootSeq (fold dropPaymentHtlcs hts d) = rootSeq d"
  using assms
proof (induction hts arbitrary: d)
  case (Cons x hts)
  {
    case 1
    then have x: "map_of hts (fst x) = None" by (simp add: map_of_eq_None_iff)
    show ?case using Cons.IH(1) [of "dropPaymentHtlcs x d"] 1 x by (auto simp: bucketOf_dropPaymentHtlcs split: option.splits)
  next
    case 2
    then show ?case using Cons.IH(2) by simp
  next
    case 3
    then show ?case using Cons.IH(3) by simp
  next
    case 4
    then show ?case using Cons.IH(4) by simp
  }
qed simp_all

lemma deletePaymentTx_ok:
  assumes inv: "db_inv d"
  shows "deletePaymentTx h fo d =
    (case bucketOf d h of
       None \<Rightarrow> if paymentsRootBucket d = None then Inr (d, ()) else Inl ErrNoPaymentBucket
     | Some b \<Rightarrow> if statusOf b = StatusInFlight then Inl ErrCannotDeleteInFlight
         else if fo then Inr (putBucket h (cleaned b) d, ())
         else Inr (dropIndexes [the (paymentSequenceKey b)] (dropPayments [h] d), ()))"
proof (cases "bucketOf d h")
  case None
  then show ?thesis by (auto simp: deletePaymentTx_def bucketOf_def split: option.splits)
next
  case (Some b)
  have ok: "bucket_ok h b" by (rule db_invD(1) [OF inv Some])
  have hok: "htlcs_ok (htlcsOf b)" and s: "fetchSequenceNumbers b = Inr [the (paymentSequenceKey b)]"
    using ok unfolding bucket_ok_def by (auto simp: fetchSequenceNumbers_def)
  obtain r where "paymentsRootBucket d = Some r" "fmlookup (Payments r) h = Some b" using Some by (auto simp: bucketOf_def split: option.splits)
  then show ?thesis using Some
    by (simp add: deletePaymentTx_def fetchPayment_ok [OF ok] fetchFailedHtlcKeys_ok [OF hok] s cleaned_def)
qed

lemma deletePaymentTx_inv:
  assumes inv: "db_inv d" and r: "deletePaymentTx h fo d = Inr (d', x)"
  shows "db_inv d'" "rootSeq d' = rootSeq d" "fmdom (paymentsIndexBucket d') |\<subseteq>| fmdom (paymentsIndexBucket d)"
    "bucketOf d' = (if fo then (bucketOf d)(h := map_option cleaned (bucketOf d h)) else (bucketOf d)(h := None))"
    "bucketOf d h = Some b \<Longrightarrow> statusOf b \<noteq> StatusInFlight"
proof -
  have "db_inv d' \<and> rootSeq d' = rootSeq d \<and> fmdom (paymentsIndexBucket d') |\<subseteq>| fmdom (paymentsIndexBucket d) \<and>
    bucketOf d' = (if fo then (bucketOf d)(h := map_option cleaned (bucketOf d h)) else (bucketOf d)(h := None)) \<and>
    (bucketOf d h = Some b \<longrightarrow> statusOf b \<noteq> StatusInFlight)"
  proof (cases "bucketOf d h")
    case None
    then show ?thesis using r inv unfolding deletePaymentTx_ok [OF inv] by (auto split: if_splits)
  next
    case (Some b0)
    have nf: "statusOf b0 \<noteq> StatusInFlight" using r Some unfolding deletePaymentTx_ok [OF inv] by (auto split: if_splits)
    show ?thesis
    proof (cases fo)
      case True
      then have d': "d' = putBucket h (cleaned b0) d" using r Some nf unfolding deletePaymentTx_ok [OF inv] by simp
      have bk: "bucketOf d' h' = map_option (\<lambda>b. if h' = h then cleaned b else b) (bucketOf d h')" for h'
        unfolding d' bucketOf_put [OF Some] using Some by (cases "bucketOf d h'") auto
      have "db_inv d'" by (rule update_inv [where C = "\<lambda>h' b. h' = h", OF inv _ _ bk]) (simp_all add: d')
      then show ?thesis using True nf Some d' bucketOf_put [OF Some, of "cleaned b0"] by (auto simp: fun_eq_iff)
    next
      case False
      obtain s where s: "paymentSequenceKey b0 = Some s" using db_invD(1) [OF inv Some] unfolding bucket_ok_def by blast
      have d': "d' = dropIndexes [s] (dropPayments [h] d)" using r Some nf False s unfolding deletePaymentTx_ok [OF inv] by simp
      have bk: "bucketOf d' h' = (if h' \<in> {h} then None else bucketOf d h')" for h' by (simp add: d' bucketOf_dropPayments)
      have "db_inv d'"
      proof (rule remove_inv [where H = "{h}" and S = "{s}", OF inv bk])
        show "fmlookup (paymentsIndexBucket d') s' = (if s' \<in> {s} then None else fmlookup (paymentsIndexBucket d) s')" for s' by (simp add: d')
        show "s' \<in> {s} \<longleftrightarrow> h' \<in> {h}" if "bucketOf d h' = Some b" "paymentSequenceKey b = Some s'" for h' b s'
          using seq_unique [OF inv Some s that(1)] that Some s by auto
      qed (use nf Some in \<open>auto simp: d'\<close>)
      moreover have "fmdom (paymentsIndexBucket d') |\<subseteq>| fmdom (paymentsIndexBucket d)" by (auto simp: d' dropIndexes_def)
      ultimately show ?thesis using False nf Some bk by (auto simp: fun_eq_iff d')
    qed
  qed
  then show "db_inv d'" "rootSeq d' = rootSeq d" "fmdom (paymentsIndexBucket d') |\<subseteq>| fmdom (paymentsIndexBucket d)"
    "bucketOf d' = (if fo then (bucketOf d)(h := map_option cleaned (bucketOf d h)) else (bucketOf d)(h := None))"
    "bucketOf d h = Some b \<Longrightarrow> statusOf b \<noteq> StatusInFlight" by blast+
qed

subsection \<open>Deleting all payments\<close>

definition deletable :: "bool \<Rightarrow> paymentBucket \<Rightarrow> bool" where
  "deletable failedOnly b \<longleftrightarrow> statusOf b \<noteq> StatusInFlight \<and> (failedOnly \<longrightarrow> statusOf b = StatusFailed)"

lemma collectDeletes_ok:
  assumes "\<forall>(h, b) \<in> set bs. bucket_ok h b"
  shows "collectDeletes fo fh bs =
    (let sel = filter (\<lambda>(h, b). deletable fo b) bs
     in Inr (if fh then ([], [], map (\<lambda>(h, b). (h, failedKeys b)) sel) else (map fst sel, map (\<lambda>(h, b). the (paymentSequenceKey b)) sel, [])))"
  using assms
proof (induction bs)
  case (Cons hb bs)
  obtain h b where hb: "hb = (h, b)" by fastforce
  then have ok: "bucket_ok h b" using Cons.prems by simp
  then have k: "fetchFailedHtlcKeys b = Inr (failedKeys b)" "fetchSequenceNumbers b = Inr [the (paymentSequenceKey b)]"
    using fetchFailedHtlcKeys_ok unfolding bucket_ok_def by (auto simp: fetchSequenceNumbers_def)
  have IH: "collectDeletes fo fh bs =
    (let sel = filter (\<lambda>(h, b). deletable fo b) bs
     in Inr (if fh then ([], [], map (\<lambda>(h, b). (h, failedKeys b)) sel) else (map fst sel, map (\<lambda>(h, b). the (paymentSequenceKey b)) sel, [])))"
    using Cons by simp
  have del: "statusOf b = StatusInFlight \<or> fo \<and> statusOf b \<noteq> StatusFailed \<longleftrightarrow> \<not> deletable fo b" by (auto simp: deletable_def)
  show ?case unfolding hb collectDeletes.simps IH by (simp add: fetchPayment_ok [OF ok] del k Let_def)
qed simp

lemma set_bucketList: "paymentsRootBucket d = Some r \<Longrightarrow> (h, b) \<in> set (bucketList r) \<longleftrightarrow> bucketOf d h = Some b"
  unfolding bucketList_def bucketOf_def using fmlookup_Some_iff [of "Payments r" h] by (auto simp: image_iff)

lemma fst_bucketList: "map fst (bucketList r) = sorted_list_of_fset (fmdom (Payments r))"
  by (simp add: bucketList_def comp_def)

definition afterDelete :: "bool \<Rightarrow> bool \<Rightarrow> paymentBucket \<Rightarrow> paymentBucket option" where
  "afterDelete fo fh b = (if deletable fo b then if fh then Some (cleaned b) else None else Some b)"

lemma deletePaymentsTx_inv:
  assumes inv: "db_inv d"
  obtains d' where "deletePaymentsTx fo fh d = Inr (d', ())" "db_inv d'" "rootSeq d' = rootSeq d"
    "fmdom (paymentsIndexBucket d') |\<subseteq>| fmdom (paymentsIndexBucket d)"
    "\<And>h. bucketOf d' h = (case bucketOf d h of None \<Rightarrow> None | Some b \<Rightarrow> afterDelete fo fh b)"
proof (cases "paymentsRootBucket d")
  case None
  then show ?thesis using that [of d] inv by (simp add: deletePaymentsTx_def bucketOf_def)
next
  case (Some r)
  let ?sel = "filter (\<lambda>(h, b). deletable fo b) (bucketList r)"
  have ok: "\<forall>(h, b) \<in> set (bucketList r). bucket_ok h b" using db_invD(1) [OF inv] set_bucketList [OF Some] by blast
  have dist: "distinct (map fst ?sel)" using distinct_map_filter fst_bucketList by (metis distinct_sorted_fset)
  have sel: "(h, b) \<in> set ?sel \<longleftrightarrow> bucketOf d h = Some b \<and> deletable fo b" for h b using set_bucketList [OF Some] by auto
  show ?thesis
  proof (cases fh)
    case True
    let ?hts = "map (\<lambda>(h, b). (h, failedKeys b)) ?sel"
    let ?d = "fold dropPaymentHtlcs ?hts d"
    have dh: "distinct (map fst ?hts)" using dist by (simp add: comp_def case_prod_beta)
    note f = fold_dropPaymentHtlcs [OF dh, of d]
    have mo: "map_of ?hts h = (case bucketOf d h of None \<Rightarrow> None | Some b \<Rightarrow> if deletable fo b then Some (failedKeys b) else None)" for h
    proof (rule option_eqI)
      fix k
      have "map_of ?hts h = Some k \<longleftrightarrow> (\<exists>b. bucketOf d h = Some b \<and> deletable fo b \<and> k = failedKeys b)"
        using map_of_eq_Some_iff [OF dh, of h k] sel by (auto simp: image_iff)
      then show "map_of ?hts h = Some k \<longleftrightarrow>
        (case bucketOf d h of None \<Rightarrow> None | Some b \<Rightarrow> if deletable fo b then Some (failedKeys b) else None) = Some k"
        by (cases "bucketOf d h") auto
    qed
    have bk: "bucketOf ?d h = map_option (\<lambda>b. if deletable fo b then cleaned b else b) (bucketOf d h)" for h
      unfolding f(1) mo by (simp add: cleaned_def split: option.split)
    have dp: "dropPayments [] x = x" "dropIndexes [] x = x" for x
      by (cases x; simp add: dropPayments_def dropIndexes_def option.map_ident)+
    show ?thesis
    proof (rule that [of ?d])
      show "deletePaymentsTx fo fh d = Inr (?d, ())" using True Some by (simp add: deletePaymentsTx_def collectDeletes_ok [OF ok] Let_def dp)
      show "db_inv ?d" by (rule update_inv [where C = "\<lambda>h b. deletable fo b", OF inv _ _ bk]) (simp_all add: f)
      show "bucketOf ?d h = (case bucketOf d h of None \<Rightarrow> None | Some b \<Rightarrow> afterDelete fo fh b)" for h
        unfolding bk using True by (simp add: afterDelete_def split: option.split)
    qed (simp_all add: f)
  next
    case False
    let ?hs = "map fst ?sel" and ?ss = "map (\<lambda>(h, b). the (paymentSequenceKey b)) ?sel"
    let ?d1 = "dropIndexes ?ss (dropPayments ?hs d)"
    let ?d = "if paymentsInflightIndexBucket d = None then ?d1 else dropIndexes ?ss ?d1"
    have hs: "h \<in> set ?hs \<longleftrightarrow> (\<exists>b. bucketOf d h = Some b \<and> deletable fo b)" for h using sel by force
    have bk: "bucketOf ?d h = (if h \<in> set ?hs then None else bucketOf d h)" for h by (simp add: bucketOf_dropPayments)
    have ix: "fmlookup (paymentsIndexBucket ?d) s = (if s \<in> set ?ss then None else fmlookup (paymentsIndexBucket d) s)" for s
      by (simp del: set_map)
    have ss: "s \<in> set ?ss \<longleftrightarrow> h \<in> set ?hs" if "bucketOf d h = Some b" "paymentSequenceKey b = Some s" for h b s
    proof
      assume "s \<in> set ?ss"
      then obtain h' b' where b': "(h', b') \<in> set ?sel" "s = the (paymentSequenceKey b')" by auto
      then have "bucketOf d h' = Some b'" using sel by blast
      moreover from this have "paymentSequenceKey b' = Some s" using db_invD(1) [OF inv] b'(2) unfolding bucket_ok_def by fastforce
      ultimately have "h' = h" using seq_unique [OF inv that] by blast
      then show "h \<in> set ?hs" using b'(1) by force
    next
      assume "h \<in> set ?hs"
      then have "(h, b) \<in> set ?sel" using hs sel that(1) by force
      then show "s \<in> set ?ss" using that(2) by force
    qed
    have nf: "statusOf b \<noteq> StatusInFlight" if "bucketOf d h = Some b" "h \<in> set ?hs" for h b
      using that hs [of h] by (simp add: deletable_def)
    show ?thesis
    proof (rule that [of ?d])
      show "deletePaymentsTx fo fh d = Inr (?d, ())"
        using False Some by (simp add: deletePaymentsTx_def collectDeletes_ok [OF ok] Let_def)
      show "db_inv ?d" by (rule remove_inv [where H = "set ?hs" and S = "set ?ss", OF inv bk ix ss _ nf]) simp_all
      show "bucketOf ?d h = (case bucketOf d h of None \<Rightarrow> None | Some b \<Rightarrow> afterDelete fo fh b)" for h
        unfolding bk using False hs [of h] by (simp add: afterDelete_def split: option.split)
      show "fmdom (paymentsIndexBucket ?d) |\<subseteq>| fmdom (paymentsIndexBucket d)"
      proof
        fix s assume "s |\<in>| fmdom (paymentsIndexBucket ?d)"
        then have "\<exists>v. fmlookup (paymentsIndexBucket ?d) s = Some v" unfolding fmlookup_Some_iff .
        then have "\<exists>v. fmlookup (paymentsIndexBucket d) s = Some v" unfolding ix by (simp split: if_splits)
        then show "s |\<in>| fmdom (paymentsIndexBucket d)" unfolding fmlookup_Some_iff .
      qed
    qed simp
  qed
qed

subsection \<open>Rebuilding the index\<close>

lemma indexPayments_ok:
  assumes "\<forall>b \<in> set bs. \<exists>h. bucket_ok h b" and "distinct (map paymentSequenceKey bs)" and "paymentsInflightIndexBucket d = Some i0"
  shows "\<exists>i. indexPayments bs d = Inr (d\<lparr>paymentsInflightIndexBucket := Some i\<rparr>) \<and>
    (\<forall>s. s |\<in>| i \<longleftrightarrow> (\<exists>b \<in> set bs. paymentSequenceKey b = Some s \<and> statusOf b = StatusInFlight) \<or> s |\<in>| i0 \<and> Some s \<notin> paymentSequenceKey ` set bs)"
  using assms
proof (induction bs arbitrary: d i0)
  case Nil
  then show ?case by (intro exI [of _ i0]) simp
next
  case (Cons b bs)
  obtain h where ok: "bucket_ok h b" using Cons.prems(1) by auto
  obtain s where s: "paymentSequenceKey b = Some s" using ok unfolding bucket_ok_def by blast
  let ?i = "if statusOf b = StatusInFlight then finsert s i0 else i0 |-| {|s|}"
  let ?d = "updatePaymentInflightIndexEntry (paymentOf b) d"
  have d: "?d = d\<lparr>paymentsInflightIndexBucket := Some ?i\<rparr>"
    using Cons.prems(3) s by (simp add: updatePaymentInflightIndexEntry_def createPaymentInflightIndexEntry_def deletePaymentInflightIndexEntry_def)
  obtain i where i: "indexPayments bs ?d = Inr (?d\<lparr>paymentsInflightIndexBucket := Some i\<rparr>)"
    "\<forall>s. s |\<in>| i \<longleftrightarrow> (\<exists>b \<in> set bs. paymentSequenceKey b = Some s \<and> statusOf b = StatusInFlight) \<or> s |\<in>| ?i \<and> Some s \<notin> paymentSequenceKey ` set bs"
    using Cons.IH [of ?d ?i] Cons.prems unfolding d by auto
  have dist: "Some s \<notin> paymentSequenceKey ` set bs" using Cons.prems(2) s by auto
  show ?case
  proof (intro exI [of _ i] conjI allI)
    show "indexPayments (b # bs) d = Inr (d\<lparr>paymentsInflightIndexBucket := Some i\<rparr>)"
      using i(1) by (simp add: fetchPayment_ok [OF ok] d)
    show "s' |\<in>| i \<longleftrightarrow> (\<exists>x \<in> set (b # bs). paymentSequenceKey x = Some s' \<and> statusOf x = StatusInFlight) \<or> s' |\<in>| i0 \<and> Some s' \<notin> paymentSequenceKey ` set (b # bs)" for s'
    proof (cases "s' = s")
      case True
      have "\<forall>x \<in> set bs. paymentSequenceKey x \<noteq> Some s" using dist by force
      then show ?thesis using True i(2) [rule_format, of s] s dist by auto
    next
      case False
      then show ?thesis using i(2) [rule_format, of s'] s by auto
    qed
  qed
qed

lemma db_inv_cong:
  assumes "db_inv d" and "bucketOf d' = bucketOf d" "paymentsIndexBucket d' = paymentsIndexBucket d" "paymentsInflightIndexBucket d' = paymentsInflightIndexBucket d"
  shows "db_inv d'"
  using assms(1) unfolding db_inv_def assms(2-4) .

lemma recreate_ok:
  assumes inv: "db_inv d" and none: "paymentsInflightIndexBucket d = None"
  obtains i where "recreatePaymentsInflightIndex d = Inr (d\<lparr>paymentsInflightIndexBucket := Some i\<rparr>)" "db_inv (d\<lparr>paymentsInflightIndexBucket := Some i\<rparr>)"
proof -
  have bk: "bucketOf (d\<lparr>paymentsInflightIndexBucket := x\<rparr>) = bucketOf d" for x by (simp add: fun_eq_iff bucketOf_def)
  have invI: "db_inv (d\<lparr>paymentsInflightIndexBucket := Some i\<rparr>)"
    if "\<forall>s. s |\<in>| i \<longleftrightarrow> (\<exists>h b. bucketOf d h = Some b \<and> paymentSequenceKey b = Some s \<and> statusOf b = StatusInFlight)" for i
    using inv that unfolding db_inv_def bk by simp
  show ?thesis
  proof (cases "paymentsRootBucket d")
    case None
    then show ?thesis using that [of "{||}"] invI [of "{||}"] none by (simp add: recreatePaymentsInflightIndex_def bucketOf_def)
  next
    case (Some r)
    note bl = set_bucketList [OF Some]
    have ok: "\<forall>b \<in> set (map snd (bucketList r)). \<exists>h. bucket_ok h b"
    proof
      fix b assume "b \<in> set (map snd (bucketList r))"
      then obtain h where "(h, b) \<in> set (bucketList r)" by auto
      then show "\<exists>h. bucket_ok h b" using db_invD(1) [OF inv] bl by blast
    qed
    have "inj_on (\<lambda>x. paymentSequenceKey (snd x)) (set (bucketList r))"
    proof (rule inj_onI)
      fix x y assume xy: "x \<in> set (bucketList r)" "y \<in> set (bucketList r)" "paymentSequenceKey (snd x) = paymentSequenceKey (snd y)"
      obtain h b h' b' where e: "x = (h, b)" "y = (h', b')" by fastforce
      have b: "bucketOf d h = Some b" "bucketOf d h' = Some b'" using xy(1,2) bl unfolding e by blast+
      obtain s where s: "paymentSequenceKey b = Some s" using db_invD(1) [OF inv b(1)] unfolding bucket_ok_def by blast
      then have "h' = h" using seq_unique [OF inv b(1) s b(2)] xy(3) unfolding e by simp
      then show "x = y" using b unfolding e by simp
    qed
    moreover have "distinct (bucketList r)" using fst_bucketList distinct_sorted_fset by (metis distinct_map)
    ultimately have dist: "distinct (map paymentSequenceKey (map snd (bucketList r)))" by (simp add: distinct_map comp_def)
    obtain i where i: "indexPayments (map snd (bucketList r)) (d\<lparr>paymentsInflightIndexBucket := Some {||}\<rparr>) = Inr (d\<lparr>paymentsInflightIndexBucket := Some i\<rparr>)"
      "\<forall>s. s |\<in>| i \<longleftrightarrow> (\<exists>b \<in> set (map snd (bucketList r)). paymentSequenceKey b = Some s \<and> statusOf b = StatusInFlight)"
      using indexPayments_ok [OF ok dist, of "d\<lparr>paymentsInflightIndexBucket := Some {||}\<rparr>" "{||}"] by auto
    have ex: "(\<exists>b \<in> set (map snd (bucketList r)). P b) \<longleftrightarrow> (\<exists>h b. bucketOf d h = Some b \<and> P b)" for P using bl by force
    have "db_inv (d\<lparr>paymentsInflightIndexBucket := Some i\<rparr>)" by (rule invI, rule i(2) [unfolded ex])
    then show ?thesis using that i(1) Some none by (simp add: recreatePaymentsInflightIndex_def)
  qed
qed

lemma initDcrlndFeatures_ok:
  assumes inv: "db_inv d"
  obtains d' where "initDcrlndFeatures d = Inr d'" "db_inv d'" "bucketOf d' = bucketOf d" "rootSeq d' = rootSeq d"
    "paymentsIndexBucket d' = paymentsIndexBucket d" "paymentsInflightIndexBucket d' \<noteq> None"
proof (cases "paymentsInflightIndexBucket d")
  case None
  obtain i where "recreatePaymentsInflightIndex d = Inr (d\<lparr>paymentsInflightIndexBucket := Some i\<rparr>)" "db_inv (d\<lparr>paymentsInflightIndexBucket := Some i\<rparr>)"
    using recreate_ok [OF inv None] .
  then show ?thesis using that None by (simp add: initDcrlndFeatures_def fun_eq_iff bucketOf_def rootSeq_def)
next
  case (Some i)
  then show ?thesis using that inv by (simp add: initDcrlndFeatures_def)
qed

subsection \<open>Sequence numbers\<close>

lemma createRoot_Sequence: "Sequence (createRoot d) = rootSeq d"
  by (simp add: createRoot_def rootSeq_def split: option.split)

lemma bucketOf_setSequence: "bucketOf (d\<lparr>paymentsRootBucket := Some ((createRoot d)\<lparr>Sequence := s\<rparr>)\<rparr>) = bucketOf d"
  by (simp add: fun_eq_iff bucketOf_def createRoot_def split: option.split)

lemma nextPaymentSequence_ok:
  assumes inv: "seq_inv pc" and room: "unat (rootSeq (db pc)) + 1000 < 2 ^ 64" and n: "nextPaymentSequence ok pc = (pc', Inr s)"
  shows "bucketOf (db pc') = bucketOf (db pc)" "paymentsIndexBucket (db pc') = paymentsIndexBucket (db pc)"
    "paymentsInflightIndexBucket (db pc') = paymentsInflightIndexBucket (db pc)"
    "\<forall>s' \<in> fset (fmdom (paymentsIndexBucket (db pc))). s' < s"
    "0 < s" "s = currPaymentSeq pc'" "s \<le> storedPaymentSeq pc'" "storedPaymentSeq pc' = rootSeq (db pc')"
proof -
  let ?c = "currPaymentSeq pc" and ?t = "storedPaymentSeq pc" and ?q = "rootSeq (db pc)"
  have c: "?c = 0 \<and> ?t = 0 \<or> 0 < ?c \<and> ?c \<le> ?t \<and> ?t = ?q" and bound: "\<forall>s' \<in> fset (fmdom (paymentsIndexBucket (db pc))). 0 < s' \<and> s' \<le> (if ?c = 0 then ?q else ?c)"
    using inv unfolding seq_inv_def by blast+
  have q: "unat (?q + 1) = unat ?q + 1" "unat (?q + 1000) = unat ?q + 1000" using room by (simp_all add: unat_plus_if_size word_size)
  let ?k = "if ?c = 0 then ?q else ?c"
  have k: "s = ?k + 1" using n c by (auto simp: nextPaymentSequence_def createRoot_Sequence Let_def split: if_splits)
  have "unat ?k \<le> unat ?q" using c by (auto simp: word_le_nat_alt)
  then have uk: "unat s = unat ?k + 1" using room unfolding k by (simp add: unat_plus_if_size word_size)
  show "\<forall>s' \<in> fset (fmdom (paymentsIndexBucket (db pc))). s' < s"
    using bound uk unfolding word_le_nat_alt word_less_nat_alt by auto
  show "0 < s" using uk by (simp add: word_less_nat_alt)
  show "bucketOf (db pc') = bucketOf (db pc)" "paymentsIndexBucket (db pc') = paymentsIndexBucket (db pc)"
    "paymentsInflightIndexBucket (db pc') = paymentsInflightIndexBucket (db pc)" "s = currPaymentSeq pc'"
    using n by (auto simp: nextPaymentSequence_def Let_def bucketOf_setSequence split: if_splits)
  show "storedPaymentSeq pc' = rootSeq (db pc')"
    using n c by (auto simp: nextPaymentSequence_def Let_def createRoot_Sequence rootSeq_def split: if_splits)
  show "s \<le> storedPaymentSeq pc'"
  proof (cases "?c = ?t")
    case True
    then have "storedPaymentSeq pc' = ?q + 1000" using n by (auto simp: nextPaymentSequence_def Let_def createRoot_Sequence paymentSeqBlockSize_def split: if_splits)
    moreover have "?k = ?q" using True c by auto
    ultimately show ?thesis using uk q by (simp add: word_le_nat_alt)
  next
    case False
    then have "storedPaymentSeq pc' = ?t" using n by (auto simp: nextPaymentSequence_def)
    moreover have "?c < ?t" "?k = ?c" using False c by auto
    ultimately show ?thesis using uk by (simp add: word_le_nat_alt word_less_nat_alt)
  qed
qed

lemma nextPaymentSequence_err: "nextPaymentSequence ok pc = (pc', Inl e) \<Longrightarrow> pc' = pc \<and> e = ErrDatabase \<and> \<not> ok"
  by (auto simp: nextPaymentSequence_def Let_def split: if_splits)

lemma seq_inv_keep:
  assumes "seq_inv pc" and "rootSeq d = rootSeq (db pc)" and "fmdom (paymentsIndexBucket d) |\<subseteq>| fmdom (paymentsIndexBucket (db pc))"
  shows "seq_inv (pc\<lparr>db := d\<rparr>)"
  using assms unfolding seq_inv_def by (auto simp: less_eq_fset.rep_eq)

end
