(* ===== verification/PaymentsSpec.thy ===== *)
theory PaymentsSpec
  imports PaymentsInv Refinement
begin

text \<open>
  The contract of the payment control, stated on a book of payments without sequence numbers
  and indexes, and the proof that every method implements it, on its error paths too.
\<close>

subsection \<open>The contract\<close>

text \<open>A payment as its users see it: what it is worth, its shards with their amounts and states, and
  the reason it was given up for.\<close>

datatype shardState = Pending | Paid bytes | Lost

record payment =
  amount :: nat
  shards :: "u64 \<rightharpoonup> nat \<times> shardState"
  reason :: "u8 option"

definition anyPending :: "payment \<Rightarrow> bool" where
  "anyPending p \<longleftrightarrow> (\<exists>aid a. shards p aid = Some (a, Pending))"

definition anyPaid :: "payment \<Rightarrow> bool" where
  "anyPaid p \<longleftrightarrow> (\<exists>aid a pre. shards p aid = Some (a, Paid pre))"

definition payStatus :: "payment \<Rightarrow> PaymentStatus" where
  "payStatus p = (if anyPending p then StatusInFlight else if anyPaid p then StatusSucceeded
     else if reason p \<noteq> None then StatusFailed else StatusInFlight)"

definition committed :: "payment \<Rightarrow> nat" where
  "committed p = (\<Sum>aid \<in> {aid. \<exists>a st. shards p aid = Some (a, st) \<and> st \<noteq> Lost}. fst (the (shards p aid)))"

definition withoutLost :: "payment \<Rightarrow> payment" where
  "withoutLost p = p\<lparr>shards := (\<lambda>aid. case shards p aid of None \<Rightarrow> None | Some (a, st) \<Rightarrow> if st = Lost then None else Some (a, st))\<rparr>"

definition freshPayment :: "PaymentCreationInfo \<Rightarrow> payment" where
  "freshPayment info = \<lparr>amount = unat (Value info), shards = Map.empty, reason = None\<rparr>"

definition setShard :: "u64 \<Rightarrow> nat \<Rightarrow> shardState \<Rightarrow> payment \<Rightarrow> payment" where
  "setShard aid a st p = p\<lparr>shards := (shards p)(aid \<mapsto> (a, st))\<rparr>"

type_synonym book = "bytes \<rightharpoonup> payment"

fun accepted :: "book \<Rightarrow> payOp \<Rightarrow> book \<Rightarrow> bool" where
  "accepted s (Init seqOk dbOk h info) s' \<longleftrightarrow> dbOk \<and> (\<forall>p. s h = Some p \<longrightarrow> payStatus p = StatusFailed) \<and> s' = s(h \<mapsto> freshPayment info)"
| "accepted s (Register dbOk h a) s' \<longleftrightarrow> dbOk \<and>
     (\<exists>p. s h = Some p \<and> \<not> anyPaid p \<and> reason p = None \<and> committed p + unat (ReceiverAmt (at_Route a)) \<le> amount p \<and>
        s' = s(h \<mapsto> setShard (AttemptID a) (unat (ReceiverAmt (at_Route a))) Pending p))"
| "accepted s (Settle dbOk h aid i) s' \<longleftrightarrow> dbOk \<and>
     (\<exists>p a. s h = Some p \<and> shards p aid = Some (a, Pending) \<and> s' = s(h \<mapsto> setShard aid a (Paid (Preimage i)) p))"
| "accepted s (FailHtlc dbOk h aid i) s' \<longleftrightarrow> dbOk \<and>
     (\<exists>p a. s h = Some p \<and> shards p aid = Some (a, Pending) \<and> s' = s(h \<mapsto> setShard aid a Lost p))"
| "accepted s (FailPay dbOk h r) s' \<longleftrightarrow> dbOk \<and> (\<exists>p. s h = Some p \<and> s' = s(h \<mapsto> p\<lparr>reason := Some r\<rparr>))"
| "accepted s (Delete dbOk h fo) s' \<longleftrightarrow> dbOk \<and> (\<forall>p. s h = Some p \<longrightarrow> payStatus p \<noteq> StatusInFlight) \<and>
     s' = s(h := if fo then map_option withoutLost (s h) else None)"
| "accepted s (DeleteAll dbOk fo fh) s' \<longleftrightarrow> dbOk \<and>
     s' = (\<lambda>h. case s h of None \<Rightarrow> None
           | Some p \<Rightarrow> if payStatus p \<noteq> StatusInFlight \<and> (fo \<longrightarrow> payStatus p = StatusFailed)
               then if fh then Some (withoutLost p) else None else Some p)"
| "accepted s (Restart dbOk) s' \<longleftrightarrow> dbOk \<and> s' = s"

fun refused :: "book \<Rightarrow> payOp \<Rightarrow> pay_error \<Rightarrow> bool" where
  "refused s (Init seqOk dbOk h info) e \<longleftrightarrow>
     e = ErrDatabase \<and> \<not> (seqOk \<and> dbOk) \<or>
     e = ErrPaymentInFlight \<and> (\<exists>p. s h = Some p \<and> payStatus p = StatusInFlight) \<or>
     e = ErrAlreadyPaid \<and> (\<exists>p. s h = Some p \<and> payStatus p = StatusSucceeded)"
| "refused s (Register dbOk h a) e \<longleftrightarrow>
     (case s h of
        None \<Rightarrow> e = ErrPaymentNotInitiated
      | Some p \<Rightarrow> (anyPaid p \<or> reason p \<noteq> None \<longrightarrow> e = ErrPaymentTerminal) \<and>
          (e = ErrValueExceedsAmt \<longrightarrow> committed p + unat (ReceiverAmt (at_Route a)) > amount p) \<and>
          (e = ErrDatabase \<longrightarrow> \<not> dbOk))"
| "refused s (Settle dbOk h aid i) e \<longleftrightarrow>
     e = ErrDatabase \<and> \<not> dbOk \<or> \<not> (\<exists>p a. s h = Some p \<and> shards p aid = Some (a, Pending))"
| "refused s (FailHtlc dbOk h aid i) e \<longleftrightarrow>
     e = ErrDatabase \<and> \<not> dbOk \<or> \<not> (\<exists>p a. s h = Some p \<and> shards p aid = Some (a, Pending))"
| "refused s (FailPay dbOk h r) e \<longleftrightarrow> e = ErrDatabase \<and> \<not> dbOk \<or> e = ErrPaymentNotInitiated \<and> s h = None"
| "refused s (Delete dbOk h fo) e \<longleftrightarrow>
     e = ErrDatabase \<and> \<not> dbOk \<or> e = ErrNoPaymentBucket \<and> s h = None \<or>
     e = ErrCannotDeleteInFlight \<and> (\<exists>p. s h = Some p \<and> payStatus p = StatusInFlight)"
| "refused s (DeleteAll dbOk fo fh) e \<longleftrightarrow> e = ErrDatabase \<and> \<not> dbOk"
| "refused s (Restart dbOk) e \<longleftrightarrow> e = ErrDatabase \<and> \<not> dbOk"

definition pay_spec :: "book \<Rightarrow> payOp \<Rightarrow> payOp \<times> pay_error option \<Rightarrow> book \<Rightarrow> bool" where
  "pay_spec s op r s' \<longleftrightarrow> fst r = op \<and> (case snd r of None \<Rightarrow> accepted s op s' | Some e \<Rightarrow> s' = s \<and> refused s op e)"

definition payStep :: "payOp \<Rightarrow> PaymentControl \<Rightarrow> PaymentControl \<times> (payOp \<times> pay_error option)" where
  "payStep op pc = (case payExec op pc of (pc', e) \<Rightarrow> (pc', (op, e)))"

subsection \<open>The abstraction\<close>

definition absHtlcs :: "htlcsBucket \<Rightarrow> u64 \<rightharpoonup> nat \<times> shardState" where
  "absHtlcs hb aid =
     (case fmlookup (htlcAttemptInfo hb) aid of
        None \<Rightarrow> None
      | Some a \<Rightarrow> Some (unat (ReceiverAmt (at_Route a)),
          (case fmlookup (htlcSettleInfo hb) aid of
             Some i \<Rightarrow> Paid (Preimage i)
           | None \<Rightarrow> if fmlookup (htlcFailInfo hb) aid = None then Pending else Lost)))"

definition absPayment :: "paymentBucket \<Rightarrow> payment" where
  "absPayment b = \<lparr>amount = unat (Value (the (paymentCreationInfoKey b))), shards = absHtlcs (htlcsOf b), reason = paymentFailInfoKey b\<rparr>"

definition absDB :: "paymentsDB \<Rightarrow> book" where
  "absDB d h = map_option absPayment (bucketOf d h)"

lemma absPayment_simps [simp]:
  "shards (absPayment b) = absHtlcs (htlcsOf b)" "reason (absPayment b) = paymentFailInfoKey b" "amount (absPayment b) = unat (Value (the (paymentCreationInfoKey b)))"
  by (simp_all add: absPayment_def)

lemma fmdom_iff: "k |\<in>| fmdom m \<longleftrightarrow> fmlookup m k \<noteq> None"
  by (simp add: fmlookup_None_iff)

lemma absHtlcs_None: "absHtlcs hb aid = None \<longleftrightarrow> aid |\<notin>| fmdom (htlcAttemptInfo hb)"
  by (auto simp: absHtlcs_def fmlookup_None_iff [symmetric] split: option.splits)

lemma absHtlcs_Pending:
  "(\<exists>a. absHtlcs hb aid = Some (a, Pending)) \<longleftrightarrow>
     aid |\<in>| fmdom (htlcAttemptInfo hb) \<and> aid |\<notin>| fmdom (htlcSettleInfo hb) \<and> aid |\<notin>| fmdom (htlcFailInfo hb)"
  by (auto simp: absHtlcs_def fmdom_iff split: option.splits if_splits)

lemma absHtlcs_Paid:
  "(\<exists>a pre. absHtlcs hb aid = Some (a, Paid pre)) \<longleftrightarrow> aid |\<in>| fmdom (htlcAttemptInfo hb) \<and> aid |\<in>| fmdom (htlcSettleInfo hb)"
  by (auto simp: absHtlcs_def fmdom_iff split: option.splits if_splits)

lemma absHtlcs_live:
  assumes "htlcs_ok hb"
  shows "{aid. \<exists>a st. absHtlcs hb aid = Some (a, st) \<and> st \<noteq> Lost} = fset (fmdom (htlcAttemptInfo hb)) - fset (fmdom (htlcFailInfo hb))"
proof (intro set_eqI)
  fix aid
  have s: "aid |\<in>| fmdom (htlcSettleInfo hb) \<Longrightarrow> aid |\<notin>| fmdom (htlcFailInfo hb)" using assms unfolding htlcs_ok_def by blast
  have "(\<exists>a st. absHtlcs hb aid = Some (a, st) \<and> st \<noteq> Lost) \<longleftrightarrow>
    (\<exists>a. absHtlcs hb aid = Some (a, Pending)) \<or> (\<exists>a pre. absHtlcs hb aid = Some (a, Paid pre))"
    by (metis shardState.distinct(3,5) shardState.exhaust)
  then show "aid \<in> {aid. \<exists>a st. absHtlcs hb aid = Some (a, st) \<and> st \<noteq> Lost} \<longleftrightarrow> aid \<in> fset (fmdom (htlcAttemptInfo hb)) - fset (fmdom (htlcFailInfo hb))"
    unfolding absHtlcs_Pending absHtlcs_Paid using s by auto
qed

lemma absPayment_facts:
  assumes "htlcs_ok (htlcsOf b)"
  shows "anyPending (absPayment b) = isPending b" "anyPaid (absPayment b) = isSettled b" "payStatus (absPayment b) = statusOf b"
    "committed (absPayment b) = sentOf (htlcsOf b)"
proof -
  show p: "anyPending (absPayment b) = isPending b" unfolding anyPending_def isPending_def absPayment_simps absHtlcs_Pending by simp
  show s: "anyPaid (absPayment b) = isSettled b" unfolding anyPaid_def isSettled_def absPayment_simps absHtlcs_Paid
    using assms unfolding htlcs_ok_def by blast
  show "payStatus (absPayment b) = statusOf b" unfolding payStatus_def statusOf_def p s by simp
  show "committed (absPayment b) = sentOf (htlcsOf b)" unfolding committed_def sentOf_def absPayment_simps absHtlcs_live [OF assms]
  proof (rule sum.cong [OF refl])
    fix aid assume "aid \<in> fset (fmdom (htlcAttemptInfo (htlcsOf b))) - fset (fmdom (htlcFailInfo (htlcsOf b)))"
    then obtain a where "fmlookup (htlcAttemptInfo (htlcsOf b)) aid = Some a" using fmlookup_Some_iff [of "htlcAttemptInfo (htlcsOf b)" aid] by auto
    then show "fst (the (absHtlcs (htlcsOf b) aid)) = amountAt (htlcsOf b) aid" by (simp add: absHtlcs_def amountAt_def)
  qed
qed

lemma absHtlcs_register:
  assumes "htlcs_ok hb" and "aid |\<notin>| fmdom (htlcAttemptInfo hb)"
  shows "absHtlcs (hb\<lparr>htlcAttemptInfo := fmupd aid a (htlcAttemptInfo hb)\<rparr>) = (absHtlcs hb)(aid \<mapsto> (unat (ReceiverAmt (at_Route a)), Pending))"
proof -
  have "aid |\<notin>| fmdom (htlcSettleInfo hb)" "aid |\<notin>| fmdom (htlcFailInfo hb)" using assms unfolding htlcs_ok_def by blast+
  then have "fmlookup (htlcSettleInfo hb) aid = None" "fmlookup (htlcFailInfo hb) aid = None" by (simp_all add: fmlookup_None_iff)
  then show ?thesis by (intro ext) (auto simp: absHtlcs_def split: option.split)
qed

lemma absHtlcs_settle:
  assumes "fmlookup (htlcAttemptInfo hb) aid = Some a"
  shows "absHtlcs (putOutcome aid (Settled i) hb) = (absHtlcs hb)(aid \<mapsto> (unat (ReceiverAmt (at_Route a)), Paid (Preimage i)))"
  using assms by (intro ext) (auto simp: absHtlcs_def split: option.split)

lemma absHtlcs_fail:
  assumes "fmlookup (htlcAttemptInfo hb) aid = Some a" "fmlookup (htlcSettleInfo hb) aid = None"
  shows "absHtlcs (putOutcome aid (Failed i) hb) = (absHtlcs hb)(aid \<mapsto> (unat (ReceiverAmt (at_Route a)), Lost))"
  using assms by (intro ext) (auto simp: absHtlcs_def split: option.split)

lemma absPayment_cleaned:
  assumes "htlcs_ok (htlcsOf b)"
  shows "absPayment (cleaned b) = withoutLost (absPayment b)"
proof -
  have "absHtlcs (htlcsOf (cleaned b)) aid =
    (case absHtlcs (htlcsOf b) aid of None \<Rightarrow> None | Some (a, st) \<Rightarrow> if st = Lost then None else Some (a, st))" for aid
  proof (cases "aid \<in> set (failedKeys b)")
    case True
    then have "aid |\<in>| fmdom (htlcFailInfo (htlcsOf b))" "aid |\<in>| fmdom (htlcAttemptInfo (htlcsOf b))" by (simp_all add: failedKeys_def)
    moreover from this have "aid |\<notin>| fmdom (htlcSettleInfo (htlcsOf b))" using assms unfolding htlcs_ok_def by blast
    ultimately have "fmlookup (htlcFailInfo (htlcsOf b)) aid \<noteq> None" "fmlookup (htlcAttemptInfo (htlcsOf b)) aid \<noteq> None" "fmlookup (htlcSettleInfo (htlcsOf b)) aid = None"
      unfolding fmlookup_None_iff by simp_all
    then show ?thesis using True by (auto simp: absHtlcs_def htlcsOf_cleaned fold_dropHtlc fmlookup_fold_fmdrop)
  next
    case False
    have same: "absHtlcs (htlcsOf (cleaned b)) aid = absHtlcs (htlcsOf b) aid"
      using False by (auto simp: absHtlcs_def htlcsOf_cleaned fold_dropHtlc fmlookup_fold_fmdrop split: option.split)
    have "absHtlcs (htlcsOf b) aid \<noteq> Some (a, Lost)" for a
    proof
      assume l: "absHtlcs (htlcsOf b) aid = Some (a, Lost)"
      then have "fmlookup (htlcFailInfo (htlcsOf b)) aid \<noteq> None" "fmlookup (htlcAttemptInfo (htlcsOf b)) aid \<noteq> None"
        by (auto simp: absHtlcs_def split: option.splits if_splits)
      then show False using False unfolding fmlookup_None_iff by (simp add: failedKeys_def)
    qed
    then show ?thesis unfolding same by (auto split: option.split)
  qed
  then show ?thesis by (simp add: absPayment_def withoutLost_def fun_eq_iff)
qed

lemma absPayment_new: "absPayment (newBucket s info) = freshPayment info"
  by (simp add: absPayment_def newBucket_def freshPayment_def htlcsOf_def emptyHtlcs_def absHtlcs_def fun_eq_iff)

lemma absDB_put:
  assumes "bucketOf d h = Some b"
  shows "absDB (updatePaymentInflightIndexEntry p (putBucket h b' d)) = (absDB d)(h \<mapsto> absPayment b')"
  by (simp add: fun_eq_iff absDB_def bucketOf_put [OF assms])

subsection \<open>What the callers see to\<close>

text \<open>A payment is opened under its own identifier; amounts fit an \<open>int64\<close>, as amounts of the
  protocol do; the sequence of the root bucket has room for another block; and the ids of attempts,
  which the router draws from a persistent sequence, are new.\<close>

fun payAllowed :: "PaymentControl \<Rightarrow> payOp \<Rightarrow> bool" where
  "payAllowed pc (Init seqOk dbOk h info) \<longleftrightarrow>
     PaymentIdentifier info = h \<and> unat (Value info) < 2 ^ 63 \<and> unat (rootSeq (db pc)) + 1000 < 2 ^ 64"
| "payAllowed pc (Register dbOk h a) \<longleftrightarrow>
     unat (ReceiverAmt (at_Route a)) < 2 ^ 63 \<and>
     (case bucketOf (db pc) h of None \<Rightarrow> True | Some b \<Rightarrow> AttemptID a |\<notin>| fmdom (htlcAttemptInfo (htlcsOf b)))"
| "payAllowed pc _ \<longleftrightarrow> True"

definition paySim :: "PaymentControl \<Rightarrow> payOp \<Rightarrow> PaymentControl \<Rightarrow> pay_error option \<Rightarrow> bool" where
  "paySim pc op pc' e \<longleftrightarrow> pay_inv pc' \<and> (case e of None \<Rightarrow> accepted (absDB (db pc)) op (absDB (db pc')) | Some x \<Rightarrow> absDB (db pc') = absDB (db pc) \<and> refused (absDB (db pc)) op x)"

lemma bucket_htlcs: "bucket_ok h b \<Longrightarrow> htlcs_ok (htlcsOf b)"
  unfolding bucket_ok_def by blast

lemma bucket_seq: "bucket_ok h b \<Longrightarrow> \<exists>s. paymentSequenceKey b = Some s"
  unfolding bucket_ok_def by blast

lemmas bucket_abs = absPayment_facts [OF bucket_htlcs]

lemma absDB_Some: "absDB d h = Some p \<longleftrightarrow> (\<exists>b. bucketOf d h = Some b \<and> p = absPayment b)"
  by (auto simp: absDB_def)

text \<open>An operation that rewrites the bucket of one payment.\<close>

lemma put_pay_inv:
  assumes inv: "pay_inv pc" and b: "bucketOf (db pc) h = Some b" and b': "bucket_ok h b'" "paymentSequenceKey b' = paymentSequenceKey b"
  shows "pay_inv (pc\<lparr>db := updatePaymentInflightIndexEntry (paymentOf b') (putBucket h b' (db pc))\<rparr>)"
  using inv put_inv [OF _ b b'] seq_inv_keep [of pc "updatePaymentInflightIndexEntry (paymentOf b') (putBucket h b' (db pc))"]
  unfolding pay_inv_def by simp

lemma tx_cases:
  assumes "inTx dbOk f pc = (pc', r)"
  obtains (error) e where "f (db pc) = Inl e" "pc' = pc" "r = Inl e"
  | (lost) d x where "f (db pc) = Inr (d, x)" "\<not> dbOk" "pc' = pc" "r = Inl ErrDatabase"
  | (commit) d x where "f (db pc) = Inr (d, x)" "dbOk" "pc' = pc\<lparr>db := d\<rparr>" "r = Inr x"
  using assms by (auto simp: inTx_def split: sum.splits prod.splits if_splits)

lemma errOf_simps [simp]: "errOf (Inl e) = Some e" "errOf (Inr x) = None"
  by (simp_all add: errOf_def)

subsection \<open>Each operation implements its contract\<close>

lemma init_sim:
  assumes inv: "pay_inv pc" and al: "payAllowed pc (Init seqOk dbOk h info)" and x: "InitPayment seqOk dbOk h info pc = (pc', e)"
  shows "paySim pc (Init seqOk dbOk h info) pc' e"
proof -
  have di: "db_inv (db pc)" and si: "seq_inv pc" using inv unfolding pay_inv_def by simp_all
  have info: "PaymentIdentifier info = h" "unat (Value info) < 2 ^ 63" and room: "unat (rootSeq (db pc)) + 1000 < 2 ^ 64" using al by simp_all
  obtain pc1 n where n: "nextPaymentSequence seqOk pc = (pc1, n)" by fastforce
  show ?thesis
  proof (cases n)
    case (Inl err)
    have "pc1 = pc" "err = ErrDatabase" "\<not> seqOk" using nextPaymentSequence_err n Inl by blast+
    then show ?thesis using x n Inl inv by (auto simp: InitPayment_def paySim_def)
  next
    case (Inr s)
    note ns = nextPaymentSequence_ok [OF si room n [unfolded Inr]]
    have di1: "db_inv (db pc1)" by (rule db_inv_cong [OF di ns(1-3)])
    have fresh: "s |\<notin>| fmdom (paymentsIndexBucket (db pc1))" using ns(2,4) by force
    have pos: "\<forall>s' \<in> fset (fmdom (paymentsIndexBucket (db pc))). 0 < s'" using si unfolding seq_inv_def by blast
    have si1: "seq_inv pc1" using ns pos by (auto simp: seq_inv_def)
    have ab1: "absDB (db pc1) = absDB (db pc)" using ns(1) by (simp add: fun_eq_iff absDB_def)
    have new: "paySim pc (Init seqOk dbOk h info) (pc1\<lparr>db := startPayment h info s (db pc1)\<rparr>) None"
      if ok: "dbOk" "\<And>b. bucketOf (db pc1) h = Some b \<Longrightarrow> statusOf b = StatusFailed"
    proof -
      let ?d = "startPayment h info s (db pc1)"
      have "statusOf b \<noteq> StatusInFlight" if "bucketOf (db pc1) h = Some b" for b using ok(2) [OF that] by simp
      then have "db_inv ?d" using startPayment_inv [OF di1 info fresh] by blast
      moreover have "seq_inv (pc1\<lparr>db := ?d\<rparr>)"
      proof -
        have "rootSeq ?d = rootSeq (db pc1)" by (simp add: startPayment_def rootSeq_def createRoot_Sequence [unfolded rootSeq_def])
        moreover have "0 < s' \<and> s' \<le> s" if "s' |\<in>| fmdom (paymentsIndexBucket ?d)" for s'
          using that ns(2,4,5) pos unfolding startPayment_def by (auto split: option.splits dest!: bspec [of _ _ s'])
        ultimately show ?thesis using ns(5-8) by (auto simp: seq_inv_def)
      qed
      moreover have "absDB ?d = (absDB (db pc))(h \<mapsto> freshPayment info)"
        by (simp add: fun_eq_iff absDB_def startPayment_bucketOf absPayment_new ns(1))
      moreover have "payStatus p = StatusFailed" if "absDB (db pc) h = Some p" for p
        using that ok(2) bucket_abs(3) [OF db_invD(1) [OF di1]] unfolding ab1 [symmetric] absDB_Some by force
      ultimately show ?thesis using ok(1) by (simp add: paySim_def pay_inv_def)
    qed
    have dbfail: "paySim pc (Init seqOk dbOk h info) pc1 (Some ErrDatabase)" if "\<not> dbOk" using that di1 si1 ab1 by (simp add: paySim_def pay_inv_def)
    have same: "pc1\<lparr>db := db pc1\<rparr> = pc1" by (cases pc1) simp
    show ?thesis
    proof (cases "bucketOf (db pc1) h")
      case None
      then show ?thesis using x n Inr new dbfail by (auto simp: InitPayment_def inTx_def initPaymentTx_ok [OF di1] split: if_splits)
    next
      case (Some b)
      have st: "payStatus (absPayment b) = statusOf b" by (rule bucket_abs(3) [OF db_invD(1) [OF di1 Some]])
      have p: "absDB (db pc) h = Some (absPayment b)" using Some ab1 by (metis absDB_Some)
      show ?thesis
      proof (cases "statusOf b")
        case StatusUnknown
        then show ?thesis using statusOf_known by blast
      next
        case StatusFailed
        then show ?thesis using x n Inr Some new dbfail by (auto simp: InitPayment_def inTx_def initPaymentTx_ok [OF di1] split: if_splits)
      next
        case StatusInFlight
        then show ?thesis using x n Inr Some dbfail di1 si1 ab1 st p
          by (auto simp: InitPayment_def inTx_def initPaymentTx_ok [OF di1] same paySim_def pay_inv_def split: if_splits)
      next
        case StatusSucceeded
        then show ?thesis using x n Inr Some dbfail di1 si1 ab1 st p
          by (auto simp: InitPayment_def inTx_def initPaymentTx_ok [OF di1] same paySim_def pay_inv_def split: if_splits)
      qed
    qed
  qed
qed

text \<open>The outcome of an attempt is recorded exactly when the attempt is pending.\<close>

lemma updateHtlcKey_pending:
  assumes ok: "bucket_ok h b" and b: "bucketOf d h = Some b" and a: "absHtlcs (htlcsOf b) aid = Some (a, Pending)"
  shows "\<exists>d' p. updateHtlcKey h aid val d = Inr (d', p)"
proof -
  have hok: "htlcs_ok (htlcsOf b)" by (rule bucket_htlcs [OF ok])
  have k: "aid |\<in>| fmdom (htlcAttemptInfo (htlcsOf b))" "aid |\<notin>| fmdom (htlcSettleInfo (htlcsOf b))" "aid |\<notin>| fmdom (htlcFailInfo (htlcsOf b))"
    using absHtlcs_Pending a by blast+
  then have st: "statusOf b = StatusInFlight" by (auto simp: statusOf_def isPending_def)
  have l: "fmlookup (htlcAttemptInfo (htlcsOf b)) aid \<noteq> None" "fmlookup (htlcSettleInfo (htlcsOf b)) aid = None" "fmlookup (htlcFailInfo (htlcsOf b)) aid = None"
    using k unfolding fmlookup_None_iff by simp_all
  have hb: "paymentHtlcsBucket b = Some (htlcsOf b)"
    using l(1) by (cases "paymentHtlcsBucket b") (simp_all add: htlcsOf_def emptyHtlcs_def)
  let ?b = "b\<lparr>paymentHtlcsBucket := Some (putOutcome aid val (htlcsOf b))\<rparr>"
  have "htlcs_ok (htlcsOf ?b)" using htlcs_ok_outcome [OF hok l(1,3,2)] by (simp add: htlcsOf_def)
  then have "bucket_ok h ?b" using ok sentOf_outcome [of aid val "htlcsOf b"] unfolding bucket_ok_def by (fastforce simp: htlcsOf_def)
  moreover have "fetchPaymentBucket h d = Inr b" using b by (simp add: fetchPaymentBucket_iff)
  moreover have "ensureInFlight (paymentOf b) = None" using st by (simp add: ensureInFlight_None)
  ultimately show ?thesis using l by (simp add: updateHtlcKey_def fetchPayment_ok [OF ok] fetchPayment_ok hb Let_def)
qed

lemma outcome_sim:
  assumes inv: "pay_inv pc" and x: "inTx dbOk (updateHtlcKey h aid val) pc = (pc', r)"
  shows "pay_inv pc'"
    "r = Inl e \<Longrightarrow> absDB (db pc') = absDB (db pc) \<and> (e = ErrDatabase \<and> \<not> dbOk \<or> \<not> (\<exists>p a. absDB (db pc) h = Some p \<and> shards p aid = Some (a, Pending)))"
    "r = Inr p \<Longrightarrow> dbOk \<and> (\<exists>q a. absDB (db pc) h = Some q \<and> shards q aid = Some (a, Pending) \<and>
      absDB (db pc') = (absDB (db pc))(h \<mapsto> setShard aid a (case val of Settled i \<Rightarrow> Paid (Preimage i) | Failed i \<Rightarrow> Lost) q))"
proof -
  have di: "db_inv (db pc)" using inv unfolding pay_inv_def by simp
  have "pay_inv pc' \<and> (r = Inl e \<longrightarrow> absDB (db pc') = absDB (db pc) \<and> (e = ErrDatabase \<and> \<not> dbOk \<or> \<not> (\<exists>p a. absDB (db pc) h = Some p \<and> shards p aid = Some (a, Pending)))) \<and>
    (r = Inr p \<longrightarrow> dbOk \<and> (\<exists>q a. absDB (db pc) h = Some q \<and> shards q aid = Some (a, Pending) \<and>
      absDB (db pc') = (absDB (db pc))(h \<mapsto> setShard aid a (case val of Settled i \<Rightarrow> Paid (Preimage i) | Failed i \<Rightarrow> Lost) q)))"
    using x
  proof (cases rule: tx_cases)
    case (error err)
    have "\<not> (\<exists>p a. absDB (db pc) h = Some p \<and> shards p aid = Some (a, Pending))"
      using updateHtlcKey_pending [OF db_invD(1) [OF di], of h _ "db pc" aid _ val] error(1) by (force simp: absDB_Some)
    then show ?thesis using error inv by simp
  next
    case (lost d y)
    then show ?thesis using inv by simp
  next
    case (commit d y)
    obtain b b' where b: "bucketOf (db pc) h = Some b" "b' = b\<lparr>paymentHtlcsBucket := Some (putOutcome aid val (htlcsOf b))\<rparr>"
      "bucket_ok h b'" "d = updatePaymentInflightIndexEntry (paymentOf b') (putBucket h b' (db pc))"
      "fmlookup (htlcAttemptInfo (htlcsOf b)) aid \<noteq> None" "fmlookup (htlcSettleInfo (htlcsOf b)) aid = None" "fmlookup (htlcFailInfo (htlcsOf b)) aid = None"
      using updateHtlcKey_inv [OF di commit(1)] .
    obtain a where a: "fmlookup (htlcAttemptInfo (htlcsOf b)) aid = Some a" using b(5) by blast
    have pend: "absHtlcs (htlcsOf b) aid = Some (unat (ReceiverAmt (at_Route a)), Pending)" using a b(6,7) by (simp add: absHtlcs_def)
    have "absPayment b' = setShard aid (unat (ReceiverAmt (at_Route a))) (case val of Settled i \<Rightarrow> Paid (Preimage i) | Failed i \<Rightarrow> Lost) (absPayment b)"
      using absHtlcs_settle [OF a] absHtlcs_fail [OF a b(6)] unfolding b(2) by (cases val) (simp_all add: absPayment_def setShard_def htlcsOf_def)
    then have "absDB d = (absDB (db pc))(h \<mapsto> setShard aid (unat (ReceiverAmt (at_Route a))) (case val of Settled i \<Rightarrow> Paid (Preimage i) | Failed i \<Rightarrow> Lost) (absPayment b))"
      unfolding b(4) absDB_put [OF b(1)] by simp
    moreover have "pay_inv pc'" unfolding commit(3) b(4) by (rule put_pay_inv [OF inv b(1,3)]) (simp add: b(2))
    moreover have "absDB (db pc) h = Some (absPayment b)" using b(1) by (simp add: absDB_def)
    ultimately show ?thesis using commit pend by auto
  qed
  then show "pay_inv pc'"
    "r = Inl e \<Longrightarrow> absDB (db pc') = absDB (db pc) \<and> (e = ErrDatabase \<and> \<not> dbOk \<or> \<not> (\<exists>p a. absDB (db pc) h = Some p \<and> shards p aid = Some (a, Pending)))"
    "r = Inr p \<Longrightarrow> dbOk \<and> (\<exists>q a. absDB (db pc) h = Some q \<and> shards q aid = Some (a, Pending) \<and>
      absDB (db pc') = (absDB (db pc))(h \<mapsto> setShard aid a (case val of Settled i \<Rightarrow> Paid (Preimage i) | Failed i \<Rightarrow> Lost) q))"
    by blast+
qed

lemma checkShards_err: "checkShards m hs = Some e \<Longrightarrow> e \<noteq> ErrDatabase \<and> e \<noteq> ErrValueExceedsAmt"
  by (induction hs) (auto split: option.splits if_splits)

lemma registerAttemptTx_err:
  assumes inv: "db_inv d" and r: "registerAttemptTx h a d = Inl e" and amt: "unat (ReceiverAmt (at_Route a)) < 2 ^ 63"
  shows "case bucketOf d h of
      None \<Rightarrow> e = ErrPaymentNotInitiated
    | Some b \<Rightarrow> (isSettled b \<or> paymentFailInfoKey b \<noteq> None \<longrightarrow> e = ErrPaymentTerminal) \<and> e \<noteq> ErrDatabase \<and>
        (e = ErrValueExceedsAmt \<longrightarrow> sentOf (htlcsOf b) + unat (ReceiverAmt (at_Route a)) > unat (Value (the (paymentCreationInfoKey b))))"
proof (cases "bucketOf d h")
  case None
  then have "fetchPaymentBucket h d = Inl ErrPaymentNotInitiated" by (auto simp: fetchPaymentBucket_def bucketOf_def split: option.splits)
  then show ?thesis using r None by (simp add: registerAttemptTx_def)
next
  case (Some b)
  have ok: "bucket_ok h b" by (rule db_invD(1) [OF inv Some])
  have hok: "htlcs_ok (htlcsOf b)" by (rule bucket_htlcs [OF ok])
  obtain i :: PaymentCreationInfo where i: "paymentCreationInfoKey b = Some i" "unat (Value i) < 2 ^ 63" "sentOf (htlcsOf b) \<le> unat (Value i)" using ok unfolding bucket_ok_def by blast
  have f: "fetchPaymentBucket h d = Inr b" using Some by (simp add: fetchPaymentBucket_iff)
  have hb: "(case paymentHtlcsBucket b of None \<Rightarrow> emptyHtlcs | Some hb \<Rightarrow> hb) = htlcsOf b" by (simp add: htlcsOf_def)
  let ?hb = "(htlcsOf b)\<lparr>htlcAttemptInfo := fmupd (AttemptID a) a (htlcAttemptInfo (htlcsOf b))\<rparr>"
  show ?thesis
  proof (cases "isSettled b \<or> paymentFailInfoKey b \<noteq> None")
    case True
    then have "TerminalInfo (paymentOf b) \<noteq> (None, None)" using TerminalInfo_ok [OF hok] by simp
    then have "e = ErrPaymentTerminal" using r by (simp add: registerAttemptTx_def f fetchPayment_ok [OF ok])
    then show ?thesis using Some by simp
  next
    case False
    have s: "fst (SentAmt (paymentOf b)) + ReceiverAmt (at_Route a) > Value i \<longleftrightarrow> sentOf (htlcsOf b) + unat (ReceiverAmt (at_Route a)) > unat (Value i)"
      using SentAmt_ok [OF ok] i(2,3) amt by (simp add: word_less_nat_alt unat_plus_if_size word_size)
    have t: "TerminalInfo (paymentOf b) = (None, None)" using TerminalInfo_ok [OF hok] False by simp
    have b': "fetchPayment (b\<lparr>paymentHtlcsBucket := Some ?hb\<rparr>) \<noteq> Inl e"
      using i(1) bucket_seq [OF ok] fetchHtlcAttempts_ok [OF htlcs_ok_register [OF hok, of "AttemptID a" a]] by (auto simp: fetchPayment_def)
    have ens: "ensureInFlight (paymentOf b) = Some x \<Longrightarrow> x \<noteq> ErrDatabase \<and> x \<noteq> ErrValueExceedsAmt" for x
      by (simp add: ensureInFlight_def split: PaymentStatus.splits)
    have "e \<noteq> ErrDatabase \<and> (e = ErrValueExceedsAmt \<longrightarrow> fst (SentAmt (paymentOf b)) + ReceiverAmt (at_Route a) > Value i)"
      using r ens b' checkShards_err unfolding registerAttemptTx_def f bindR_simps fetchPayment_ok(1) [OF ok] hb Let_def
      by (auto simp: t i(1) bindR_Inl_iff split: option.splits if_splits)
    then show ?thesis using Some False i(1) s by simp
  qed
qed

lemma register_sim:
  assumes inv: "pay_inv pc" and al: "payAllowed pc (Register dbOk h a)" and x: "RegisterAttempt dbOk h a pc = (pc', r)"
  shows "paySim pc (Register dbOk h a) pc' (errOf r)"
  using x unfolding RegisterAttempt_def
proof (cases rule: tx_cases)
  case (error e)
  have di: "db_inv (db pc)" using inv unfolding pay_inv_def by simp
  have "refused (absDB (db pc)) (Register dbOk h a) e"
    using registerAttemptTx_err [OF di error(1)] al bucket_abs(2,4) [OF db_invD(1) [OF di, of h]]
    by (cases "bucketOf (db pc) h") (auto simp: absDB_def)
  then show ?thesis using error inv by (simp add: paySim_def)
next
  case (lost d y)
  have di: "db_inv (db pc)" using inv unfolding pay_inv_def by simp
  have amt: "unat (ReceiverAmt (at_Route a)) < 2 ^ 63" using al by simp
  obtain b where b: "bucketOf (db pc) h = Some b" "\<not> isSettled b" "paymentFailInfoKey b = None"
    using registerAttemptTx_inv [OF di lost(1) amt] .
  then have "refused (absDB (db pc)) (Register dbOk h a) ErrDatabase"
    using lost(2) bucket_abs(2) [OF db_invD(1) [OF di b(1)]] by (simp add: absDB_def)
  then show ?thesis using lost inv by (simp add: paySim_def)
next
  case (commit d y)
  have di: "db_inv (db pc)" using inv unfolding pay_inv_def by simp
  have amt: "unat (ReceiverAmt (at_Route a)) < 2 ^ 63" using al by simp
  obtain b b' where b: "bucketOf (db pc) h = Some b" "\<not> isSettled b" "paymentFailInfoKey b = None"
    "b' = b\<lparr>paymentHtlcsBucket := Some ((htlcsOf b)\<lparr>htlcAttemptInfo := fmupd (AttemptID a) a (htlcAttemptInfo (htlcsOf b))\<rparr>)\<rparr>"
    "bucket_ok h b'" "d = updatePaymentInflightIndexEntry (paymentOf b') (putBucket h b' (db pc))"
    "sentOf (htlcsOf b) + unat (ReceiverAmt (at_Route a)) \<le> unat (Value (the (paymentCreationInfoKey b)))"
    using registerAttemptTx_inv [OF di commit(1) amt] .
  have ok: "bucket_ok h b" by (rule db_invD(1) [OF di b(1)])
  have new: "AttemptID a |\<notin>| fmdom (htlcAttemptInfo (htlcsOf b))" using al b(1) by simp
  have "absPayment b' = setShard (AttemptID a) (unat (ReceiverAmt (at_Route a))) Pending (absPayment b)"
    using absHtlcs_register [OF bucket_htlcs [OF ok] new] by (simp add: b(4) absPayment_def setShard_def htlcsOf_def)
  then have "absDB d = (absDB (db pc))(h \<mapsto> setShard (AttemptID a) (unat (ReceiverAmt (at_Route a))) Pending (absPayment b))"
    unfolding b(6) absDB_put [OF b(1)] by simp
  moreover have "pay_inv pc'" unfolding commit(3) b(6) by (rule put_pay_inv [OF inv b(1,5)]) (simp add: b(4))
  moreover have "absDB (db pc) h = Some (absPayment b)" using b(1) by (simp add: absDB_def)
  ultimately show ?thesis using commit(2-4) b(2,3,7) bucket_abs(2,4) [OF ok] by (simp add: paySim_def)
qed

lemma settle_sim:
  assumes "pay_inv pc" and "SettleAttempt dbOk h aid i pc = (pc', r)"
  shows "paySim pc (Settle dbOk h aid i) pc' (errOf r)"
  using outcome_sim [OF assms(1) assms(2) [unfolded SettleAttempt_def]] by (cases r) (auto simp: paySim_def)

lemma failHtlc_sim:
  assumes "pay_inv pc" and "FailAttempt dbOk h aid i pc = (pc', r)"
  shows "paySim pc (FailHtlc dbOk h aid i) pc' (errOf r)"
  using outcome_sim [OF assms(1) assms(2) [unfolded FailAttempt_def]] by (cases r) (auto simp: paySim_def)

lemma failTx_total: "db_inv d \<Longrightarrow> \<exists>d' x. failTx h rsn d = Inr (d', x)"
proof (cases "bucketOf d h")
  case None
  then have "fetchPaymentBucket h d = Inl ErrPaymentNotInitiated" by (auto simp: fetchPaymentBucket_def bucketOf_def split: option.splits)
  then show ?thesis by (simp add: failTx_def)
next
  case (Some b)
  assume "db_inv d"
  then have ok: "bucket_ok h b" using Some db_invD(1) by blast
  have ok': "bucket_ok h (b\<lparr>paymentFailInfoKey := Some rsn\<rparr>)" using ok by (simp add: bucket_ok_def htlcsOf_def)
  have "fetchPaymentBucket h d = Inr b" using Some by (simp add: fetchPaymentBucket_iff)
  then show ?thesis by (simp add: failTx_def fetchPayment_ok [OF ok] fetchPayment_ok [OF ok'] statusOf_known Let_def)
qed

lemma failPay_sim:
  assumes inv: "pay_inv pc" and x: "FailPayment dbOk h rsn pc = (pc', r)"
  shows "paySim pc (FailPay dbOk h rsn) pc' (errOf r)"
proof -
  have di: "db_inv (db pc)" using inv unfolding pay_inv_def by simp
  obtain d y where t: "failTx h rsn (db pc) = Inr (d, y)" using failTx_total [OF di] by blast
  show ?thesis
  proof (cases dbOk)
    case False
    then have "pc' = pc" "r = Inl ErrDatabase" using x t by (simp_all add: FailPayment_def inTx_def)
    then show ?thesis using False inv by (simp add: paySim_def)
  next
    case True
    then have pc': "pc' = pc\<lparr>db := d\<rparr>" "r = y" using x t by (simp_all add: FailPayment_def inTx_def)
    show ?thesis using di t
    proof (cases rule: failTx_inv)
      case unknown
      then have "pc' = pc" using pc' by simp
      then show ?thesis using unknown inv pc'(2) by (simp add: paySim_def absDB_def)
    next
      case (known b b')
      have "absDB d = (absDB (db pc))(h \<mapsto> (absPayment b)\<lparr>reason := Some rsn\<rparr>)"
        unfolding known(4) absDB_put [OF known(1)] known(2) by (simp add: absPayment_def htlcsOf_def)
      moreover have "pay_inv pc'" unfolding pc' known(4) by (rule put_pay_inv [OF inv known(1,3)]) (simp add: known(2))
      moreover have "absDB (db pc) h = Some (absPayment b)" using known(1) by (simp add: absDB_def)
      ultimately show ?thesis using True pc' known(5) by (simp add: paySim_def)
    qed
  qed
qed

lemma delete_sim:
  assumes inv: "pay_inv pc" and x: "DeletePayment dbOk h fo pc = (pc', r)"
  shows "paySim pc (Delete dbOk h fo) pc' (errOf r)"
  using x unfolding DeletePayment_def
proof (cases rule: tx_cases)
  case (error e)
  have di: "db_inv (db pc)" using inv unfolding pay_inv_def by simp
  have "refused (absDB (db pc)) (Delete dbOk h fo) e"
    using error(1) bucket_abs(3) [OF db_invD(1) [OF di, of h]] unfolding deletePaymentTx_ok [OF di]
    by (cases "bucketOf (db pc) h") (auto simp: absDB_def split: if_splits)
  then show ?thesis using error inv by (simp add: paySim_def)
next
  case (lost d y)
  then show ?thesis using inv by (simp add: paySim_def)
next
  case (commit d y)
  have di: "db_inv (db pc)" and si: "seq_inv pc" using inv unfolding pay_inv_def by simp_all
  note del = deletePaymentTx_inv [OF di commit(1)]
  have "pay_inv pc'" unfolding pay_inv_def commit(3) using del(1) seq_inv_keep [OF si del(2,3)] by simp
  moreover have "absDB d = (absDB (db pc))(h := if fo then map_option withoutLost (absDB (db pc) h) else None)"
    unfolding absDB_def fun_eq_iff del(4) using absPayment_cleaned [OF bucket_htlcs [OF db_invD(1) [OF di, of h]]]
    by (cases "bucketOf (db pc) h") auto
  moreover have "\<forall>p. absDB (db pc) h = Some p \<longrightarrow> payStatus p \<noteq> StatusInFlight"
    using del(5) bucket_abs(3) [OF db_invD(1) [OF di, of h]] by (auto simp: absDB_Some)
  ultimately show ?thesis using commit(2-4) by (simp add: paySim_def)
qed

lemma deleteAll_sim:
  assumes inv: "pay_inv pc" and x: "DeletePayments dbOk fo fh pc = (pc', r)"
  shows "paySim pc (DeleteAll dbOk fo fh) pc' (errOf r)"
proof -
  have di: "db_inv (db pc)" and si: "seq_inv pc" using inv unfolding pay_inv_def by simp_all
  obtain d where d: "deletePaymentsTx fo fh (db pc) = Inr (d, ())" "db_inv d" "rootSeq d = rootSeq (db pc)"
    "fmdom (paymentsIndexBucket d) |\<subseteq>| fmdom (paymentsIndexBucket (db pc))"
    "\<And>h. bucketOf d h = (case bucketOf (db pc) h of None \<Rightarrow> None | Some b \<Rightarrow> afterDelete fo fh b)"
    using deletePaymentsTx_inv [OF di, where fo = fo and fh = fh] by blast
  have ab: "absDB d = (\<lambda>h. case absDB (db pc) h of None \<Rightarrow> None
      | Some p \<Rightarrow> if payStatus p \<noteq> StatusInFlight \<and> (fo \<longrightarrow> payStatus p = StatusFailed)
          then if fh then Some (withoutLost p) else None else Some p)"
  proof
    fix h show "absDB d h = (case absDB (db pc) h of None \<Rightarrow> None
      | Some p \<Rightarrow> if payStatus p \<noteq> StatusInFlight \<and> (fo \<longrightarrow> payStatus p = StatusFailed)
          then if fh then Some (withoutLost p) else None else Some p)"
    proof (cases "bucketOf (db pc) h")
      case (Some b)
      note ok = db_invD(1) [OF di Some]
      show ?thesis unfolding absDB_def d(5) using Some bucket_abs(3) [OF ok] absPayment_cleaned [OF bucket_htlcs [OF ok]]
        by (simp add: afterDelete_def deletable_def)
    qed (simp add: absDB_def d(5))
  qed
  show ?thesis
  proof (cases dbOk)
    case True
    then have "pc' = pc\<lparr>db := d\<rparr>" "r = Inr ()" using x d(1) by (simp_all add: DeletePayments_def inTx_def)
    then show ?thesis using True d(2) ab seq_inv_keep [OF si d(3,4)] by (simp add: paySim_def pay_inv_def)
  next
    case False
    then have "pc' = pc" "r = Inl ErrDatabase" using x d(1) by (simp_all add: DeletePayments_def inTx_def)
    then show ?thesis using False inv by (simp add: paySim_def)
  qed
qed

lemma restart_sim:
  assumes inv: "pay_inv pc" and x: "payExec (Restart dbOk) pc = (pc', e)"
  shows "paySim pc (Restart dbOk) pc' e"
proof -
  have di: "db_inv (db pc)" and si: "seq_inv pc" using inv unfolding pay_inv_def by simp_all
  obtain d where d: "initDcrlndFeatures (db pc) = Inr d" "db_inv d" "bucketOf d = bucketOf (db pc)" "rootSeq d = rootSeq (db pc)"
    "paymentsIndexBucket d = paymentsIndexBucket (db pc)" using initDcrlndFeatures_ok [OF di] .
  have si0: "seq_inv (NewPaymentControl x)" if "rootSeq x = rootSeq (db pc)" "paymentsIndexBucket x = paymentsIndexBucket (db pc)" for x
  proof -
    have "currPaymentSeq pc \<noteq> 0 \<Longrightarrow> currPaymentSeq pc \<le> rootSeq (db pc)" using si unfolding seq_inv_def by auto
    moreover have "\<forall>s \<in> fset (fmdom (paymentsIndexBucket (db pc))). 0 < s \<and> s \<le> (if currPaymentSeq pc = 0 then rootSeq (db pc) else currPaymentSeq pc)"
      using si unfolding seq_inv_def by blast
    ultimately have "\<forall>s \<in> fset (fmdom (paymentsIndexBucket (db pc))). 0 < s \<and> s \<le> rootSeq (db pc)" by (auto split: if_splits)
    then show ?thesis using that by (simp add: seq_inv_def NewPaymentControl_def)
  qed
  have "absDB d = absDB (db pc)" using d(3) by (simp add: fun_eq_iff absDB_def)
  then show ?thesis using x d(1,2) di si0 [OF d(4,5)] si0 [of "db pc"]
    by (auto simp: paySim_def pay_inv_def NewPaymentControl_def split: if_splits)
qed

lemma pay_sim:
  assumes "pay_inv pc" and "payAllowed pc op" and "payExec op pc = (pc', e)"
  shows "paySim pc op pc' e"
proof (cases op)
  case (Init seqOk dbOk h info)
  then show ?thesis using assms(3) init_sim [OF assms(1) assms(2) [unfolded Init]] by simp
next
  case (Register dbOk h a)
  then show ?thesis using assms(3) register_sim [OF assms(1) assms(2) [unfolded Register]] by (auto split: prod.splits)
next
  case (Settle dbOk h aid i)
  then show ?thesis using assms(3) settle_sim [OF assms(1)] by (auto split: prod.splits)
next
  case (FailHtlc dbOk h aid i)
  then show ?thesis using assms(3) failHtlc_sim [OF assms(1)] by (auto split: prod.splits)
next
  case (FailPay dbOk h r)
  then show ?thesis using assms(3) failPay_sim [OF assms(1)] by (auto split: prod.splits)
next
  case (Delete dbOk h fo)
  then show ?thesis using assms(3) delete_sim [OF assms(1)] by (auto split: prod.splits)
next
  case (DeleteAll dbOk fo fh)
  then show ?thesis using assms(3) deleteAll_sim [OF assms(1)] by (auto split: prod.splits)
next
  case (Restart dbOk)
  then show ?thesis using assms(3) restart_sim [OF assms(1)] by simp
qed

subsection \<open>The payment control implements its contract\<close>

abbreviation bookOf :: "PaymentControl \<Rightarrow> book" where
  "bookOf pc \<equiv> absDB (db pc)"

lemma pay_refines:
  assumes "pay_inv pc" and "payAllowed pc op" and "payStep op pc = (pc', r)"
  shows "pay_inv pc'" "pay_spec (bookOf pc) op r (bookOf pc')"
proof -
  obtain e where e: "payExec op pc = (pc', e)" "r = (op, e)" using assms(3) by (auto simp: payStep_def split: prod.splits)
  have "paySim pc op pc' e" by (rule pay_sim [OF assms(1,2) e(1)])
  then show "pay_inv pc'" "pay_spec (bookOf pc) op r (bookOf pc')"
    unfolding paySim_def pay_spec_def e(2) by simp_all
qed

interpretation payments: refinement payStep pay_spec bookOf pay_inv payAllowed
  by unfold_locales (rule pay_refines; assumption)+

subsection \<open>What is paid stays paid\<close>

fun opens :: "bytes \<Rightarrow> payOp \<times> pay_error option \<Rightarrow> bool" where
  "opens h (Init seqOk dbOk h' info, None) \<longleftrightarrow> h' = h"
| "opens h _ \<longleftrightarrow> False"

fun forgets :: "bytes \<Rightarrow> payOp \<Rightarrow> bool" where
  "forgets h (Delete dbOk h' fo) \<longleftrightarrow> h' = h \<and> \<not> fo"
| "forgets h (DeleteAll dbOk fo fh) \<longleftrightarrow> \<not> fo \<and> \<not> fh"
| "forgets h _ \<longleftrightarrow> False"

fun givesUp :: "bytes \<Rightarrow> payOp \<Rightarrow> bool" where
  "givesUp h (FailPay dbOk h' r) \<longleftrightarrow> h' = h"
| "givesUp h op \<longleftrightarrow> forgets h op"

definition paidBy :: "bytes \<Rightarrow> u64 \<Rightarrow> bytes \<Rightarrow> book \<Rightarrow> bool" where
  "paidBy h aid pre s \<longleftrightarrow> (\<exists>p a. s h = Some p \<and> shards p aid = Some (a, Paid pre))"

definition pursued :: "bytes \<Rightarrow> book \<Rightarrow> bool" where
  "pursued h s \<longleftrightarrow> (\<exists>p. s h = Some p \<and> reason p = None)"

lemma paid_not_failed: "shards p aid = Some (a, Paid pre) \<Longrightarrow> payStatus p \<noteq> StatusFailed"
  by (auto simp: payStatus_def anyPaid_def)

lemma pursued_not_failed: "reason p = None \<Longrightarrow> payStatus p \<noteq> StatusFailed"
  by (simp add: payStatus_def)

lemma opensE:
  assumes "opens h r"
  obtains seqOk dbOk info where "r = (Init seqOk dbOk h info, None)"
  using assms by (cases "(h, r)" rule: opens.cases) auto

lemma paid_silent:
  assumes "pay_spec s op r s'" and "paidBy h aid pre s"
  shows "\<not> opens h r"
proof
  assume "opens h r"
  then obtain seqOk dbOk info where "r = (Init seqOk dbOk h info, None)" by (rule opensE)
  then show False using assms paid_not_failed by (force simp: pay_spec_def paidBy_def)
qed

lemma withoutLost_paid: "shards p aid = Some (a, Paid pre) \<Longrightarrow> shards (withoutLost p) aid = Some (a, Paid pre)"
  by (simp add: withoutLost_def)

lemma paid_stays:
  assumes sp: "pay_spec s op r s'" and sh: "paidBy h aid pre s" and op: "\<not> forgets h op"
  shows "paidBy h aid pre s'"
proof (cases "snd r")
  case (Some e)
  then show ?thesis using assms by (simp add: pay_spec_def)
next
  case None
  then have acc: "accepted s op s'" using sp by (simp add: pay_spec_def)
  obtain p a where p: "s h = Some p" "shards p aid = Some (a, Paid pre)" using sh unfolding paidBy_def by blast
  note nf = paid_not_failed [OF p(2)] and wl = withoutLost_paid [OF p(2)]
  show ?thesis
  proof (cases op)
    case (Init seqOk dbOk h' info)
    then show ?thesis using acc p nf by (auto simp: paidBy_def)
  next
    case (Register dbOk h' att)
    then show ?thesis using acc p by (auto simp: paidBy_def setShard_def anyPaid_def)
  next
    case (Settle dbOk h' aid' i)
    then show ?thesis using acc p by (auto simp: paidBy_def setShard_def)
  next
    case (FailHtlc dbOk h' aid' i)
    then show ?thesis using acc p by (auto simp: paidBy_def setShard_def)
  next
    case (FailPay dbOk h' rsn)
    then show ?thesis using acc p by (auto simp: paidBy_def)
  next
    case (Delete dbOk h' fo)
    then show ?thesis using acc p op wl by (auto simp: paidBy_def)
  next
    case (DeleteAll dbOk fo fh)
    then show ?thesis using acc p op nf wl by (auto simp: paidBy_def)
  next
    case (Restart dbOk)
    then show ?thesis using acc sh by simp
  qed
qed

interpretation paid: latch payStep pay_spec bookOf pay_inv payAllowed "opens h" "paidBy h aid pre" "forgets h" for h aid pre
  by unfold_locales (rule paid_silent paid_stays; assumption)+

lemma pursued_silent:
  assumes "pay_spec s op r s'" and "pursued h s"
  shows "\<not> opens h r"
proof
  assume "opens h r"
  then obtain seqOk dbOk info where "r = (Init seqOk dbOk h info, None)" by (rule opensE)
  then show False using assms pursued_not_failed by (force simp: pay_spec_def pursued_def)
qed

lemma opens_pursues:
  assumes "pay_spec s op r s'" and "opens h r"
  shows "pursued h s'"
  using assms(2)
proof (rule opensE)
  fix seqOk dbOk info assume "r = (Init seqOk dbOk h info, None)"
  then show ?thesis using assms(1) by (auto simp: pay_spec_def pursued_def freshPayment_def)
qed

lemma pursued_stays:
  assumes sp: "pay_spec s op r s'" and sh: "pursued h s" and op: "\<not> givesUp h op"
  shows "pursued h s'"
proof (cases "snd r")
  case (Some e)
  then show ?thesis using assms by (simp add: pay_spec_def)
next
  case None
  then have acc: "accepted s op s'" using sp by (simp add: pay_spec_def)
  obtain p where p: "s h = Some p" "reason p = None" using sh unfolding pursued_def by blast
  note nf = pursued_not_failed [OF p(2)]
  have wl: "reason (withoutLost p) = None" using p(2) by (simp add: withoutLost_def)
  show ?thesis
  proof (cases op)
    case (Init seqOk dbOk h' info)
    then show ?thesis using acc p nf by (auto simp: pursued_def)
  next
    case (Delete dbOk h' fo)
    then show ?thesis using acc p op wl by (auto simp: pursued_def)
  next
    case (DeleteAll dbOk fo fh)
    then show ?thesis using acc p op nf wl by (auto simp: pursued_def)
  qed (use acc p op sh in \<open>auto simp: pursued_def setShard_def\<close>)
qed

interpretation opened: gated payStep pay_spec bookOf pay_inv payAllowed "opens h" "pursued h" "givesUp h" for h
  by unfold_locales (rule pursued_silent pursued_stays opens_pursues; assumption)+

end
