(* ===== verification/PaymentsProps.thy ===== *)
theory PaymentsProps
  imports PaymentsSpec "HOL-Library.Multiset"
begin

text \<open>
  The properties of the payment control: it implements its contract, never sends more than the
  amount of a payment, pays a hash once, and its indexes agree with the payments.
\<close>

subsection \<open>Runs from a new database\<close>

abbreviation freshControl :: PaymentControl where
  "freshControl \<equiv> NewPaymentControl newPaymentsDB"

lemma fresh_inv: "pay_inv freshControl"
  by (simp add: pay_inv_def db_inv_def seq_inv_def NewPaymentControl_def newPaymentsDB_def bucketOf_def)

lemma payments_inv:
  assumes "permittedRun payAllowed payStep ops freshControl" and "execRun payStep ops freshControl = (pc, rs)"
  shows "pay_inv pc"
  by (rule payments.run_refines(1) [OF fresh_inv assms])

subsection \<open>What the readers return\<close>

lemma FetchPayment_iff:
  assumes "pay_inv pc"
  shows "FetchPayment h pc = Inr p \<longleftrightarrow> (\<exists>b. bucketOf (db pc) h = Some b \<and> p = paymentOf b)"
proof (cases "bucketOf (db pc) h")
  case None
  then have "fetchPaymentBucket h (db pc) = Inl ErrPaymentNotInitiated" by (auto simp: fetchPaymentBucket_def bucketOf_def split: option.splits)
  then show ?thesis using None by (simp add: FetchPayment_def)
next
  case (Some b)
  then have "bucket_ok h b" using assms db_invD(1) unfolding pay_inv_def by blast
  moreover have "fetchPaymentBucket h (db pc) = Inr b" using Some by (simp add: fetchPaymentBucket_iff)
  ultimately show ?thesis using Some by (auto simp: FetchPayment_def fetchPayment_ok)
qed

lemma collectInFlight_ok:
  assumes "\<forall>b \<in> set bs. \<exists>h. bucket_ok h b"
  shows "collectInFlight bs = Inr (map paymentOf (filter (\<lambda>b. statusOf b = StatusInFlight) bs))"
  using assms
proof (induction bs)
  case (Cons b bs)
  then obtain h where "bucket_ok h b" by auto
  then show ?case using Cons by (simp add: fetchPayment_ok)
qed simp

lemma collectIndexed_ok:
  assumes inv: "db_inv d" and r: "paymentsRootBucket d = Some r"
    and ss: "\<forall>s \<in> set ss. \<exists>h b. bucketOf d h = Some b \<and> paymentSequenceKey b = Some s \<and> statusOf b = StatusInFlight"
  shows "\<exists>bs. collectIndexed ss r d = Inr (map paymentOf bs) \<and> map paymentSequenceKey bs = map Some ss \<and>
    (\<forall>b \<in> set bs. (\<exists>h. bucketOf d h = Some b) \<and> statusOf b = StatusInFlight)"
  using ss
proof (induction ss)
  case (Cons s ss)
  obtain h b where b: "bucketOf d h = Some b" "paymentSequenceKey b = Some s" "statusOf b = StatusInFlight" using Cons.prems by auto
  have ix: "fmlookup (paymentsIndexBucket d) s = Some h" using db_invD(2) [OF inv, of s h] b by blast
  have l: "fmlookup (Payments r) h = Some b" using b(1) r by (simp add: bucketOf_def)
  obtain bs where bs: "collectIndexed ss r d = Inr (map paymentOf bs)" "map paymentSequenceKey bs = map Some ss"
    "\<forall>b \<in> set bs. (\<exists>h. bucketOf d h = Some b) \<and> statusOf b = StatusInFlight" using Cons by auto
  show ?case
    by (rule exI [of _ "b # bs"]) (use b bs ix l fetchPayment_ok [OF db_invD(1) [OF inv b(1)]] in auto)
qed simp

lemma paymentOf_bucket:
  assumes "db_inv d" and "bucketOf d h = Some b" "bucketOf d h' = Some b'" "paymentOf b = paymentOf b'"
  shows "h' = h"
proof -
  obtain s s' where s: "paymentSequenceKey b = Some s" "paymentSequenceKey b' = Some s'"
    using bucket_seq [OF db_invD(1) [OF assms(1,2)]] bucket_seq [OF db_invD(1) [OF assms(1,3)]] by blast
  have "SequenceNum (paymentOf b) = SequenceNum (paymentOf b')" using assms(4) by simp
  then have "s' = s" using s by simp
  then show ?thesis using seq_unique [OF assms(1,2) s(1) assms(3)] s(2) by simp
qed

lemma FetchInFlight_ok:
  assumes inv: "db_inv (db pc)"
  obtains ps where "FetchInFlightPayments pc = Inr ps" "distinct ps"
    "\<And>p. p \<in> set ps \<longleftrightarrow> (\<exists>h b. bucketOf (db pc) h = Some b \<and> statusOf b = StatusInFlight \<and> p = paymentOf b)"
proof (cases "paymentsRootBucket (db pc)")
  case None
  then show ?thesis using that [of "[]"] by (simp add: FetchInFlightPayments_def bucketOf_def)
next
  case (Some r)
  note bl = set_bucketList [OF Some]
  show ?thesis
  proof (cases "paymentsInflightIndexBucket (db pc)")
    case None
    let ?bs = "filter (\<lambda>b. statusOf b = StatusInFlight) (map snd (bucketList r))"
    have ok: "\<forall>b \<in> set (map snd (bucketList r)). \<exists>h. bucket_ok h b"
      using db_invD(1) [OF inv] bl by fastforce
    have mem: "b \<in> set ?bs \<longleftrightarrow> (\<exists>h. bucketOf (db pc) h = Some b) \<and> statusOf b = StatusInFlight" for b using bl by force
    have "distinct (map (\<lambda>x. paymentOf (snd x)) (bucketList r))"
    proof -
      have "inj_on (\<lambda>x. paymentOf (snd x)) (set (bucketList r))"
      proof (rule inj_onI)
        fix x y assume xy: "x \<in> set (bucketList r)" "y \<in> set (bucketList r)" "paymentOf (snd x) = paymentOf (snd y)"
        obtain h b h' b' where e: "x = (h, b)" "y = (h', b')" by fastforce
        then have "bucketOf (db pc) h = Some b" "bucketOf (db pc) h' = Some b'" using xy(1,2) bl by blast+
        then show "x = y" using paymentOf_bucket [OF inv] xy(3) e by fastforce
      qed
      moreover have "distinct (bucketList r)" using fst_bucketList distinct_sorted_fset by (metis distinct_map)
      ultimately show ?thesis by (simp add: distinct_map)
    qed
    then have "distinct (map paymentOf (map snd (bucketList r)))" by (simp add: comp_def)
    then have d: "distinct (map paymentOf ?bs)" by (rule distinct_map_filter)
    show ?thesis
    proof (rule that [of "map paymentOf ?bs"])
      show "FetchInFlightPayments pc = Inr (map paymentOf ?bs)"
        using Some None by (simp add: FetchInFlightPayments_def collectInFlight_ok [OF ok])
      show "p \<in> set (map paymentOf ?bs) \<longleftrightarrow> (\<exists>h b. bucketOf (db pc) h = Some b \<and> statusOf b = StatusInFlight \<and> p = paymentOf b)" for p
        using mem unfolding set_map image_iff by blast
    qed (rule d)
  next
    case (Some i)
    note r = \<open>paymentsRootBucket (db pc) = Some r\<close>
    have mem: "s |\<in>| i \<longleftrightarrow> (\<exists>h b. bucketOf (db pc) h = Some b \<and> paymentSequenceKey b = Some s \<and> statusOf b = StatusInFlight)" for s
      by (rule db_invD(3) [OF inv Some])
    have ss: "\<forall>s \<in> set (sorted_list_of_fset i). \<exists>h b. bucketOf (db pc) h = Some b \<and> paymentSequenceKey b = Some s \<and> statusOf b = StatusInFlight"
      using mem by simp
    obtain bs where bs: "collectIndexed (sorted_list_of_fset i) r (db pc) = Inr (map paymentOf bs)" "map paymentSequenceKey bs = map Some (sorted_list_of_fset i)"
      "\<forall>b \<in> set bs. (\<exists>h. bucketOf (db pc) h = Some b) \<and> statusOf b = StatusInFlight" using collectIndexed_ok [OF inv r ss] by blast
    have seqs: "map SequenceNum (map paymentOf bs) = sorted_list_of_fset i"
    proof -
      have "map SequenceNum (map paymentOf bs) = map the (map paymentSequenceKey bs)" by simp
      also have "\<dots> = sorted_list_of_fset i" unfolding bs(2) by (simp add: comp_def)
      finally show ?thesis .
    qed
    show ?thesis
    proof (rule that [of "map paymentOf bs"])
      show "FetchInFlightPayments pc = Inr (map paymentOf bs)" using r Some bs(1) by (simp add: FetchInFlightPayments_def)
      have "distinct (map SequenceNum (map paymentOf bs))" unfolding seqs by simp
      then show "distinct (map paymentOf bs)" using distinct_map [of SequenceNum "map paymentOf bs"] by blast
      show "p \<in> set (map paymentOf bs) \<longleftrightarrow> (\<exists>h b. bucketOf (db pc) h = Some b \<and> statusOf b = StatusInFlight \<and> p = paymentOf b)" for p
      proof
        assume "p \<in> set (map paymentOf bs)"
        then show "\<exists>h b. bucketOf (db pc) h = Some b \<and> statusOf b = StatusInFlight \<and> p = paymentOf b" using bs(3) unfolding set_map image_iff by blast
      next
        assume "\<exists>h b. bucketOf (db pc) h = Some b \<and> statusOf b = StatusInFlight \<and> p = paymentOf b"
        then obtain h b where b: "bucketOf (db pc) h = Some b" "statusOf b = StatusInFlight" "p = paymentOf b" by blast
        obtain s where s: "paymentSequenceKey b = Some s" using bucket_seq [OF db_invD(1) [OF inv b(1)]] by blast
        then have "Some s \<in> set (map paymentSequenceKey bs)" unfolding bs(2) using mem b by auto
        then obtain b' where b': "b' \<in> set bs" "paymentSequenceKey b' = Some s" by auto
        then obtain h' where h': "bucketOf (db pc) h' = Some b'" using bs(3) by blast
        then have "h' = h" using seq_unique [OF inv b(1) s h' b'(2)] by simp
        then show "p \<in> set (map paymentOf bs)" using h' b b'(1) by simp
      qed
    qed
  qed
qed

subsection \<open>Resolving the attempts of a payment\<close>

definition resolve :: "bytes \<Rightarrow> u64 \<times> htlcOutcome \<Rightarrow> payOp" where
  "resolve h x = (case snd x of Settled i \<Rightarrow> Settle True h (fst x) i | Failed i \<Rightarrow> FailHtlc True h (fst x) i)"

definition shardAfter :: "htlcOutcome \<Rightarrow> shardState" where
  "shardAfter x = (case x of Settled i \<Rightarrow> Paid (Preimage i) | Failed i \<Rightarrow> Lost)"

lemma resolve_step:
  assumes inv: "pay_inv pc" and q: "bookOf pc h = Some q" "shards q aid = Some (a, Pending)" and x: "payStep (resolve h (aid, out)) pc = (pc', r)"
  shows "pay_inv pc'" "snd r = None" "bookOf pc' h = Some (setShard aid a (shardAfter out) q)"
proof -
  have al: "payAllowed pc (resolve h (aid, out))" by (cases out) (simp_all add: resolve_def)
  note ref = pay_refines [OF inv al x]
  show "pay_inv pc'" by (rule ref(1))
  show n: "snd r = None" using ref(2) q by (cases out) (auto simp: pay_spec_def resolve_def split: option.splits)
  show "bookOf pc' h = Some (setShard aid a (shardAfter out) q)"
    using ref(2) q n by (cases out) (auto simp: pay_spec_def resolve_def shardAfter_def)
qed

lemma setShard_simps [simp]:
  "reason (setShard aid a st q) = reason q" "shards (setShard aid a st q) = (shards q)(aid \<mapsto> (a, st))"
  by (simp_all add: setShard_def)

lemma anyPaid_set:
  assumes "shards q aid = Some (a, Pending)"
  shows "anyPaid (setShard aid a (shardAfter out) q) \<longleftrightarrow> anyPaid q \<or> (\<exists>i. out = Settled i)"
proof (cases out)
  case (Settled i)
  then show ?thesis by (auto simp: anyPaid_def shardAfter_def)
next
  case (Failed i)
  have "aid' \<noteq> aid" if "shards q aid' = Some (b, Paid pre)" for aid' b pre using that assms by auto
  then have "(\<exists>aid' b pre. ((shards q)(aid \<mapsto> (a, Lost))) aid' = Some (b, Paid pre)) \<longleftrightarrow> anyPaid q"
    unfolding anyPaid_def fun_upd_apply by (metis option.inject prod.inject shardState.distinct(5))
  then show ?thesis using Failed unfolding anyPaid_def by (simp add: shardAfter_def)
qed

lemma resolve_run:
  assumes "pay_inv pc" and "bookOf pc h = Some q" and "distinct (map fst outs)"
    and "\<And>aid. (\<exists>a. shards q aid = Some (a, Pending)) \<longleftrightarrow> aid \<in> fst ` set outs" and "execRun payStep (map (resolve h) outs) pc = (pc', rs)"
  shows "pay_inv pc' \<and> (\<forall>r \<in> set rs. snd r = None) \<and>
    (\<exists>q'. bookOf pc' h = Some q' \<and> reason q' = reason q \<and> \<not> anyPending q' \<and> (anyPaid q' \<longleftrightarrow> anyPaid q \<or> (\<exists>x \<in> set outs. \<exists>i. snd x = Settled i)))"
  using assms
proof (induction outs arbitrary: pc q rs)
  case Nil
  then show ?case by (auto simp: anyPending_def)
next
  case (Cons x outs)
  obtain aid out where x: "x = (aid, out)" by fastforce
  obtain a where a: "shards q aid = Some (a, Pending)" using Cons.prems(4) [of aid] unfolding x by auto
  obtain pc1 r rs1 where e: "payStep (resolve h x) pc = (pc1, r)" "execRun payStep (map (resolve h) outs) pc1 = (pc', rs1)" "rs = r # rs1"
    using Cons.prems(5) unfolding list.map by (rule execRun_Cons)
  note st = resolve_step [OF Cons.prems(1,2) a e(1) [unfolded x]]
  let ?q = "setShard aid a (shardAfter out) q"
  have fr: "aid \<notin> fst ` set outs" using Cons.prems(3) unfolding x by simp
  have "(\<exists>a. shards ?q aid' = Some (a, Pending)) \<longleftrightarrow> aid' \<in> fst ` set outs" for aid'
  proof (cases "aid' = aid")
    case True
    then show ?thesis using fr by (cases out) (simp_all add: shardAfter_def)
  next
    case False
    then show ?thesis using Cons.prems(4) [of aid'] unfolding x by simp
  qed
  then have IH: "pay_inv pc' \<and> (\<forall>r \<in> set rs1. snd r = None) \<and>
    (\<exists>q'. bookOf pc' h = Some q' \<and> reason q' = reason ?q \<and> \<not> anyPending q' \<and> (anyPaid q' \<longleftrightarrow> anyPaid ?q \<or> (\<exists>x \<in> set outs. \<exists>i. snd x = Settled i)))"
    using Cons.prems(3) by (intro Cons.IH [OF st(1,3) _ _ e(2)]) simp_all
  then show ?case using e(3) st(2) anyPaid_set [OF a, of out] unfolding x by auto
qed

subsection \<open>Facts of fetched payments\<close>

lemma InFlight_ids:
  assumes "htlcs_ok (htlcsOf b)"
  shows "aid \<in> (\<lambda>a. AttemptID (ha_Info a)) ` set (InFlightHTLCs (paymentOf b)) \<longleftrightarrow> (\<exists>a. shards (absPayment b) aid = Some (a, Pending))"
  unfolding absPayment_simps absHtlcs_Pending InFlightHTLCs_def paymentOf_simps attemptsOf_def
  by (auto simp: fmlookup_None_iff image_iff)

lemma settled_abs:
  "(\<exists>a \<in> set (HTLCs (paymentOf b)). AttemptID (ha_Info a) = aid \<and> map_option Preimage (ha_Settle a) = Some pre) \<longleftrightarrow>
     (\<exists>a. shards (absPayment b) aid = Some (a, Paid pre))"
proof -
  have "(\<exists>a \<in> set (HTLCs (paymentOf b)). AttemptID (ha_Info a) = aid \<and> map_option Preimage (ha_Settle a) = Some pre) \<longleftrightarrow>
    aid |\<in>| fmdom (htlcAttemptInfo (htlcsOf b)) \<and> map_option Preimage (fmlookup (htlcSettleInfo (htlcsOf b)) aid) = Some pre"
    unfolding paymentOf_simps attemptsOf_def by (auto simp: image_iff)
  also have "\<dots> \<longleftrightarrow> (\<exists>a. shards (absPayment b) aid = Some (a, Paid pre))"
    by (auto simp: absHtlcs_def fmdom_iff split: option.splits if_splits)
  finally show ?thesis .
qed

lemma settled_any:
  assumes "htlcs_ok (htlcsOf b)"
  shows "(\<exists>a \<in> set (HTLCs (paymentOf b)). ha_Settle a \<noteq> None) \<longleftrightarrow> anyPaid (absPayment b)"
proof -
  have "(\<exists>a \<in> set (HTLCs (paymentOf b)). ha_Settle a \<noteq> None) \<longleftrightarrow>
    \<not> (\<forall>aid. aid |\<in>| fmdom (htlcAttemptInfo (htlcsOf b)) \<longrightarrow> aid |\<notin>| fmdom (htlcSettleInfo (htlcsOf b)))"
    unfolding find_settled [symmetric] find_None_iff paymentOf_simps by blast
  then show ?thesis using assms unfolding absPayment_facts(2) [OF assms] isSettled_def htlcs_ok_def by blast
qed

lemma book_of_fetched:
  assumes inv: "pay_inv pc" and p: "FetchPayment h pc = Inr p"
  obtains b where "bucketOf (db pc) h = Some b" "bucket_ok h b" "p = paymentOf b" "bookOf pc h = Some (absPayment b)"
proof -
  obtain b where b: "bucketOf (db pc) h = Some b" "p = paymentOf b" using p unfolding FetchPayment_iff [OF inv] by blast
  then show ?thesis using that [OF b(1) _ b(2)] db_invD(1) [of "db pc", OF _ b(1)] inv by (simp add: pay_inv_def absDB_def)
qed

lemma fetched_of_book:
  assumes inv: "pay_inv pc" and q: "bookOf pc h = Some q"
  obtains b where "bucketOf (db pc) h = Some b" "bucket_ok h b" "FetchPayment h pc = Inr (paymentOf b)" "q = absPayment b"
proof -
  obtain b where b: "bucketOf (db pc) h = Some b" "q = absPayment b" using q unfolding absDB_Some by blast
  have "FetchPayment h pc = Inr (paymentOf b)" unfolding FetchPayment_iff [OF inv] using b(1) by blast
  then show ?thesis using that [OF b(1) _ _ b(2)] db_invD(1) [of "db pc", OF _ b(1)] inv by (simp add: pay_inv_def)
qed

subsection \<open>Queries\<close>











lemma sorted_fset [simp]: "sorted (sorted_list_of_fset S)"
  by (simp add: sorted_list_of_fset.rep_eq)








subsection \<open>Properties\<close>


text \<open>C6. The attempts of a payment that have not failed never deliver more than the payment is
  worth: their sum, as a natural number, is at most the value, and \<open>SentAmt\<close> computes that sum
  without wrapping.\<close>

theorem attempts_within_value:
  assumes "permittedRun payAllowed payStep ops freshControl" and "execRun payStep ops freshControl = (pc, rs)"
    and "FetchPayment h pc = Inr p"
  shows "unat (fst (SentAmt p)) = (\<Sum>a \<leftarrow> filter (\<lambda>a. ha_Failure a = None) (HTLCs p). unat (ReceiverAmt (at_Route (ha_Info a)))) \<and>
    unat (fst (SentAmt p)) \<le> unat (Value (Info p))"
proof -
  obtain b where b: "bucket_ok h b" "p = paymentOf b" using book_of_fetched [OF payments_inv [OF assms(1,2)] assms(3)] .
  then obtain i where "paymentCreationInfoKey b = Some i" "sentOf (htlcsOf b) \<le> unat (Value i)" unfolding bucket_ok_def by blast
  then show ?thesis unfolding b(2) SentAmt_ok [OF b(1)] using sum_attempts [of "htlcsOf b"] by simp
qed

text \<open>C7. A payment with a settled attempt stays settled with the same preimage, and no other
  payment to its hash is accepted, through every sequence of calls, failed writes and restarts
  that does not delete it; deleting failed payments or failed attempts does not delete it.\<close>

theorem paid_stays_paid:
  assumes "permittedRun payAllowed payStep ops freshControl" and "execRun payStep ops freshControl = (pc, rs)"
    and "FetchPayment h pc = Inr p" and "a \<in> set (HTLCs p)" "AttemptID (ha_Info a) = aid" "map_option Preimage (ha_Settle a) = Some pre"
    and "permittedRun payAllowed payStep ops' pc" and "execRun payStep ops' pc = (pc', rs')" and "\<forall>op \<in> set ops'. \<not> forgets h op"
  shows "filter (opens h) rs' = [] \<and>
    (\<exists>p'. FetchPayment h pc' = Inr p' \<and> (\<exists>a' \<in> set (HTLCs p'). AttemptID (ha_Info a') = aid \<and> map_option Preimage (ha_Settle a') = Some pre))"
proof -
  note inv = payments_inv [OF assms(1,2)]
  obtain b where b: "p = paymentOf b" "bookOf pc h = Some (absPayment b)" using book_of_fetched [OF inv assms(3)] .
  have paid: "paidBy h aid pre (bookOf pc)" unfolding paidBy_def b(2) using settled_abs [of b aid pre] assms(4-6) b(1) by blast
  have inv': "pay_inv pc'" by (rule payments.run_refines(1) [OF inv assms(7,8)])
  have "paidBy h aid pre (bookOf pc')" by (rule paid.stays_shut [OF inv assms(7-9) paid])
  then obtain q where "bookOf pc' h = Some q" "\<exists>a. shards q aid = Some (a, Paid pre)" unfolding paidBy_def by blast
  then show ?thesis using fetched_of_book [OF inv'] settled_abs paid.silent [OF inv assms(7-9) paid] by metis
qed

text \<open>C16. Between two calls that give a payment up or delete it, \<open>InitPayment\<close> is accepted at most
  once for its hash.\<close>

theorem payment_opened_once:
  assumes "permittedRun payAllowed payStep ops freshControl" and "execRun payStep ops freshControl = (pc, rs)"
    and "permittedRun payAllowed payStep ops' pc" and "execRun payStep ops' pc = (pc', rs')" and "\<forall>op \<in> set ops'. \<not> givesUp h op"
  shows "length (filter (opens h) rs') \<le> 1"
  by (rule opened.once [OF payments_inv [OF assms(1,2)] assms(3-5)])

text \<open>C12. The payments in flight read through their index are the payments in flight read by a scan
  of all payments, without repetition, and these are exactly the payments whose status is in
  flight.\<close>

theorem in_flight_index_agrees:
  assumes "permittedRun payAllowed payStep ops freshControl" and "execRun payStep ops freshControl = (pc, rs)"
  shows "\<exists>ps qs. FetchInFlightPayments pc = Inr ps \<and>
    FetchInFlightPayments (pc\<lparr>db := (db pc)\<lparr>paymentsInflightIndexBucket := None\<rparr>\<rparr>) = Inr qs \<and> mset ps = mset qs \<and> distinct ps \<and>
    set ps = {p. \<exists>h. FetchPayment h pc = Inr p \<and> Status p = StatusInFlight}"
proof -
  let ?pc = "pc\<lparr>db := (db pc)\<lparr>paymentsInflightIndexBucket := None\<rparr>\<rparr>"
  note inv = payments_inv [OF assms]
  have bk: "bucketOf (db ?pc) = bucketOf (db pc)" by (simp add: fun_eq_iff bucketOf_def)
  have di: "db_inv (db pc)" and di': "db_inv (db ?pc)" using inv bk by (simp_all add: pay_inv_def db_inv_def)
  obtain ps where ps: "FetchInFlightPayments pc = Inr ps" "distinct ps"
    "\<And>p. p \<in> set ps \<longleftrightarrow> (\<exists>h b. bucketOf (db pc) h = Some b \<and> statusOf b = StatusInFlight \<and> p = paymentOf b)" using FetchInFlight_ok [OF di] by blast
  obtain qs where qs: "FetchInFlightPayments ?pc = Inr qs" "distinct qs"
    "\<And>p. p \<in> set qs \<longleftrightarrow> (\<exists>h b. bucketOf (db pc) h = Some b \<and> statusOf b = StatusInFlight \<and> p = paymentOf b)" using FetchInFlight_ok [OF di'] unfolding bk by blast
  have "set ps = set qs" using ps(3) qs(3) by blast
  then have "mset ps = mset qs" using ps(2) qs(2) set_eq_iff_mset_eq_distinct by blast
  moreover have "set ps = {p. \<exists>h. FetchPayment h pc = Inr p \<and> Status p = StatusInFlight}"
    unfolding set_eq_iff mem_Collect_eq ps(3) FetchPayment_iff [OF inv] by (metis paymentOf_simps(3))
  ultimately show ?thesis using ps(1,2) qs(1) by blast
qed

text \<open>C23. A database without the index of payments in flight, as older versions leave it, gets at
  its next start exactly the index that would have been maintained.\<close>

theorem index_rebuilt:
  assumes "permittedRun payAllowed payStep ops freshControl" and "execRun payStep ops freshControl = (pc, rs)"
    and "paymentsInflightIndexBucket (db pc) = Some i"
  shows "payExec (Restart True) (pc\<lparr>db := (db pc)\<lparr>paymentsInflightIndexBucket := None\<rparr>\<rparr>) = (NewPaymentControl (db pc), None)"
proof -
  let ?d = "(db pc)\<lparr>paymentsInflightIndexBucket := None\<rparr>"
  have bk: "bucketOf ?d = bucketOf (db pc)" "bucketOf (?d\<lparr>paymentsInflightIndexBucket := x\<rparr>) = bucketOf (db pc)" for x by (simp_all add: fun_eq_iff bucketOf_def)
  have di: "db_inv (db pc)" and di': "db_inv ?d" using payments_inv [OF assms(1,2)] bk by (simp_all add: pay_inv_def db_inv_def)
  obtain j where j: "recreatePaymentsInflightIndex ?d = Inr (?d\<lparr>paymentsInflightIndexBucket := Some j\<rparr>)" "db_inv (?d\<lparr>paymentsInflightIndexBucket := Some j\<rparr>)"
    using recreate_ok [OF di'] by auto
  have "j = i" using db_invD(3) [OF di assms(3)] db_invD(3) [OF j(2), of j] unfolding bk by (auto simp: fset_eq_iff)
  then have "?d\<lparr>paymentsInflightIndexBucket := Some j\<rparr> = db pc" using assms(3) by (cases "db pc") simp
  then show ?thesis using j(1) by (simp add: initDcrlndFeatures_def)
qed

text \<open>C22. Sequence numbers only grow, through restarts and failed writes too: a payment that is
  opened gets a number above that of every payment in the database.\<close>

theorem sequence_numbers_grow:
  assumes "permittedRun payAllowed payStep ops freshControl" and "execRun payStep ops freshControl = (pc, rs)"
    and "payAllowed pc (Init seqOk dbOk h info)" and "InitPayment seqOk dbOk h info pc = (pc', None)"
  shows "\<exists>p. FetchPayment h pc' = Inr p \<and> Info p = info \<and> HTLCs p = [] \<and> Status p = StatusInFlight \<and>
    (\<forall>h' p'. FetchPayment h' pc = Inr p' \<longrightarrow> SequenceNum p' < SequenceNum p)"
proof -
  note inv = payments_inv [OF assms(1,2)]
  have di: "db_inv (db pc)" and si: "seq_inv pc" using inv unfolding pay_inv_def by simp_all
  have room: "unat (rootSeq (db pc)) + 1000 < 2 ^ 64" using assms(3) by simp
  have inv': "pay_inv pc'" using init_sim [OF inv assms(3,4)] by (simp add: paySim_def)
  obtain pc1 s where n: "nextPaymentSequence seqOk pc = (pc1, Inr s)"
    using assms(4) by (auto simp: InitPayment_def split: prod.splits sum.splits)
  note ns = nextPaymentSequence_ok [OF si room n]
  have di1: "db_inv (db pc1)" by (rule db_inv_cong [OF di ns(1-3)])
  have "db pc' = startPayment h info s (db pc1)"
    using assms(4) n by (auto simp: InitPayment_def inTx_def initPaymentTx_ok [OF di1] split: option.splits PaymentStatus.splits if_splits)
  then have b: "bucketOf (db pc') h = Some (newBucket s info)" by (simp add: startPayment_bucketOf)
  have "FetchPayment h pc' = Inr (paymentOf (newBucket s info))" unfolding FetchPayment_iff [OF inv'] using b by blast
  moreover have "SequenceNum p' < s" if f: "FetchPayment h' pc = Inr p'" for h' p'
  proof -
    obtain b' where b': "bucketOf (db pc) h' = Some b'" "bucket_ok h' b'" "p' = paymentOf b'" using book_of_fetched [OF inv f] .
    obtain s' where s': "paymentSequenceKey b' = Some s'" using bucket_seq [OF b'(2)] by blast
    then have "fmlookup (paymentsIndexBucket (db pc)) s' = Some h'" using db_invD(2) [OF di, of s' h'] b'(1) by blast
    then have "s' |\<in>| fmdom (paymentsIndexBucket (db pc))" by (rule fmdomI)
    then show ?thesis using ns(4) s' b'(3) by simp
  qed
  moreover have "Status (paymentOf (newBucket s info)) = StatusInFlight" using newBucket_ok(2) [of info h s] assms(3) by simp
  moreover have "HTLCs (paymentOf (newBucket s info)) = []" "Info (paymentOf (newBucket s info)) = info" "SequenceNum (paymentOf (newBucket s info)) = s"
    by (simp_all add: newBucket_def htlcsOf_def emptyHtlcs_def attemptsOf_def)
  ultimately show ?thesis by (intro exI [of _ "paymentOf (newBucket s info)"]) simp
qed


text \<open>C21. A payment that was given up ends: once every attempt still in flight is settled or failed,
  in any order, each of these calls is accepted and the payment has succeeded if an attempt
  settled and has failed otherwise.\<close>

theorem given_up_payment_ends:
  assumes "permittedRun payAllowed payStep ops freshControl" and "execRun payStep ops freshControl = (pc, rs)"
    and "FetchPayment h pc = Inr p" and "FailureReason p \<noteq> None"
    and "distinct (map fst outs)" and "set (map fst outs) = (\<lambda>a. AttemptID (ha_Info a)) ` set (InFlightHTLCs p)"
    and "execRun payStep (map (resolve h) outs) pc = (pc', rs')"
  shows "(\<forall>r \<in> set rs'. snd r = None) \<and>
    (\<exists>p'. FetchPayment h pc' = Inr p' \<and>
      Status p' = (if (\<exists>a \<in> set (HTLCs p). ha_Settle a \<noteq> None) \<or> (\<exists>x \<in> set outs. \<exists>i. snd x = Settled i) then StatusSucceeded else StatusFailed))"
proof -
  note inv = payments_inv [OF assms(1,2)]
  obtain b where b: "bucket_ok h b" "p = paymentOf b" "bookOf pc h = Some (absPayment b)" using book_of_fetched [OF inv assms(3)] .
  note hok = bucket_htlcs [OF b(1)]
  have pend: "(\<exists>a. shards (absPayment b) aid = Some (a, Pending)) \<longleftrightarrow> aid \<in> fst ` set outs" for aid
    using InFlight_ids [OF hok, of aid] assms(6) unfolding b(2) set_map by blast
  obtain q where q: "bookOf pc' h = Some q" "reason q = paymentFailInfoKey b" "\<not> anyPending q"
    "anyPaid q \<longleftrightarrow> anyPaid (absPayment b) \<or> (\<exists>x \<in> set outs. \<exists>i. snd x = Settled i)" and inv': "pay_inv pc'" and ok: "\<forall>r \<in> set rs'. snd r = None"
    using resolve_run [OF inv b(3) assms(5) pend assms(7)] by auto
  obtain b' where b': "bucket_ok h b'" "FetchPayment h pc' = Inr (paymentOf b')" "q = absPayment b'" using fetched_of_book [OF inv' q(1)] .
  have "Status (paymentOf b') = payStatus q" using bucket_abs(3) [OF b'(1)] b'(3) by simp
  also have "\<dots> = (if anyPaid q then StatusSucceeded else StatusFailed)" using q(2,3) assms(4) b(2) by (simp add: payStatus_def)
  finally show ?thesis using ok b'(2) q(4) settled_any [OF hok] b(2) by auto
qed

text \<open>C30. A payment that is given up while attempts are in flight is still in flight: the next
  \<open>InitPayment\<close> for its hash is refused with \<open>ErrPaymentInFlight\<close>.\<close>

theorem fail_keeps_in_flight:
  assumes "permittedRun payAllowed payStep ops freshControl" and "execRun payStep ops freshControl = (pc, rs)"
    and "FetchPayment h pc = Inr p" and "InFlightHTLCs p \<noteq> []"
    and "FailPayment dbOk h rsn pc = (pc', r)" and "payAllowed pc' (Init True True h info)" and "InitPayment True True h info pc' = (pc'', e)"
  shows "e = Some ErrPaymentInFlight"
proof -
  note inv = payments_inv [OF assms(1,2)]
  obtain b where b: "bucket_ok h b" "p = paymentOf b" "bookOf pc h = Some (absPayment b)" using book_of_fetched [OF inv assms(3)] .
  have "\<exists>aid a. shards (absPayment b) aid = Some (a, Pending)" using InFlight_ids [OF bucket_htlcs [OF b(1)]] assms(4) b(2)
    by (metis image_eqI list.set_intros(1) neq_Nil_conv)
  then obtain aid a where pend: "shards (absPayment b) aid = Some (a, Pending)" by blast
  have sim: "paySim pc (FailPay dbOk h rsn) pc' (errOf r)" by (rule failPay_sim [OF inv assms(5)])
  then have inv': "pay_inv pc'" by (simp add: paySim_def)
  have "\<exists>q. bookOf pc' h = Some q \<and> shards q aid = Some (a, Pending)"
    using sim b(3) pend by (cases "errOf r") (auto simp: paySim_def)
  then obtain q where q: "bookOf pc' h = Some q" "shards q aid = Some (a, Pending)" by blast
  have "payStatus q = StatusInFlight" using q(2) by (auto simp: payStatus_def anyPending_def)
  then show ?thesis using init_sim [OF inv' assms(6,7)] q(1) by (cases e) (auto simp: paySim_def)
qed

definition exInfo :: PaymentCreationInfo where
  "exInfo = \<lparr>PaymentIdentifier = [1], Value = 1000, CreationTime = 0, PaymentRequest = []\<rparr>"

definition exAttempt :: "u64 \<Rightarrow> u64 \<Rightarrow> HTLCAttemptInfo" where
  "exAttempt aid amt = \<lparr>AttemptID = aid, at_Route = \<lparr>TotalAmount = amt + 1,
     Hops = [\<lparr>AmtToForward = amt, hop_MPP = Some \<lparr>paymentAddr = [9], totalMAtoms = 1000\<rparr>\<rparr>]\<rparr>\<rparr>"

lemma sorted_fset_insert [simp]: "sorted_list_of_fset (finsert x S) = insort x (sorted_list_of_fset (S |-| {|x|}))"
  by (simp add: sorted_list_of_fset.rep_eq sorted_list_of_set_insert_remove)

lemma fminus_eval: "finsert x A |-| {|y|} = (if x = y then A |-| {|y|} else finsert x (A |-| {|y|}))"
  by auto

lemmas pay_eval = fminus_eval fcard_finsert_if payStep_def InitPayment_def nextPaymentSequence_def paymentSeqBlockSize_def inTx_def initPaymentTx_def createPaymentBucket_def createRoot_def
  fetchPaymentStatus_def fetchPayment_def emptyBucket_def createPaymentInflightIndexEntry_def deletePaymentInflightIndexEntry_def updatePaymentInflightIndexEntry_def
  putBucket_def RegisterAttempt_def registerAttemptTx_def fetchPaymentBucket_def TerminalInfo_def ensureInFlight_def FinalHop_def InFlightHTLCs_def ReceiverAmt_def
  SentAmt_def emptyHtlcs_def fetchHtlcAttempts_def paymentStatus_def initDcrlndFeatures_def recreatePaymentsInflightIndex_def NewPaymentControl_def newPaymentsDB_def
  Let_def errOf_def SettleAttempt_def FailAttempt_def updateHtlcKey_def FailPayment_def failTx_def FetchPayment_def

definition exOpen :: "payOp list" where
  "exOpen = [Restart True, Init True True [1] exInfo, Register True [1] (exAttempt 7 400), Register True [1] (exAttempt 8 600)]"

definition exBucket :: paymentBucket where
  "exBucket = \<lparr>paymentSequenceKey = Some 1, paymentCreationInfoKey = Some exInfo, paymentFailInfoKey = None,
     paymentHtlcsBucket = Some \<lparr>htlcAttemptInfo = fmupd 8 (exAttempt 8 600) (fmupd 7 (exAttempt 7 400) fmempty), htlcSettleInfo = fmempty, htlcFailInfo = fmempty\<rparr>,
     duplicatePaymentsBucket = None\<rparr>"

definition exControl :: PaymentControl where
  "exControl = \<lparr>currPaymentSeq = 1, storedPaymentSeq = 1000, db = \<lparr>paymentsRootBucket = Some \<lparr>Sequence = 1000, Payments = fmupd [1] exBucket fmempty\<rparr>,
     paymentsIndexBucket = fmupd 1 [1] fmempty, paymentsInflightIndexBucket = Some {|1|}\<rparr>\<rparr>"

lemma ex_open_run: "execRun payStep exOpen freshControl = (exControl, map (\<lambda>op. (op, None)) exOpen)"
  by (simp add: exOpen_def pay_eval exControl_def exBucket_def exInfo_def exAttempt_def fmupd_twice)

lemma ex_open_allowed: "permittedRun payAllowed payStep exOpen freshControl"
  by (simp add: exOpen_def pay_eval exInfo_def exAttempt_def fmupd_twice rootSeq_def bucketOf_def htlcsOf_def)

lemma ex_fetch: "FetchPayment [1] exControl = Inr (paymentOf exBucket)"
  unfolding FetchPayment_iff [OF payments_inv [OF ex_open_allowed ex_open_run]] by (simp add: bucketOf_def exControl_def)


theorem attempts_within_value_witness:
  "FetchPayment [1] exControl = Inr (paymentOf exBucket) \<and> length (HTLCs (paymentOf exBucket)) = 2 \<and>
   unat (fst (SentAmt (paymentOf exBucket))) \<le> unat (Value (Info (paymentOf exBucket)))"
  using attempts_within_value [OF ex_open_allowed ex_open_run ex_fetch] ex_fetch by (simp add: attemptsOf_def htlcsOf_def exBucket_def)

definition exSettle :: HTLCSettleInfo where
  "exSettle = \<lparr>Preimage = [3], SettleTime = 0\<rparr>"

definition exFail :: HTLCFailInfo where
  "exFail = \<lparr>FailTime = 0, Reason = 0, FailureSourceIndex = 0\<rparr>"

definition exPaid :: "payOp list" where
  "exPaid = exOpen @ [Settle True [1] 7 exSettle]"

definition exPaidBucket :: paymentBucket where
  "exPaidBucket = exBucket\<lparr>paymentHtlcsBucket := Some \<lparr>htlcAttemptInfo = fmupd 8 (exAttempt 8 600) (fmupd 7 (exAttempt 7 400) fmempty),
     htlcSettleInfo = fmupd 7 exSettle fmempty, htlcFailInfo = fmempty\<rparr>\<rparr>"

definition exPaidControl :: PaymentControl where
  "exPaidControl = exControl\<lparr>db := (db exControl)\<lparr>paymentsRootBucket := Some \<lparr>Sequence = 1000, Payments = fmupd [1] exPaidBucket fmempty\<rparr>\<rparr>\<rparr>"

lemma ex_paid_step: "execRun payStep [Settle True [1] 7 exSettle] exControl = (exPaidControl, [(Settle True [1] 7 exSettle, None)])"
  by (simp add: pay_eval exPaidControl_def exPaidBucket_def exControl_def exBucket_def exInfo_def exAttempt_def fmupd_twice)

lemma ex_paid_run: "execRun payStep exPaid freshControl = (exPaidControl, map (\<lambda>op. (op, None)) exPaid)"
  unfolding exPaid_def execRun_append ex_open_run by (simp only: prod.case ex_paid_step) simp

lemma ex_paid_allowed: "permittedRun payAllowed payStep exPaid freshControl"
  unfolding exPaid_def permittedRun_append ex_open_run using ex_open_allowed by simp

lemma ex_paid_fetch: "FetchPayment [1] exPaidControl = Inr (paymentOf exPaidBucket)"
  unfolding FetchPayment_iff [OF payments_inv [OF ex_paid_allowed ex_paid_run]] by (simp add: bucketOf_def exPaidControl_def exControl_def)

definition exLater :: "payOp list" where
  "exLater = [Init True True [1] exInfo, FailPay True [1] 2, Restart True, FailHtlc True [1] 8 exFail, DeleteAll True True False]"

lemma ex_later_allowed: "permittedRun payAllowed payStep exLater exPaidControl"
  by (simp add: exLater_def exPaidControl_def exControl_def exInfo_def rootSeq_def)

theorem paid_stays_paid_witness:
  "filter (opens [1]) (snd (execRun payStep exLater exPaidControl)) = [] \<and>
   (\<exists>p'. FetchPayment [1] (fst (execRun payStep exLater exPaidControl)) = Inr p' \<and>
      (\<exists>a' \<in> set (HTLCs p'). AttemptID (ha_Info a') = 7 \<and> map_option Preimage (ha_Settle a') = Some [3]))"
proof -
  obtain pc' rs' where r: "execRun payStep exLater exPaidControl = (pc', rs')" by fastforce
  have k: "\<forall>op \<in> set exLater. \<not> forgets [1] op" by (simp add: exLater_def)
  have a: "\<exists>a \<in> set (HTLCs (paymentOf exPaidBucket)). AttemptID (ha_Info a) = 7 \<and> map_option Preimage (ha_Settle a) = Some [3]"
    by (simp add: exPaidBucket_def exBucket_def attemptsOf_def htlcsOf_def exSettle_def)
  then show ?thesis using paid_stays_paid [OF ex_paid_allowed ex_paid_run ex_paid_fetch _ _ _ ex_later_allowed r k] r by auto
qed

lemma ex_twice_allowed: "permittedRun payAllowed payStep (exOpen @ [Init True True [1] exInfo]) freshControl"
  unfolding permittedRun_append ex_open_run using ex_open_allowed by (simp add: exControl_def exInfo_def rootSeq_def)

theorem payment_opened_once_witness:
  "length (filter (opens [1]) (snd (execRun payStep (exOpen @ [Init True True [1] exInfo]) freshControl))) \<le> 1"
proof -
  obtain pc' rs' where r: "execRun payStep (exOpen @ [Init True True [1] exInfo]) freshControl = (pc', rs')" by fastforce
  have k: "\<forall>op \<in> set (exOpen @ [Init True True [1] exInfo]). \<not> givesUp [1] op" by (simp add: exOpen_def)
  show ?thesis using payment_opened_once [of "[]", OF _ _ ex_twice_allowed r k] r by simp
qed

theorem in_flight_index_agrees_witness:
  "\<exists>ps qs. FetchInFlightPayments exControl = Inr ps \<and>
    FetchInFlightPayments (exControl\<lparr>db := (db exControl)\<lparr>paymentsInflightIndexBucket := None\<rparr>\<rparr>) = Inr qs \<and> mset ps = mset qs \<and>
    paymentOf exBucket \<in> set ps"
proof -
  have "Status (paymentOf exBucket) = StatusInFlight" by (simp add: statusOf_def isPending_def isSettled_def exBucket_def htlcsOf_def)
  then show ?thesis using in_flight_index_agrees [OF ex_open_allowed ex_open_run] ex_fetch by blast
qed

theorem index_rebuilt_witness:
  "payExec (Restart True) (exControl\<lparr>db := (db exControl)\<lparr>paymentsInflightIndexBucket := None\<rparr>\<rparr>) = (NewPaymentControl (db exControl), None)"
  using index_rebuilt [OF ex_open_allowed ex_open_run, of "{|1|}"] by (simp add: exControl_def)

definition exInfo2 :: PaymentCreationInfo where
  "exInfo2 = \<lparr>PaymentIdentifier = [2], Value = 50, CreationTime = 0, PaymentRequest = []\<rparr>"

lemma ex_second_open: "snd (InitPayment True True [2] exInfo2 exControl) = None"
  by (simp add: pay_eval exControl_def)

theorem sequence_numbers_grow_witness:
  "\<exists>p. FetchPayment [2] (fst (InitPayment True True [2] exInfo2 exControl)) = Inr p \<and> Info p = exInfo2 \<and> SequenceNum (paymentOf exBucket) < SequenceNum p"
proof -
  obtain pc' where r: "InitPayment True True [2] exInfo2 exControl = (pc', None)" using ex_second_open by (metis prod.collapse)
  have al: "payAllowed exControl (Init True True [2] exInfo2)" by (simp add: exControl_def exInfo2_def rootSeq_def)
  show ?thesis using sequence_numbers_grow [OF ex_open_allowed ex_open_run al r] ex_fetch r by fastforce
qed



definition exGivenUp :: "payOp list" where
  "exGivenUp = exPaid @ [FailPay True [1] 2]"

definition exGivenUpBucket :: paymentBucket where
  "exGivenUpBucket = exPaidBucket\<lparr>paymentFailInfoKey := Some 2\<rparr>"

definition exGivenUpControl :: PaymentControl where
  "exGivenUpControl = exControl\<lparr>db := (db exControl)\<lparr>paymentsRootBucket := Some \<lparr>Sequence = 1000, Payments = fmupd [1] exGivenUpBucket fmempty\<rparr>\<rparr>\<rparr>"

lemma ex_give_up: "FailPayment True [1] 2 exPaidControl = (exGivenUpControl, Inr (paymentOf exGivenUpBucket))"
  by (simp add: pay_eval exGivenUpControl_def exGivenUpBucket_def exPaidControl_def exPaidBucket_def exControl_def exBucket_def exAttempt_def fmupd_twice
      paymentOf_def attemptsOf_def htlcsOf_def statusOf_def isPending_def) (rule exI [of _ 8], simp)

lemma ex_given_up_run: "execRun payStep exGivenUp freshControl = (exGivenUpControl, map (\<lambda>op. (op, None)) exGivenUp)"
  unfolding exGivenUp_def execRun_append ex_paid_run by (simp add: payStep_def ex_give_up errOf_def)

lemma ex_given_up_allowed: "permittedRun payAllowed payStep exGivenUp freshControl"
  unfolding exGivenUp_def permittedRun_append ex_paid_run using ex_paid_allowed by simp

lemma ex_given_up_fetch: "FetchPayment [1] exGivenUpControl = Inr (paymentOf exGivenUpBucket)"
  unfolding FetchPayment_iff [OF payments_inv [OF ex_given_up_allowed ex_given_up_run]] by (simp add: bucketOf_def exGivenUpControl_def exControl_def)

theorem given_up_payment_ends_witness:
  "\<exists>p'. FetchPayment [1] (fst (execRun payStep [FailHtlc True [1] 8 exFail] exGivenUpControl)) = Inr p' \<and> Status p' = StatusSucceeded"
proof -
  obtain pc' rs' where r: "execRun payStep (map (resolve [1]) [(8, Failed exFail)]) exGivenUpControl = (pc', rs')" by fastforce
  have f: "FailureReason (paymentOf exGivenUpBucket) \<noteq> None" by (simp add: exGivenUpBucket_def)
  have i: "set (map fst [(8, Failed exFail)]) = (\<lambda>a. AttemptID (ha_Info a)) ` set (InFlightHTLCs (paymentOf exGivenUpBucket))"
    by (simp add: InFlightHTLCs_def attemptsOf_def htlcsOf_def exGivenUpBucket_def exPaidBucket_def)
  have s: "\<exists>a \<in> set (HTLCs (paymentOf exGivenUpBucket)). ha_Settle a \<noteq> None"
    by (simp add: attemptsOf_def htlcsOf_def exGivenUpBucket_def exPaidBucket_def)
  show ?thesis using given_up_payment_ends [OF ex_given_up_allowed ex_given_up_run ex_given_up_fetch f _ i r] r s by (simp add: resolve_def)
qed

theorem fail_keeps_in_flight_witness:
  "snd (InitPayment True True [1] exInfo exGivenUpControl) = Some ErrPaymentInFlight"
proof -
  obtain pc' e where r: "InitPayment True True [1] exInfo exGivenUpControl = (pc', e)" by fastforce
  have i: "InFlightHTLCs (paymentOf exPaidBucket) \<noteq> []"
    by (simp add: InFlightHTLCs_def attemptsOf_def htlcsOf_def exPaidBucket_def)
  have al: "payAllowed exGivenUpControl (Init True True [1] exInfo)" by (simp add: exGivenUpControl_def exControl_def exInfo_def rootSeq_def)
  show ?thesis using fail_keeps_in_flight [OF ex_paid_allowed ex_paid_run ex_paid_fetch i ex_give_up al r] r by simp
qed



end
