(* ===== verification/Spec2Isabelle.thy ===== *)
theory Spec2Isabelle
  imports TlvStream Sizes ChannelProps CircuitProps PaymentsProps
begin

text \<open>
  A verification library for dcrlnd, the Lightning daemon of Decred (sources under \<^verbatim>\<open>src/\<close>).

  \<^bold>\<open>The program.\<close> A node keeps channels with its peers. A channel (\<^verbatim>\<open>lnwallet/channel.go\<close>) is a
  pair of update logs and two chains of commitments; the peers add, settle and fail HTLCs, sign
  each other's next commitment and revoke the previous one by giving away its secret, which
  comes from a hash tree (\<^verbatim>\<open>shachain\<close>). What became irrevocable is handed to the switch, which
  forwards payments between channels and remembers for each forwarded HTLC where it came from,
  in the map of payment circuits (\<^verbatim>\<open>htlcswitch/circuit_map.go\<close>). Payments the node itself makes
  are kept by the payment control (\<^verbatim>\<open>channeldb/payment_control.go\<close>). Messages and onion payloads
  carry extensions as streams of type-length-value records (\<^verbatim>\<open>tlv\<close>). Transaction sizes and fees
  are computed by \<^verbatim>\<open>input\<close>, for commitments and for the transactions that punish a breach.

  \<^bold>\<open>Conventions.\<close> A struct is a record with the Go names of its fields, a fixed-width integer is a
  word and wraps, amounts of the type \<open>dcrutil.Amount\<close> are integers reduced to 64 bits where the
  code computes with them. A fallible call returns a sum with the error on the left
  (\<open>Prelude.bindR\<close>). Methods that change state return it also when they fail. Go pointers that
  several maps share are numbers into a store. Third-party code is an argument: the hash function
  of the secrets, signing and signature checks, the onion processor, the serialization of public
  keys. The outcome of a database commit is a Boolean argument; a transaction whose closure or
  commit fails has no effect.

  \<^bold>\<open>Theories, sources and results.\<close>

  \<^item> \<open>Prelude\<close>: results, readers, big-endian numbers. The collections \<open>res_simps\<close> and \<open>codec_simps\<close>
    carry the proofs of the codecs.

  \<^item> \<open>Shachain\<close> (\<^verbatim>\<open>shachain/\<close>): elements, index arithmetic, producer and store. The store returns
    exactly the secrets the producer made, keeps every one it was given in order, and its encoding
    is read back. Locale \<open>secret_store\<close> states what a channel relies on.

  \<^item> \<open>Tlv\<close>, \<open>TlvStream\<close> (\<^verbatim>\<open>tlv/\<close>): every primitive codec and the stream. Round trips, canonical
    decoding, custom records, termination of the decoding loop.
    Locales \<open>tuint\<close>, \<open>tlv_codec\<close> and \<open>exact_tlv_codec\<close> hold what the codecs share; each codec of the
    package is an interpretation.

  \<^item> \<open>Sizes\<close> (\<^verbatim>\<open>input/size.go\<close>, \<^verbatim>\<open>contractcourt/breacharbiter.go\<close>): the constants, the estimator and the
    bound of every standard witness; a justice transaction stays within the standard size.

  \<^item> \<open>UpdateLog\<close>, \<open>HtlcView\<close>, \<open>Commitments\<close>, \<open>Channel\<close> (\<^verbatim>\<open>lnwallet/channel.go\<close>, \<^verbatim>\<open>lnwallet/commitment.go\<close>,
    \<^verbatim>\<open>channeldb/channel.go\<close>): logs, views and their evaluation, commitments, and every operation of
    the update protocol. \<open>ChannelView\<close>, \<open>ChannelInv\<close>, \<open>ChannelCommit\<close> and \<open>ChannelRun\<close> prove the
    invariant \<open>chan_inv\<close> for the step relation \<open>chan_step\<close>; \<open>ChannelProps\<close> reads the properties off
    it: no money is made or lost, both commitments have the HTLCs the logs say, each irrevocable
    update is forwarded once, a correct revocation is accepted by its receiver.

  \<^item> \<open>ShortChanId\<close>, \<open>Circuit\<close>, \<open>CircuitMap\<close> (\<^verbatim>\<open>htlcswitch/circuit.go\<close>, \<^verbatim>\<open>htlcswitch/circuit_map.go\<close>,
    \<^verbatim>\<open>lnwire/short_channel_id.go\<close>): circuits, their encoding, every method of the map and its
    start-up. \<open>CircuitMapInv\<close> has the invariant of memory and disk, \<open>CircuitSystem\<close> runs with crashes
    and restarts (\<open>cm_reachable\<close>) and the abstract map they implement, \<open>CircuitProps\<close> the properties.

  \<^item> \<open>Payments\<close> (\<^verbatim>\<open>channeldb/payment_control.go\<close>, \<^verbatim>\<open>payments.go\<close>, \<^verbatim>\<open>mp_payment.go\<close>,
    \<^verbatim>\<open>payments_inflight.go\<close>, \<^verbatim>\<open>paginate.go\<close>): every transaction of the payment control, deletion,
    listing and paging. \<open>PaymentsInv\<close> has the invariant \<open>pay_inv\<close>, \<open>PaymentsSpec\<close> the contract
    \<open>pay_spec\<close> on a book of payments and the proof that every method implements it,
    \<open>PaymentsProps\<close> the properties: the attempts of a payment stay within its value, a hash is paid
    once, both indexes are exact, sequence numbers grow through restarts, pages are what they
    should be, and a payment that is given up ends.

  \<^item> \<open>Refinement\<close>: the locales \<open>refinement\<close>, \<open>latch\<close> and \<open>gated\<close>. From one simulated step they derive
    that runs are simulated, that a shut gate stays shut, and that a response which shuts it is
    given once. Circuit map and payment control are their interpretations.

  \<^bold>\<open>How the parts meet.\<close> The channel uses the producer and the store of \<open>Shachain\<close> and the sizes of
  \<open>Commitments\<close>; the circuit map takes circuit keys and short channel ids from the channel's
  packages, and the references that the channel attaches to the updates it hands over are the ones
  a circuit stores. Both the circuit map and the payment control run under the same locales, with
  failed writes and restarts as operations of a run.

  \<^bold>\<open>Bounds.\<close> A run of a channel has at most \<open>maxSteps = 2 ^ 25\<close> operations and fee rates lie in
  \<open>feeRange\<close>, below \<open>2 ^ 32\<close> atoms (about 42 coins) per kilobyte, far above every rate in use: within
  these bounds no index, height or fee of the model wraps. Payments and attempts are below
  \<open>2 ^ 63\<close> milli-atoms, which is more than all coins there will be, and the sequence of payments has
  room for one more block of 1000 numbers in 64 bits. Attempt ids are new, as the router's
  persistent sequence makes them, and a payment is opened under its own identifier. The only fuel
  is that of the decoding loop of \<open>TlvStream\<close>, one unit more than the input has bytes; as each record
  takes at least one byte, it never runs out.

  \<^bold>\<open>Not modelled.\<close> Goroutines, mailboxes, timers and network connections; signatures, scripts, onion
  encryption and key derivation (third-party code); the interleaving of two circuit-map methods
  between their critical sections; restoring a channel from disk, channel re-establishment, breach
  and close resolution; the wire codecs of \<^verbatim>\<open>lnwire\<close> and the byte encodings of channels and payments;
  path finding, gossip, invoices, sweeping, watchtowers, chain back ends, RPC and configuration.
  These parts are driven by I/O, call libraries that are not part of the sources, or are stores no
  modelled component reads.
\<close>

end
